(* ===== verification/Prelude.thy ===== *)
theory Prelude
  imports Main "HOL-Library.Word" "HOL-Library.Monad_Syntax"
begin

text \<open>
  Shared vocabulary of the development: the machine integer types of the C sources, byte
  buffers with in-place writes, big-endian byte strings and their numeric value, and
  wrap-around arithmetic on naturals for the code whose proofs are linear arithmetic.

  Conventions. A C function that may run into undefined behaviour (a null dereference, a read
  or write outside of an object) returns an \<open>option\<close>, \<open>None\<close> being the fault. A pointer
  that may be null is an \<open>option\<close> as well or a datatype with a constructor \<open>NULL\<close>.
  An allocation is an argument of the operation that makes it, so that both outcomes of
  \<open>malloc\<close> are branches of the model.
\<close>

unbundle bit_operations_syntax

section \<open>Machine integers and bytes\<close>

type_synonym u8 = "8 word"
type_synonym u16 = "16 word"
type_synonym u32 = "32 word"
type_synonym u64 = "64 word"
type_synonym bytes = "u8 list"

named_theorems wrap_simps \<open>wrap-around arithmetic away from the boundary\<close>
named_theorems byte_simps \<open>byte extraction and big-endian values\<close>

text \<open>The cast \<open>(uint8_t)(w >> (8 * i))\<close>.\<close>

definition byte_at :: "nat \<Rightarrow> 'a::len word \<Rightarrow> u8" where
  "byte_at i w = ucast (drop_bit (8 * i) w)"

text \<open>The value of a big-endian byte string.\<close>

fun be_val :: "nat \<Rightarrow> bytes \<Rightarrow> nat" where
  "be_val v [] = v"
| "be_val v (b # bs) = be_val (v * 256 + unat b) bs"

text \<open>The \<open>k\<close> low bytes of a number, most significant first.\<close>

fun be_digits :: "nat \<Rightarrow> nat \<Rightarrow> bytes" where
  "be_digits 0 n = []"
| "be_digits (Suc k) n = of_nat (n div 256 ^ k) # be_digits k n"

text \<open>Writing \<open>bs\<close> into a buffer at an offset.\<close>

definition overlay :: "'a list \<Rightarrow> nat \<Rightarrow> 'a list \<Rightarrow> 'a list" where
  "overlay buf off bs = take off buf @ bs @ drop (off + length bs) buf"

text \<open>A read of one element; \<open>None\<close> is a read outside of the object.\<close>

definition rd :: "'a list \<Rightarrow> nat \<Rightarrow> 'a option" where
  "rd buf i = (if i < length buf then Some (buf ! i) else None)"

text \<open>
  Little-endian byte strings: \<open>bytes_of n x\<close> are the low \<open>n\<close> bytes of \<open>x\<close>, least significant
  first. \<open>load64\<close> and \<open>store64\<close> access the \<open>i\<close>-th 64-bit word of a buffer.
\<close>

fun bytes_of :: "nat \<Rightarrow> u64 \<Rightarrow> u8 list" where
  "bytes_of 0 x = []"
| "bytes_of (Suc n) x = ucast x # bytes_of n (drop_bit 8 x)"

fun value_of :: "u8 list \<Rightarrow> u64" where
  "value_of [] = 0"
| "value_of (b # bs) = ucast b OR push_bit 8 (value_of bs)"

definition load64 :: "bytes \<Rightarrow> nat \<Rightarrow> u64 option" where
  "load64 buf i = (if 8 * i + 8 \<le> length buf then Some (value_of (take 8 (drop (8 * i) buf))) else None)"

definition store64 :: "bytes \<Rightarrow> nat \<Rightarrow> u64 \<Rightarrow> bytes" where
  "store64 buf i x = overlay buf (8 * i) (bytes_of 8 x)"

text \<open>
  \<open>memcpy\<close> of \<open>n\<close> bytes from offset \<open>soff\<close> of one buffer to offset \<open>off\<close> of another, and \<open>memset\<close>;
  \<open>None\<close> is an access outside. With the same buffer as source and destination the copy is a
  \<open>memmove\<close>.
\<close>

definition memcpy_at :: "'a list \<Rightarrow> nat \<Rightarrow> 'a list \<Rightarrow> nat \<Rightarrow> nat \<Rightarrow> 'a list option" where
  "memcpy_at dst off src soff n =
     (if off + n \<le> length dst \<and> soff + n \<le> length src
      then Some (overlay dst off (take n (drop soff src))) else None)"

definition memset_at :: "'a list \<Rightarrow> nat \<Rightarrow> 'a \<Rightarrow> nat \<Rightarrow> 'a list option" where
  "memset_at dst off v n =
     (if off + n \<le> length dst then Some (overlay dst off (replicate n v)) else None)"

text \<open>The buffer after a loop that changes the elements \<open>i\<close> to \<open>n - 1\<close>, element \<open>k\<close> by \<open>f k\<close>.\<close>

definition map_range :: "nat \<Rightarrow> nat \<Rightarrow> (nat \<Rightarrow> 'a \<Rightarrow> 'a) \<Rightarrow> 'a list \<Rightarrow> 'a list" where
  "map_range i n f xs = map (\<lambda>k. if i \<le> k \<and> k < n then f k (xs ! k) else xs ! k) [0..<length xs]"

text \<open>Arithmetic of unsigned 32-bit values held as naturals.\<close>

definition u32_add :: "nat \<Rightarrow> nat \<Rightarrow> nat" where
  "u32_add a b = (a + b) mod 2 ^ 32"

definition u32_sub :: "nat \<Rightarrow> nat \<Rightarrow> nat" where
  "u32_sub a b = (a + (2 ^ 32 - b)) mod 2 ^ 32"

text \<open>Increment and decrement of unsigned 64-bit values held as naturals.\<close>

definition u64_inc :: "nat \<Rightarrow> nat" where
  "u64_inc n = (n + 1) mod 2 ^ 64"

definition u64_dec :: "nat \<Rightarrow> nat" where
  "u64_dec n = (n + (2 ^ 64 - 1)) mod 2 ^ 64"

text \<open>The difference of two unsigned 64-bit values held as naturals.\<close>

definition u64_sub :: "nat \<Rightarrow> nat \<Rightarrow> nat" where
  "u64_sub a b = (a + (2 ^ 64 - b)) mod 2 ^ 64"

section \<open>Lemmas\<close>

lemma length_be_digits [simp]: "length (be_digits k n) = k"
  by (induction k) auto

lemma unat_u8_less [simp]: "unat (b :: u8) < 256"
  using unsigned_less[of b, where ?'a=nat] by simp

lemma unat_of_nat_u8: "unat (of_nat n :: u8) = n mod 256"
  by (simp add: unat_of_nat)

lemma unat_of_nat_u64: "v < 2 ^ 64 \<Longrightarrow> unat (of_nat v :: u64) = v"
  by (simp add: unat_of_nat take_bit_eq_mod)

lemma be_val_acc: "be_val v bs = v * 256 ^ length bs + be_val 0 bs"
proof (induction bs arbitrary: v)
  case Nil
  then show ?case by simp
next
  case (Cons b bs)
  have "be_val v (b # bs) = (v * 256 + unat b) * 256 ^ length bs + be_val 0 bs"
    using Cons[of "v * 256 + unat b"] by simp
  also have "\<dots> = v * 256 ^ length (b # bs) + be_val 0 (b # bs)"
    using Cons[of "unat b"] by (simp add: algebra_simps)
  finally show ?case .
qed

lemma be_val_append: "be_val v (xs @ ys) = be_val (be_val v xs) ys"
  by (induction xs arbitrary: v) auto

lemma be_val_digits [byte_simps]: "be_val v (be_digits k n) = v * 256 ^ k + n mod 256 ^ k"
proof (induction k arbitrary: v)
  case 0
  then show ?case by simp
next
  case (Suc k)
  have "n mod 256 ^ Suc k = 256 ^ k * (n div 256 ^ k mod 256) + n mod 256 ^ k"
    using mod_mult2_eq[of n "256 ^ k" 256] by (simp add: mult.commute)
  then show ?case
    by (simp add: Suc unat_of_nat_u8 algebra_simps)
qed

lemma be_val_less: "be_val 0 bs < 256 ^ length bs"
proof (induction bs rule: rev_induct)
  case (snoc b bs)
  have "be_val 0 bs + 1 \<le> 256 ^ length bs"
    using snoc by simp
  then have "(be_val 0 bs + 1) * 256 \<le> 256 ^ length bs * 256"
    by (rule mult_le_mono1)
  then show ?case
    using unat_u8_less[of b] by (simp add: be_val_append del: unat_u8_less)
qed simp

lemma ucast_of_unat: "ucast w = of_nat (unat w)"
  by transfer simp

lemma byte_at_of_nat [byte_simps]: "byte_at i w = of_nat (unat w div 256 ^ i)"
proof -
  have "unat (drop_bit (8 * i) w) = unat w div (2 ^ 8) ^ i"
    by (simp only: unat_drop_bit_eq) (simp add: drop_bit_eq_div power_mult)
  then show ?thesis
    unfolding byte_at_def by (subst ucast_of_unat) simp
qed

lemma length_overlay [simp]:
  "off + length bs \<le> length buf \<Longrightarrow> length (overlay buf off bs) = length buf"
  by (simp add: overlay_def)

lemma overlay_read: "off \<le> length buf \<Longrightarrow> take (length bs) (drop off (overlay buf off bs)) = bs"
  by (simp add: overlay_def)

lemma overlay_before: "off \<le> length buf \<Longrightarrow> take off (overlay buf off bs) = take off buf"
  by (simp add: overlay_def)

lemma overlay_after:
  "off + length bs \<le> length buf \<Longrightarrow>
   drop (off + length bs) (overlay buf off bs) = drop (off + length bs) buf"
  by (simp add: overlay_def)

lemma u64_inc_small [wrap_simps]: "n + 1 < 2 ^ 64 \<Longrightarrow> u64_inc n = n + 1"
  by (simp add: u64_inc_def)

lemma u64_dec_pos [wrap_simps]: "0 < n \<Longrightarrow> n < 2 ^ 64 \<Longrightarrow> u64_dec n = n - 1"
proof -
  assume "0 < n" "n < 2 ^ 64"
  then have "(n + (2 ^ 64 - 1)) mod 2 ^ 64 = ((n - 1) + 2 ^ 64) mod 2 ^ 64"
    by (simp add: add.commute)
  also have "\<dots> = n - 1"
    using \<open>n < 2 ^ 64\<close> by (subst mod_add_self2) simp
  finally show ?thesis by (simp add: u64_dec_def)
qed

lemma u32_add_small [wrap_simps]: "a + b < 2 ^ 32 \<Longrightarrow> u32_add a b = a + b"
  by (simp add: u32_add_def)

lemma u32_sub_le [wrap_simps]: "b \<le> a \<Longrightarrow> a < 2 ^ 32 \<Longrightarrow> u32_sub a b = a - b"
proof -
  assume le: "b \<le> a" and a: "a < 2 ^ 32"
  from le a have "a + (2 ^ 32 - b) = (a - b) + 2 ^ 32" by simp
  then have "u32_sub a b = (a - b + 2 ^ 32) mod 2 ^ 32" by (simp only: u32_sub_def)
  also have "\<dots> = a - b" using a by (subst mod_add_self2) simp
  finally show ?thesis .
qed

lemma u64_sub_le [wrap_simps]: "b \<le> a \<Longrightarrow> a < 2 ^ 64 \<Longrightarrow> u64_sub a b = a - b"
proof -
  assume le: "b \<le> a" and a: "a < 2 ^ 64"
  from le a have "a + (2 ^ 64 - b) = (a - b) + 2 ^ 64" by simp
  then have "u64_sub a b = (a - b + 2 ^ 64) mod 2 ^ 64" by (simp only: u64_sub_def)
  also have "\<dots> = a - b" using a by (subst mod_add_self2) simp
  finally show ?thesis .
qed

lemma rd_Some [simp]: "i < length buf \<Longrightarrow> rd buf i = Some (buf ! i)"
  by (simp add: rd_def)

lemma length_bytes_of [simp]: "length (bytes_of n x) = n"
  by (induction n arbitrary: x) auto

lemma nth_overlay:
  "off + length bs \<le> length buf \<Longrightarrow> k < length buf \<Longrightarrow>
   overlay buf off bs ! k = (if off \<le> k \<and> k < off + length bs then bs ! (k - off) else buf ! k)"
  by (auto simp: overlay_def nth_append)

lemma overlay_overlay: "off + length xs + length ys \<le> length b \<Longrightarrow>
    overlay (overlay b off xs) (off + length xs) ys = overlay b off (xs @ ys)"
  by (rule nth_equalityI) (auto simp: nth_overlay nth_append)

lemma length_map_range [simp]: "length (map_range i n f xs) = length xs"
  by (simp add: map_range_def)

lemma nth_map_range [simp]:
  "k < length xs \<Longrightarrow> map_range i n f xs ! k = (if i \<le> k \<and> k < n then f k (xs ! k) else xs ! k)"
  by (simp add: map_range_def)

lemma map_range_empty [simp]: "n \<le> i \<Longrightarrow> map_range i n f xs = xs"
  by (rule nth_equalityI) auto

lemma map_range_step: "i < n \<Longrightarrow> i < length xs \<Longrightarrow>
    map_range (Suc i) n f (xs[i := f i (xs ! i)]) = map_range i n f xs"
  by (rule nth_equalityI) (auto simp: nth_list_update)

lemma map_range_join: "i \<le> j \<Longrightarrow> j \<le> n \<Longrightarrow> map_range j n f (map_range i j f xs) = map_range i n f xs"
  by (rule nth_equalityI) auto

lemma nth_tail_range: "off \<le> length xs \<Longrightarrow> k < length xs \<Longrightarrow>
    (take off xs @ map_range 0 n f (drop off xs)) ! k = (if off \<le> k \<and> k < off + n then f (k - off) (xs ! k) else xs ! k)"
  by (simp add: nth_append min_def) linarith

lemma nth_overlay_copy: "i + n \<le> length xs \<Longrightarrow> length xs \<le> sz \<Longrightarrow> k < sz \<Longrightarrow>
    overlay (replicate sz v) i (take n (drop i xs)) ! k = (if i \<le> k \<and> k < i + n then xs ! k else v)"
  by (auto simp: nth_overlay)

lemma nth_overlay_shift: "j + n \<le> length xs \<Longrightarrow> n \<le> m \<Longrightarrow> m \<le> length xs \<Longrightarrow> k < length xs \<Longrightarrow>
    overlay (overlay xs 0 (take n (drop j xs))) n (replicate (m - n) v) ! k =
      (if k < n then xs ! (j + k) else if k < m then v else xs ! k)"
  by (auto simp: nth_overlay)

text \<open>Bit operations on natural numbers.\<close>

lemma and_mask_nat: "m AND (2 ^ k - 1) = m mod 2 ^ k" for m :: nat
  unfolding take_bit_eq_mod[symmetric] take_bit_eq_mask mask_eq_exp_minus_1 ..

lemma bit_nat_less: "bit a n \<Longrightarrow> a < 2 ^ k \<Longrightarrow> n < k" for a :: nat
proof (rule ccontr)
  assume "bit a n" "a < 2 ^ k" "\<not> n < k"
  then have "a < 2 ^ n" by (meson le_trans linorder_not_less one_le_numeral power_increasing nat_le_linear less_le_trans)
  with \<open>bit a n\<close> show False by (simp add: bit_iff_odd)
qed

lemma or_shift_nat: "a < 2 ^ k \<Longrightarrow> a OR push_bit k b = a + b * 2 ^ k" for a b :: nat
proof -
  assume a: "a < 2 ^ k"
  have "\<not> bit a n \<or> \<not> bit (push_bit k b) n" for n
    using bit_nat_less[OF _ a, of n] by (auto simp: bit_push_bit_iff)
  from disjunctive_add[OF this] show ?thesis by (simp add: push_bit_eq_mult)
qed

lemma and_exp_nat: "m AND 2 ^ k \<noteq> 0 \<longleftrightarrow> odd (m div 2 ^ k)" for m :: nat
  by (simp add: and_exp_eq_0_iff_not_bit bit_iff_odd)

lemma unat_sint: "0 \<le> sint w \<Longrightarrow> unat w = nat (sint w)" for w :: "'a::len word"
proof -
  assume "0 \<le> sint w"
  moreover have "sint w < 2 ^ LENGTH('a)"
    using sint_lt[of w] by (meson diff_le_self less_le_trans one_le_numeral power_increasing)
  ultimately show ?thesis by (simp add: unat_eq_nat_uint uint_sint take_bit_int_eq_self)
qed

end
