(* ===== verification/IntFormat.thy ===== *)
theory IntFormat
  imports Prelude
begin

text \<open>
  The wire integers of \<^verbatim>\<open>picoquic/intformat.c\<close>, the parsing macros of
  \<^verbatim>\<open>picoquic/picoquic_internal.h\<close> and the checksum of
  \<^verbatim>\<open>picoquic/fnv1a.c\<close>. Buffers are byte lists; a formatting function returns
  the buffer it wrote to, and the variable-length encoder the number of bytes as well.
\<close>

section \<open>Definitions\<close>

definition picoformat_16 :: "bytes \<Rightarrow> u16 \<Rightarrow> bytes" where
  "picoformat_16 bytes n16 = overlay bytes 0 [byte_at 1 n16, byte_at 0 n16]"

definition picoformat_32 :: "bytes \<Rightarrow> u32 \<Rightarrow> bytes" where
  "picoformat_32 bytes n32 =
     overlay bytes 0 [byte_at 3 n32, byte_at 2 n32, byte_at 1 n32, byte_at 0 n32]"

definition picoformat_64 :: "bytes \<Rightarrow> u64 \<Rightarrow> bytes" where
  "picoformat_64 bytes n64 =
     overlay bytes 0 [byte_at 7 n64, byte_at 6 n64, byte_at 5 n64, byte_at 4 n64,
                      byte_at 3 n64, byte_at 2 n64, byte_at 1 n64, byte_at 0 n64]"

text \<open>The bytes the variable-length encoder stores: none when the space does not suffice.\<close>

definition varint_bytes :: "nat \<Rightarrow> u64 \<Rightarrow> bytes" where
  "varint_bytes max_bytes n64 =
     (if n64 < 16384 then
        (if n64 < 64 then
           (if 0 < max_bytes then [byte_at 0 n64] else [])
         else
           (if 2 \<le> max_bytes then [byte_at 0 (drop_bit 8 n64 OR 0x40), byte_at 0 n64] else []))
      else if n64 < 1073741824 then
        (if 4 \<le> max_bytes then
           [byte_at 0 (drop_bit 24 n64 OR 0x80), byte_at 2 n64, byte_at 1 n64, byte_at 0 n64]
         else [])
      else
        (if 8 \<le> max_bytes then
           [byte_at 0 (drop_bit 56 n64 OR 0xC0), byte_at 6 n64, byte_at 5 n64, byte_at 4 n64,
            byte_at 3 n64, byte_at 2 n64, byte_at 1 n64, byte_at 0 n64]
         else []))"

definition picoquic_varint_encode :: "bytes \<Rightarrow> nat \<Rightarrow> u64 \<Rightarrow> bytes \<times> nat" where
  "picoquic_varint_encode bytes max_bytes n64 =
     (let x = varint_bytes max_bytes n64 in (overlay bytes 0 x, length x))"

definition picoquic_varint_encode_16 :: "bytes \<Rightarrow> u16 \<Rightarrow> bytes" where
  "picoquic_varint_encode_16 bytes n16 =
     overlay bytes 0 [byte_at 0 ((drop_bit 8 n16 OR 0x40) AND 0x7F), byte_at 0 n16]"

text \<open>The length announced by the two high bits of the first byte.\<close>

definition varint_prefix_len :: "u8 \<Rightarrow> nat" where
  "varint_prefix_len b = 2 ^ unat (drop_bit 6 (b AND 0xC0))"

text \<open>The accumulation loop of the decoder, over the bytes after the first.\<close>

fun varint_loop :: "u64 \<Rightarrow> bytes \<Rightarrow> u64" where
  "varint_loop v [] = v"
| "varint_loop v (b # bs) = varint_loop (push_bit 8 v + ucast b) bs"

text \<open>
  The decoder returns the length and the value. It reads the first byte whatever
  \<open>max_bytes\<close> is, so an empty input is a fault, as is a buffer shorter than announced.
\<close>

definition picoquic_varint_decode :: "bytes \<Rightarrow> nat \<Rightarrow> (nat \<times> u64) option" where
  "picoquic_varint_decode bytes max_bytes =
     (case bytes of
        [] \<Rightarrow> None
      | b # bs \<Rightarrow>
          let len = varint_prefix_len b in
          if max_bytes < len then Some (0, 0)
          else if length bs < len - 1 then None
          else Some (len, varint_loop (ucast (b AND 0x3F)) (take (len - 1) bs)))"

definition picoquic_varint_skip :: "bytes \<Rightarrow> nat option" where
  "picoquic_varint_skip bytes =
     (case bytes of [] \<Rightarrow> None | b # bs \<Rightarrow> Some (varint_prefix_len b))"

definition picoquic_varint_len :: "u64 \<Rightarrow> nat" where
  "picoquic_varint_len val =
     (if val \<le> 63 then 1
      else if val \<le> 16383 then 2
      else if val \<le> 1073741823 then 4
      else if val \<le> 4611686018427387903 then 8
      else 0)"

definition PICOPARSE_16 :: "bytes \<Rightarrow> u16" where
  "PICOPARSE_16 b = push_bit 8 (ucast (b ! 0)) OR ucast (b ! 1)"

definition PICOPARSE_24 :: "bytes \<Rightarrow> u32" where
  "PICOPARSE_24 b = push_bit 16 (ucast (PICOPARSE_16 b)) OR ucast (b ! 2)"

definition PICOPARSE_32 :: "bytes \<Rightarrow> u32" where
  "PICOPARSE_32 b = push_bit 16 (ucast (PICOPARSE_16 b)) OR ucast (PICOPARSE_16 (drop 2 b))"

definition PICOPARSE_64 :: "bytes \<Rightarrow> u64" where
  "PICOPARSE_64 b = push_bit 32 (ucast (PICOPARSE_32 b)) OR ucast (PICOPARSE_32 (drop 4 b))"

definition FNV1A_OFFSET :: u64 where "FNV1A_OFFSET = 0xcbf29ce484222325"
definition FNV1A_PRIME :: u64 where "FNV1A_PRIME = 0x100000001b3"

fun fnv1a_hash :: "u64 \<Rightarrow> bytes \<Rightarrow> u64" where
  "fnv1a_hash hash [] = hash"
| "fnv1a_hash hash (b # bs) = fnv1a_hash ((hash XOR ucast b) * FNV1A_PRIME) bs"

text \<open>The buffer after the call and the protected length, 0 when there is no room.\<close>

definition fnv1a_protect :: "bytes \<Rightarrow> nat \<Rightarrow> nat \<Rightarrow> bytes \<times> nat" where
  "fnv1a_protect bytes len length_max =
     (if len + 8 \<le> length_max then
        (let hash = fnv1a_hash FNV1A_OFFSET (take len bytes) in
         (take len bytes @ picoformat_64 (drop len bytes) hash, len + 8))
      else (bytes, 0))"

definition fnv1a_check :: "bytes \<Rightarrow> nat \<Rightarrow> nat" where
  "fnv1a_check bytes len =
     (if 8 < len then
        (let ret = len - 8;
             hash1 = fnv1a_hash FNV1A_OFFSET (take ret bytes);
             hash2 = PICOPARSE_64 (drop ret bytes)
         in if hash1 \<noteq> hash2 then 0 else ret)
      else 0)"

section \<open>Library\<close>

lemma byte_at_0: "byte_at 0 w = ucast w"
  by (simp add: byte_at_def)

lemma tag_value: "byte_at 0 (w OR 64) AND 63 = (byte_at 0 w AND 63 :: u8)"
  "byte_at 0 (w OR 128) AND 63 = (byte_at 0 w AND 63 :: u8)"
  "byte_at 0 (w OR 192) AND 63 = (byte_at 0 w AND 63 :: u8)" for w :: u64
  by (simp_all add: byte_at_0 unsigned_or_eq bit.conj_disj_distrib2)

lemma low6: "(b :: u8) AND 63 = of_nat (unat b mod 64)"
proof -
  have "b AND 63 = take_bit 6 b"
    by (simp add: take_bit_eq_mask mask_eq_exp_minus_1)
  then show ?thesis
    by (simp add: take_bit_eq_mod word_unat_eq_iff unat_mod_distrib unat_of_nat)
qed

lemma high2_small: "unat b < 64 \<Longrightarrow> (b :: u8) AND 192 = 0"
proof -
  assume "unat b < 64"
  then have "b AND 63 = b" by (simp add: low6)
  then have "b AND 192 = (b AND 63) AND 192" by (simp only:)
  also have "\<dots> = 0" by (simp add: and.assoc)
  finally show ?thesis .
qed

lemma varint_loop_of_nat: "varint_loop (of_nat k) bs = of_nat (be_val k bs)"
proof (induction bs arbitrary: k)
  case (Cons b bs)
  have "push_bit 8 (of_nat k) + ucast b = (of_nat (k * 256 + unat b) :: u64)"
    by (simp add: push_bit_eq_mult)
  then show ?case using Cons[of "k * 256 + unat b"] by (simp only: varint_loop.simps be_val.simps)
qed simp


lemma decode_digits:
  assumes k: "varint_prefix_len b = Suc j" and low: "b AND 63 = of_nat (N div 256 ^ j mod 64)"
    and avail: "Suc j \<le> avail"
  shows "picoquic_varint_decode (b # be_digits j N @ rest) avail =
         Some (Suc j, of_nat (N mod (64 * 256 ^ j)))"
proof -
  have "ucast (b AND 63) = (of_nat (unat (b AND 63)) :: u64)"
    by (rule ucast_of_unat)
  also have "unat (b AND 63) = N div 256 ^ j mod 64"
    by (simp add: low unat_of_nat)
  finally have "varint_loop (ucast (b AND 63)) (be_digits j N) =
      of_nat (be_val (N div 256 ^ j mod 64) (be_digits j N))"
    by (simp add: varint_loop_of_nat)
  also have "be_val (N div 256 ^ j mod 64) (be_digits j N) = N mod (64 * 256 ^ j)"
    using mod_mult2_eq[of N "256 ^ j" 64] by (simp add: be_val_digits mult.commute)
  finally show ?thesis
    using k avail by (simp add: picoquic_varint_decode_def)
qed

lemma unat_drop_byte [byte_simps]: "unat (byte_at i w) = unat w div 256 ^ i mod 256"
  by (simp add: byte_at_of_nat unat_of_nat)

lemma byte_at_drop: "byte_at 0 (drop_bit (8 * i) w) = byte_at i w"
  by (simp add: byte_at_def)

lemma prefix_lens:
  "unat b < 64 \<Longrightarrow> varint_prefix_len b = 1"
  "unat (byte_at 0 w) < 64 \<Longrightarrow> varint_prefix_len (byte_at 0 (w OR 64)) = 2"
  "unat (byte_at 0 w) < 64 \<Longrightarrow> varint_prefix_len (byte_at 0 (w OR 128)) = 4"
  "varint_prefix_len (byte_at 0 (w OR 192)) = 8" for w :: u64
proof -
  have abs: "(x AND 192) OR 192 = (192 :: u8)" for x
    by (simp add: or.commute)
  show "unat b < 64 \<Longrightarrow> varint_prefix_len b = 1"
    by (simp add: varint_prefix_len_def high2_small)
  show "unat (byte_at 0 w) < 64 \<Longrightarrow> varint_prefix_len (byte_at 0 (w OR 64)) = 2"
    by (simp add: varint_prefix_len_def high2_small byte_at_0 unsigned_or_eq bit.conj_disj_distrib2)
  show "unat (byte_at 0 w) < 64 \<Longrightarrow> varint_prefix_len (byte_at 0 (w OR 128)) = 4"
    by (simp add: varint_prefix_len_def high2_small byte_at_0 unsigned_or_eq bit.conj_disj_distrib2)
  show "varint_prefix_len (byte_at 0 (w OR 192)) = 8"
    by (simp add: varint_prefix_len_def byte_at_0 unsigned_or_eq bit.conj_disj_distrib2 abs)
qed

lemma decode_tagged:
  assumes bs: "varint_bytes max_bytes n = byte_at 0 (drop_bit (8 * j) n OR t) # be_digits j (unat n)"
    and len: "varint_prefix_len (byte_at 0 (drop_bit (8 * j) n OR t)) = Suc j"
    and tag: "\<And>w :: u64. byte_at 0 (w OR t) AND 63 = byte_at 0 w AND 63"
    and avail: "length (varint_bytes max_bytes n) \<le> avail"
    and small: "unat n mod (64 * 256 ^ j) = unat n mod 2 ^ 62"
  shows "picoquic_varint_decode (varint_bytes max_bytes n @ rest) avail =
         Some (length (varint_bytes max_bytes n), of_nat (unat n mod 2 ^ 62))"
proof -
  have "byte_at j n AND 63 = of_nat (unat n div 256 ^ j mod 64)"
    by (simp add: low6 unat_drop_byte mod_mod_cancel)
  then have "byte_at 0 (drop_bit (8 * j) n OR t) AND 63 = of_nat (unat n div 256 ^ j mod 64)"
    by (simp only: tag byte_at_drop)
  from decode_digits[OF len this, of avail rest] avail show ?thesis
    by (simp only: bs small append_Cons list.size length_be_digits add_Suc_right add_0_right)
qed

lemma be_digits_step: "be_digits (Suc j) (unat w) = byte_at j w # be_digits j (unat w)"
  by (simp add: byte_at_of_nat)

lemma be_digits_numeral:
  "be_digits (numeral k) (unat w) = byte_at (pred_numeral k) w # be_digits (pred_numeral k) (unat w)"
  by (simp only: numeral_eq_Suc be_digits_step)

lemma be_digits_bytes:
  "be_digits 0 (unat w) = []"
  "be_digits 1 (unat w) = [byte_at 0 w]"
  "be_digits 3 (unat w) = [byte_at 2 w, byte_at 1 w, byte_at 0 w]"
  "be_digits 7 (unat w) = [byte_at 6 w, byte_at 5 w, byte_at 4 w, byte_at 3 w,
     byte_at 2 w, byte_at 1 w, byte_at 0 w]"
  by (simp_all add: be_digits_numeral be_digits_step del: be_digits.simps(2))

lemma varint_bytes_cases:
  "8 \<le> max_bytes \<Longrightarrow> unat n < 64 \<Longrightarrow>
     varint_bytes max_bytes n = byte_at 0 (drop_bit (8 * 0) n OR 0) # be_digits 0 (unat n)"
  "8 \<le> max_bytes \<Longrightarrow> 64 \<le> unat n \<Longrightarrow> unat n < 16384 \<Longrightarrow>
     varint_bytes max_bytes n = byte_at 0 (drop_bit (8 * 1) n OR 64) # be_digits 1 (unat n)"
  "8 \<le> max_bytes \<Longrightarrow> 16384 \<le> unat n \<Longrightarrow> unat n < 1073741824 \<Longrightarrow>
     varint_bytes max_bytes n = byte_at 0 (drop_bit (8 * 3) n OR 128) # be_digits 3 (unat n)"
  "8 \<le> max_bytes \<Longrightarrow> 1073741824 \<le> unat n \<Longrightarrow>
     varint_bytes max_bytes n = byte_at 0 (drop_bit (8 * 7) n OR 192) # be_digits 7 (unat n)"
  unfolding be_digits_bytes by (simp_all add: varint_bytes_def word_less_nat_alt)

lemma decode_varint_bytes:
  assumes m: "8 \<le> max_bytes" and avail: "length (varint_bytes max_bytes n) \<le> avail"
  shows "picoquic_varint_decode (varint_bytes max_bytes n @ rest) avail =
         Some (length (varint_bytes max_bytes n), of_nat (unat n mod 2 ^ 62))"
proof -
  let ?N = "unat n"
  consider "?N < 64" | "64 \<le> ?N" "?N < 16384" | "16384 \<le> ?N" "?N < 1073741824"
    | "1073741824 \<le> ?N" by linarith
  then show ?thesis
  proof cases
    case 1
    then have "varint_prefix_len (byte_at 0 (drop_bit (8 * 0) n OR 0)) = Suc 0"
      by (simp add: prefix_lens unat_drop_byte)
    from decode_tagged[OF varint_bytes_cases(1)[OF m 1] this _ avail] 1 show ?thesis
      by simp
  next
    case 2
    then have "unat (byte_at 0 (drop_bit (8 * 1) n)) < 64"
      by (simp only: byte_at_drop unat_drop_byte) simp
    from prefix_lens(2)[OF this] have "varint_prefix_len (byte_at 0 (drop_bit (8 * 1) n OR 64)) = Suc 1"
      by simp
    from decode_tagged[OF varint_bytes_cases(2)[OF m 2] this tag_value(1) avail] 2 show ?thesis
      by simp
  next
    case 3
    then have "unat (byte_at 0 (drop_bit (8 * 3) n)) < 64"
      by (simp only: byte_at_drop unat_drop_byte) simp
    from prefix_lens(3)[OF this] have "varint_prefix_len (byte_at 0 (drop_bit (8 * 3) n OR 128)) = Suc 3"
      by simp
    from decode_tagged[OF varint_bytes_cases(3)[OF m 3] this tag_value(2) avail] 3 show ?thesis
      by simp
  next
    case 4
    have "varint_prefix_len (byte_at 0 (drop_bit (8 * 7) n OR 192)) = Suc 7"
      by (simp only: prefix_lens)
    from decode_tagged[OF varint_bytes_cases(4)[OF m 4] this tag_value(3) avail] show ?thesis
      by simp
  qed
qed

lemma or_ucast_plus:
  "LENGTH('b) \<le> k \<Longrightarrow> push_bit k (a :: 'a::len word) OR ucast (b :: 'b::len word) = push_bit k a + ucast b"
  by (subst disjunctive_add) (auto simp: bit_simps dest: bit_imp_le_length)

lemma unat_concat:
  fixes a :: "'b::len word" and b :: "'c::len word"
  assumes "LENGTH('c) = k" and "LENGTH('b) + k \<le> LENGTH('a)"
  shows "unat (push_bit k (ucast a :: 'a::len word) OR ucast b) = unat a * 2 ^ k + unat b"
proof -
  have "push_bit k (ucast a :: 'a word) OR ucast b = push_bit k (ucast a) + ucast b"
    using assms by (simp add: or_ucast_plus)
  also have "\<dots> = of_nat (unat a * 2 ^ k + unat b)"
    by (simp add: push_bit_eq_mult)
  finally have eq: "push_bit k (ucast a :: 'a word) OR ucast b = of_nat (unat a * 2 ^ k + unat b)" .
  have "unat a + 1 \<le> 2 ^ LENGTH('b)"
    using unsigned_less[of a, where ?'a=nat] by (simp add: Suc_le_eq del: unsigned_less)
  moreover have b: "unat b < 2 ^ k"
    using unsigned_less[of b, where ?'a=nat] assms by simp
  ultimately have "(unat a + 1) * 2 ^ k \<le> 2 ^ LENGTH('b) * 2 ^ k"
    by (intro mult_le_mono1)
  also have "\<dots> \<le> 2 ^ LENGTH('a)"
    using assms by (simp flip: power_add)
  finally have "unat a * 2 ^ k + unat b < 2 ^ LENGTH('a)"
    using b by simp
  then show ?thesis by (simp only: eq unat_of_nat mod_less)
qed

lemma be_val_split: "be_val 0 (take (m + n) b) = be_val 0 (take m b) * 256 ^ length (take n (drop m b))
    + be_val 0 (take n (drop m b))"
  by (simp only: take_add be_val_append be_val_acc[of "be_val 0 (take m b)"])

lemma PICOPARSE_16_val: "2 \<le> length b \<Longrightarrow> unat (PICOPARSE_16 b) = be_val 0 (take 2 b)"
proof -
  assume "2 \<le> length b"
  then obtain x y r where b: "b = x # y # r"
    by (cases b; cases "tl b") auto
  have "unat (PICOPARSE_16 b) = unat (b ! 0) * 2 ^ 8 + unat (b ! 1)"
    unfolding PICOPARSE_16_def by (rule unat_concat) simp_all
  then show ?thesis
    using b by simp
qed

lemma PICOPARSE_32_val: "4 \<le> length b \<Longrightarrow> unat (PICOPARSE_32 b) = be_val 0 (take 4 b)"
proof -
  assume len: "4 \<le> length b"
  have "unat (PICOPARSE_32 b) = unat (PICOPARSE_16 b) * 2 ^ 16 + unat (PICOPARSE_16 (drop 2 b))"
    unfolding PICOPARSE_32_def by (rule unat_concat) simp_all
  with len be_val_split[of 2 2 b] show ?thesis
    by (simp add: PICOPARSE_16_val)
qed

lemma PICOPARSE_64_val: "8 \<le> length b \<Longrightarrow> unat (PICOPARSE_64 b) = be_val 0 (take 8 b)"
proof -
  assume len: "8 \<le> length b"
  have "unat (PICOPARSE_64 b) = unat (PICOPARSE_32 b) * 2 ^ 32 + unat (PICOPARSE_32 (drop 4 b))"
    unfolding PICOPARSE_64_def by (rule unat_concat) simp_all
  with len be_val_split[of 4 4 b] show ?thesis
    by (simp add: PICOPARSE_32_val)
qed

lemma picoformat_64_digits: "picoformat_64 buf n = overlay buf 0 (be_digits 8 (unat n))"
  by (simp add: picoformat_64_def be_digits_numeral be_digits_step del: be_digits.simps(2))

lemma PICOPARSE_64_format:
  "8 \<le> length buf \<Longrightarrow> PICOPARSE_64 (picoformat_64 buf n) = n"
proof -
  assume len: "8 \<le> length buf"
  have "unat n < 2 ^ 64"
    using unsigned_less[of n, where ?'a=nat] by simp
  moreover have "take 8 (picoformat_64 buf n) = be_digits 8 (unat n)"
    using overlay_read[of 0 buf "be_digits 8 (unat n)"] by (simp add: picoformat_64_digits)
  ultimately have "unat (PICOPARSE_64 (picoformat_64 buf n)) = unat n"
    using len by (simp add: PICOPARSE_64_val picoformat_64_digits be_val_digits)
  then show ?thesis by (simp only: word_unat_eq_iff)
qed

lemma varint_value_mask: "of_nat (unat n mod 2 ^ 62) = take_bit 62 (n :: u64)"
  by (simp add: word_unat_eq_iff unat_of_nat take_bit_eq_mod unat_mod_distrib)

lemma length_varint_bytes:
  "8 \<le> max_bytes \<Longrightarrow> length (varint_bytes max_bytes n) =
   (if unat n < 64 then 1 else if unat n < 16384 then 2 else if unat n < 1073741824 then 4 else 8)"
  by (simp add: varint_bytes_def word_less_nat_alt)

lemma length_varint_bytes_le: "length (varint_bytes max_bytes n) \<le> max_bytes"
  by (simp add: varint_bytes_def)

section \<open>Properties\<close>

text \<open>
  C29. Round trip of the variable-length integers: with room for eight bytes, decoding the buffer
  the encoder wrote returns the number of bytes it reported and the value modulo \<open>2 ^ 62\<close>
  (the encoding has 62 usable bits), hence the value itself below \<open>2 ^ 62\<close>; the rest of the
  buffer is untouched.
\<close>

theorem varint_roundtrip:
  assumes "8 \<le> max_bytes" and "max_bytes \<le> length buf"
  shows "picoquic_varint_decode (fst (picoquic_varint_encode buf max_bytes n)) max_bytes =
           Some (snd (picoquic_varint_encode buf max_bytes n), take_bit 62 n)
       \<and> drop (snd (picoquic_varint_encode buf max_bytes n)) (fst (picoquic_varint_encode buf max_bytes n)) =
           drop (snd (picoquic_varint_encode buf max_bytes n)) buf"
  using assms decode_varint_bytes[OF assms(1) length_varint_bytes_le, of n] 
    length_varint_bytes_le[of max_bytes n] overlay_after[of 0 "varint_bytes max_bytes n" buf]
  by (simp add: picoquic_varint_encode_def Let_def overlay_def varint_value_mask[simplified])

theorem varint_roundtrip_witness:
  "picoquic_varint_decode (fst (picoquic_varint_encode (replicate 9 0) 8 16384)) 8 = Some (4, 16384)"
proof -
  have "(8::nat) \<le> 8" and "8 \<le> length (replicate 9 (0::u8))" by simp_all
  from varint_roundtrip[OF this, of 16384] show ?thesis
    by (simp add: picoquic_varint_encode_def varint_bytes_def Let_def)
qed

text \<open>
  C30. The three length functions agree: on every value that fits in 62 bits the encoder writes
  exactly \<open>picoquic_varint_len\<close> bytes and the first byte announces that number to
  \<open>picoquic_varint_skip\<close>.
\<close>

theorem varint_len_agrees:
  assumes "8 \<le> max_bytes" and "max_bytes \<le> length buf" and "unat n < 2 ^ 62"
  shows "snd (picoquic_varint_encode buf max_bytes n) = picoquic_varint_len n
       \<and> picoquic_varint_skip (fst (picoquic_varint_encode buf max_bytes n)) =
           Some (picoquic_varint_len n)"
proof -
  have len: "length (varint_bytes max_bytes n) = picoquic_varint_len n"
    using assms by (simp add: length_varint_bytes picoquic_varint_len_def word_le_nat_alt)
  obtain b bs where eq: "varint_bytes max_bytes n = b # bs"
    using length_varint_bytes[OF assms(1), of n]
    by (cases "varint_bytes max_bytes n") (auto split: if_splits)
  have "varint_prefix_len b = length (varint_bytes max_bytes n)"
    using decode_varint_bytes[OF assms(1) length_varint_bytes_le, of n "[]"]
    by (simp add: eq picoquic_varint_decode_def Let_def split: if_splits)
  then show ?thesis
    using len eq by (simp add: picoquic_varint_encode_def picoquic_varint_skip_def overlay_def Let_def)
qed

theorem varint_len_agrees_witness:
  "snd (picoquic_varint_encode (replicate 8 0) 8 300) = picoquic_varint_len 300"
proof -
  have "(8::nat) \<le> 8" and "8 \<le> length (replicate 8 (0::u8))" and "unat (300::u64) < 2 ^ 62"
    by simp_all
  from varint_len_agrees[OF this] show ?thesis by simp
qed

text \<open>
  A message protected by \<open>fnv1a_protect\<close> passes \<open>fnv1a_check\<close>, which returns the
  length of the message without its checksum. A message of length zero is the exception the
  code makes: the check refuses anything of at most eight bytes.
\<close>

theorem fnv1a_check_protect:
  assumes "0 < len" and "len + 8 \<le> length_max" and "length_max \<le> length buf"
  shows "snd (fnv1a_protect buf len length_max) = len + 8
       \<and> fnv1a_check (fst (fnv1a_protect buf len length_max)) (len + 8) = len
       \<and> take len (fst (fnv1a_protect buf len length_max)) = take len buf"
  using assms
  by (simp add: fnv1a_protect_def fnv1a_check_def Let_def PICOPARSE_64_format)

theorem fnv1a_check_protect_witness:
  "fnv1a_check (fst (fnv1a_protect (replicate 12 7) 4 12)) (4 + 8) = 4"
proof -
  have "(0::nat) < 4" and "(4::nat) + 8 \<le> 12" and "12 \<le> length (replicate 12 (7::u8))" by simp_all
  from fnv1a_check_protect[OF this] show ?thesis by simp
qed

text \<open>
  The macro \<open>PICOPARSE_24\<close> shifts the two leading bytes by 16 instead of 8, so it does not read
  a 24-bit big-endian integer: \<open>00 01 00\<close> is read as 65536.
\<close>

lemma PICOPARSE_24_wrong:
  "PICOPARSE_24 [0, 1, 0] = 65536" and "be_val 0 [0, 1, 0] = 256"
  by (simp_all add: PICOPARSE_24_def PICOPARSE_16_def push_bit_eq_mult)

end
