(* ===== verification/RedBlackTree.thy ===== *)
theory RedBlackTree
  imports Prelude
begin

text \<open>
  The left-leaning red-black tree of \<^verbatim>\<open>picoquic/red_black_tree.c\<close>, the ordered symbol table
  plugins use (the receive buffers of the FEC plugin among them).

  A node is a value of the datatype \<open>rbt_node\<close> that carries the address of its struct, so that
  the test \<open>IS_IN_PLUGIN_MEMORY\<close> every function makes before it follows a pointer is part of
  the model; a node that fails the test makes the function return \<open>NULL\<close>, 0 or false, as in
  the code. Following a null pointer is the fault \<open>None\<close>. A function that
  changes nodes in place returns the changed node. Updating \<open>tree->root\<close> is updating
  the record \<open>red_black_tree\<close>, and a pointer to a tree is an optional record.
\<close>

section \<open>Data\<close>

type_synonym rbt_key = u64
type_synonym rbt_val = u64

abbreviation RED :: bool where "RED \<equiv> True"
abbreviation BLACK :: bool where "BLACK \<equiv> False"

datatype rbt_node =
    NULL
  | Node (addr: nat) (key: rbt_key) (val: rbt_val) (left: rbt_node) (right: rbt_node)
      (color: bool) (nsize: u32)

record red_black_tree =
  tree_addr :: nat
  root :: rbt_node

definition PLUGIN_MEMORY :: nat where "PLUGIN_MEMORY = 16 * 1024 * 1024"

text \<open>\<open>m\<close> is the address of the plugin's memory, \<open>&plugin->memory[0]\<close>.\<close>

definition in_plugin_memory :: "nat \<Rightarrow> nat \<Rightarrow> bool" where
  "in_plugin_memory m p \<longleftrightarrow> m < p \<and> p < m + PLUGIN_MEMORY"

fun IS_IN_PLUGIN_MEMORY :: "nat \<Rightarrow> rbt_node \<Rightarrow> bool" where
  "IS_IN_PLUGIN_MEMORY m NULL = True"
| "IS_IN_PLUGIN_MEMORY m (Node a k v l r c s) = in_plugin_memory m a"

text \<open>Field accesses through a pointer; the null pointer faults.\<close>

fun get_left :: "rbt_node \<Rightarrow> rbt_node option" where
  "get_left NULL = None"
| "get_left (Node a k v l r c s) = Some l"

fun get_right :: "rbt_node \<Rightarrow> rbt_node option" where
  "get_right NULL = None"
| "get_right (Node a k v l r c s) = Some r"

fun get_key :: "rbt_node \<Rightarrow> rbt_key option" where
  "get_key NULL = None"
| "get_key (Node a k v l r c s) = Some k"

fun get_val :: "rbt_node \<Rightarrow> rbt_val option" where
  "get_val NULL = None"
| "get_val (Node a k v l r c s) = Some v"

fun set_left :: "rbt_node \<Rightarrow> rbt_node \<Rightarrow> rbt_node option" where
  "set_left NULL x = None"
| "set_left (Node a k v l r c s) x = Some (Node a k v x r c s)"

fun set_right :: "rbt_node \<Rightarrow> rbt_node \<Rightarrow> rbt_node option" where
  "set_right NULL x = None"
| "set_right (Node a k v l r c s) x = Some (Node a k v l x c s)"

fun set_color :: "rbt_node \<Rightarrow> bool \<Rightarrow> rbt_node option" where
  "set_color NULL x = None"
| "set_color (Node a k v l r c s) x = Some (Node a k v l r x s)"

fun set_size :: "rbt_node \<Rightarrow> u32 \<Rightarrow> rbt_node option" where
  "set_size NULL x = None"
| "set_size (Node a k v l r c s) x = Some (Node a k v l r c x)"

fun set_key_val :: "rbt_node \<Rightarrow> rbt_key \<Rightarrow> rbt_val \<Rightarrow> rbt_node option" where
  "set_key_val NULL k' v' = None"
| "set_key_val (Node a k v l r c s) k' v' = Some (Node a k' v' l r c s)"

section \<open>Operations\<close>

definition rbt_init :: "red_black_tree \<Rightarrow> red_black_tree" where
  "rbt_init tree = tree\<lparr>root := NULL\<rparr>"

text \<open>\<open>alloc\<close> is what \<open>my_malloc\<close> returns for the node.\<close>

definition rbt_new_node :: "nat option \<Rightarrow> rbt_key \<Rightarrow> rbt_val \<Rightarrow> bool \<Rightarrow> u32 \<Rightarrow> rbt_node" where
  "rbt_new_node alloc k v c s =
     (case alloc of None \<Rightarrow> NULL | Some a \<Rightarrow> Node a k v NULL NULL c s)"

definition is_red :: "nat \<Rightarrow> rbt_node \<Rightarrow> bool" where
  "is_red m x =
     (if \<not> IS_IN_PLUGIN_MEMORY m x then False
      else case x of NULL \<Rightarrow> False | Node a k v l r c s \<Rightarrow> c = RED)"

definition rbt_node_size :: "nat \<Rightarrow> rbt_node \<Rightarrow> u32" where
  "rbt_node_size m x =
     (if \<not> IS_IN_PLUGIN_MEMORY m x then 0
      else case x of NULL \<Rightarrow> 0 | Node a k v l r c s \<Rightarrow> s)"

definition rbt_size :: "nat \<Rightarrow> red_black_tree option \<Rightarrow> u32" where
  "rbt_size m tree =
     (case tree of
        None \<Rightarrow> 0
      | Some t \<Rightarrow> if \<not> in_plugin_memory m (tree_addr t) then 0 else rbt_node_size m (root t))"

definition rbt_is_empty :: "nat \<Rightarrow> red_black_tree option \<Rightarrow> bool" where
  "rbt_is_empty m tree =
     (case tree of
        None \<Rightarrow> True
      | Some t \<Rightarrow> if \<not> in_plugin_memory m (tree_addr t) then True else root t = NULL)"

definition key_compare :: "rbt_key \<Rightarrow> rbt_key \<Rightarrow> int" where
  "key_compare a b = (if a < b then -1 else if a > b then 1 else 0)"

text \<open>\<open>Some v\<close> is the return value true with \<open>v\<close> stored in the output, \<open>None\<close> is false.\<close>

fun rbt_get_loop :: "nat \<Rightarrow> rbt_node \<Rightarrow> rbt_key \<Rightarrow> rbt_val option" where
  "rbt_get_loop m NULL x = None"
| "rbt_get_loop m (Node a k v l r c s) x =
     (if \<not> IS_IN_PLUGIN_MEMORY m (Node a k v l r c s) then None
      else let cmp = key_compare x k in
        if cmp < 0 then rbt_get_loop m l x
        else if cmp > 0 then rbt_get_loop m r x
        else Some v)"

definition rbt_get :: "nat \<Rightarrow> red_black_tree \<Rightarrow> rbt_key \<Rightarrow> rbt_val option" where
  "rbt_get m tree x = rbt_get_loop m (root tree) x"

text \<open>A null tree has size 0, so the pointer is followed only when it is not null.\<close>

definition rbt_contains :: "nat \<Rightarrow> red_black_tree option \<Rightarrow> rbt_key \<Rightarrow> bool" where
  "rbt_contains m tree x =
     (if rbt_size m tree = 0 then False
      else case tree of None \<Rightarrow> False | Some t \<Rightarrow> rbt_get m t x \<noteq> None)"

definition rbt_rotate_right :: "nat \<Rightarrow> rbt_node \<Rightarrow> rbt_node option" where
  "rbt_rotate_right m h =
     (if \<not> IS_IN_PLUGIN_MEMORY m h then Some NULL
      else case h of NULL \<Rightarrow> None
      | Node a k v x r c s \<Rightarrow>
        (if \<not> IS_IN_PLUGIN_MEMORY m x then Some NULL
         else case x of NULL \<Rightarrow> None
         | Node xa xk xv xl xr xc xs \<Rightarrow>
           (if \<not> IS_IN_PLUGIN_MEMORY m xr then Some NULL
            else Some (Node xa xk xv xl
                  (Node a k v xr r RED (rbt_node_size m xr + rbt_node_size m r + 1)) c s))))"

definition rbt_rotate_left :: "nat \<Rightarrow> rbt_node \<Rightarrow> rbt_node option" where
  "rbt_rotate_left m h =
     (if \<not> IS_IN_PLUGIN_MEMORY m h then Some NULL
      else case h of NULL \<Rightarrow> None
      | Node a k v l x c s \<Rightarrow>
        (if \<not> IS_IN_PLUGIN_MEMORY m x then Some NULL
         else case x of NULL \<Rightarrow> None
         | Node xa xk xv xl xr xc xs \<Rightarrow>
           (if \<not> IS_IN_PLUGIN_MEMORY m xl then Some NULL
            else Some (Node xa xk xv
                  (Node a k v l xl RED (rbt_node_size m l + rbt_node_size m xl + 1)) xr c s))))"

text \<open>The return code of the code (0, or -1 when a test fails) is ignored by every caller.\<close>

definition rbt_flip_colors :: "nat \<Rightarrow> rbt_node \<Rightarrow> rbt_node option" where
  "rbt_flip_colors m h =
     (if \<not> IS_IN_PLUGIN_MEMORY m h then Some h
      else case h of NULL \<Rightarrow> None
      | Node a k v l r c s \<Rightarrow>
        (if \<not> IS_IN_PLUGIN_MEMORY m l then Some h
         else if \<not> IS_IN_PLUGIN_MEMORY m r then Some h
         else do {
           l \<leftarrow> (case l of NULL \<Rightarrow> None | Node _ _ _ _ _ lc _ \<Rightarrow> set_color l (\<not> lc));
           r \<leftarrow> (case r of NULL \<Rightarrow> None | Node _ _ _ _ _ rc _ \<Rightarrow> set_color r (\<not> rc));
           Some (Node a k v l r (\<not> c) s) }))"

definition rbt_move_red_left :: "nat \<Rightarrow> rbt_node \<Rightarrow> rbt_node option" where
  "rbt_move_red_left m h =
     (if \<not> IS_IN_PLUGIN_MEMORY m h then Some NULL
      else do {
        r \<leftarrow> get_right h;
        if \<not> IS_IN_PLUGIN_MEMORY m r then Some NULL
        else do {
          h \<leftarrow> rbt_flip_colors m h;
          r \<leftarrow> get_right h;
          rl \<leftarrow> get_left r;
          if is_red m rl then do {
            r' \<leftarrow> rbt_rotate_right m r;
            h \<leftarrow> set_right h r';
            h \<leftarrow> rbt_rotate_left m h;
            rbt_flip_colors m h
          } else Some h
        } })"

definition rbt_move_red_right :: "nat \<Rightarrow> rbt_node \<Rightarrow> rbt_node option" where
  "rbt_move_red_right m h =
     (if \<not> IS_IN_PLUGIN_MEMORY m h then Some NULL
      else do {
        l \<leftarrow> get_left h;
        if \<not> IS_IN_PLUGIN_MEMORY m l then Some NULL
        else do {
          h \<leftarrow> rbt_flip_colors m h;
          l \<leftarrow> get_left h;
          ll \<leftarrow> get_left l;
          if is_red m ll then do {
            h \<leftarrow> rbt_rotate_right m h;
            rbt_flip_colors m h
          } else Some h
        } })"

definition rbt_balance :: "nat \<Rightarrow> rbt_node \<Rightarrow> rbt_node option" where
  "rbt_balance m h =
     (if \<not> IS_IN_PLUGIN_MEMORY m h then Some NULL
      else do {
        l \<leftarrow> get_left h;
        if \<not> IS_IN_PLUGIN_MEMORY m l then Some NULL
        else do {
          r \<leftarrow> get_right h;
          h \<leftarrow> (if is_red m r then rbt_rotate_left m h else Some h);
          l \<leftarrow> get_left h;
          h \<leftarrow> (if is_red m l then do {
                  ll \<leftarrow> get_left l;
                  if is_red m ll then rbt_rotate_right m h else Some h }
                else Some h);
          l \<leftarrow> get_left h;
          r \<leftarrow> get_right h;
          h \<leftarrow> (if is_red m l \<and> is_red m r then rbt_flip_colors m h else Some h);
          l \<leftarrow> get_left h;
          r \<leftarrow> get_right h;
          set_size h (rbt_node_size m l + rbt_node_size m r + 1)
        } })"

fun rbt_node_put :: "nat \<Rightarrow> nat option \<Rightarrow> rbt_node \<Rightarrow> rbt_key \<Rightarrow> rbt_val \<Rightarrow> rbt_node option" where
  "rbt_node_put m alloc NULL x y = Some (rbt_new_node alloc x y RED 1)"
| "rbt_node_put m alloc (Node a k v l r c s) x y =
     (if \<not> IS_IN_PLUGIN_MEMORY m (Node a k v l r c s) then Some NULL
      else if \<not> IS_IN_PLUGIN_MEMORY m l then Some NULL
      else do {
        let cmp = key_compare x k;
        node \<leftarrow>
          (if cmp < 0 then do {
             l' \<leftarrow> rbt_node_put m alloc l x y;
             Some (Node a k v l' r c s) }
           else if cmp > 0 then do {
             r' \<leftarrow> rbt_node_put m alloc r x y;
             Some (Node a k v l r' c s) }
           else Some (Node a k y l r c s));
        l \<leftarrow> get_left node;
        r \<leftarrow> get_right node;
        node \<leftarrow> (if is_red m r \<and> \<not> is_red m l then rbt_rotate_left m node else Some node);
        l \<leftarrow> get_left node;
        node \<leftarrow> (if is_red m l then do {
                   ll \<leftarrow> get_left l;
                   if is_red m ll then rbt_rotate_right m node else Some node }
                 else Some node);
        l \<leftarrow> get_left node;
        r \<leftarrow> get_right node;
        node \<leftarrow> (if is_red m l \<and> is_red m r then rbt_flip_colors m node else Some node);
        l \<leftarrow> get_left node;
        r \<leftarrow> get_right node;
        set_size node (rbt_node_size m l + rbt_node_size m r + 1)
      })"

definition rbt_put ::
  "nat \<Rightarrow> nat option \<Rightarrow> red_black_tree option \<Rightarrow> rbt_key \<Rightarrow> rbt_val \<Rightarrow> red_black_tree option option" where
  "rbt_put m alloc tree x y =
     (case tree of
        None \<Rightarrow> Some None
      | Some t \<Rightarrow>
          if \<not> in_plugin_memory m (tree_addr t) then Some (Some t)
          else do {
            n \<leftarrow> rbt_node_put m alloc (root t) x y;
            n \<leftarrow> set_color n BLACK;
            Some (Some (t\<lparr>root := n\<rparr>)) })"

fun rbt_node_min :: "nat \<Rightarrow> rbt_node \<Rightarrow> rbt_node" where
  "rbt_node_min m NULL = NULL"
| "rbt_node_min m (Node a k v l r c s) =
     (if \<not> IS_IN_PLUGIN_MEMORY m (Node a k v l r c s) then NULL
      else if l = NULL then Node a k v l r c s
      else rbt_node_min m l)"

text \<open>
  \<open>Some None\<close> is the return value false; \<open>Some (Some (k, v))\<close> is true with the two outputs
  written.
\<close>

definition rbt_min :: "nat \<Rightarrow> red_black_tree option \<Rightarrow> (rbt_key \<times> rbt_val) option option" where
  "rbt_min m tree =
     (case tree of
        None \<Rightarrow> Some None
      | Some t \<Rightarrow>
          if \<not> in_plugin_memory m (tree_addr t) then Some None
          else if rbt_is_empty m tree then Some None
          else do {
            let min_node = rbt_node_min m (root t);
            k \<leftarrow> get_key min_node;
            v \<leftarrow> get_val min_node;
            Some (Some (k, v)) })"

definition rbt_min_key :: "nat \<Rightarrow> red_black_tree option \<Rightarrow> rbt_key option" where
  "rbt_min_key m tree =
     (case tree of
        None \<Rightarrow> Some 0
      | Some t \<Rightarrow>
          if \<not> in_plugin_memory m (tree_addr t) then Some 0
          else get_key (rbt_node_min m (root t)))"

definition rbt_min_val :: "nat \<Rightarrow> red_black_tree option \<Rightarrow> rbt_val option" where
  "rbt_min_val m tree =
     (case tree of
        None \<Rightarrow> Some 0
      | Some t \<Rightarrow>
          if \<not> in_plugin_memory m (tree_addr t) then Some 0
          else get_val (rbt_node_min m (root t)))"

fun rbt_node_max :: "nat \<Rightarrow> rbt_node \<Rightarrow> rbt_node" where
  "rbt_node_max m NULL = NULL"
| "rbt_node_max m (Node a k v l r c s) =
     (if \<not> IS_IN_PLUGIN_MEMORY m (Node a k v l r c s) then NULL
      else if r = NULL then Node a k v l r c s
      else rbt_node_max m r)"

definition rbt_max_key :: "nat \<Rightarrow> red_black_tree option \<Rightarrow> rbt_key option" where
  "rbt_max_key m tree =
     (case tree of
        None \<Rightarrow> Some 0
      | Some t \<Rightarrow>
          if \<not> in_plugin_memory m (tree_addr t) then Some 0
          else get_key (rbt_node_max m (root t)))"

definition rbt_max_val :: "nat \<Rightarrow> red_black_tree option \<Rightarrow> rbt_val option" where
  "rbt_max_val m tree =
     (case tree of
        None \<Rightarrow> Some 0
      | Some t \<Rightarrow>
          if \<not> in_plugin_memory m (tree_addr t) then Some 0
          else get_val (rbt_node_max m (root t)))"

text \<open>The number of nodes, the measure of the recursive deletions.\<close>

fun nodes :: "rbt_node \<Rightarrow> nat" where
  "nodes NULL = 0"
| "nodes (Node a k v l r c s) = Suc (nodes l + nodes r)"

lemma nodes_set_color: "set_color h x = Some h' \<Longrightarrow> nodes h' = nodes h"
  by (cases h) auto

lemma nodes_flip_colors: "rbt_flip_colors m h = Some h' \<Longrightarrow> nodes h' = nodes h"
  by (auto simp: rbt_flip_colors_def bind_eq_Some_conv nodes_set_color
      split: if_splits rbt_node.splits)

lemma nodes_rotate_right: "rbt_rotate_right m h = Some h' \<Longrightarrow> nodes h' \<le> nodes h"
  by (auto simp: rbt_rotate_right_def split: if_splits rbt_node.splits)

lemma nodes_rotate_left: "rbt_rotate_left m h = Some h' \<Longrightarrow> nodes h' \<le> nodes h"
  by (auto simp: rbt_rotate_left_def split: if_splits rbt_node.splits)

lemma nodes_get:
  "get_left h = Some l \<Longrightarrow> nodes l < nodes h"
  "get_right h = Some r \<Longrightarrow> nodes r < nodes h"
  by (cases h; simp)+

lemma nodes_move_red_right: "rbt_move_red_right m h = Some h' \<Longrightarrow> nodes h' \<le> nodes h"
  by (auto simp: rbt_move_red_right_def bind_eq_Some_conv split: if_splits
      dest!: nodes_flip_colors nodes_rotate_right)

lemma nodes_set_right:
  "get_right h = Some r \<Longrightarrow> nodes r' \<le> nodes r \<Longrightarrow> set_right h r' = Some h' \<Longrightarrow> nodes h' \<le> nodes h"
  by (cases h) auto

lemma nodes_move_red_left: "rbt_move_red_left m h = Some h' \<Longrightarrow> nodes h' \<le> nodes h"
  by (auto simp: rbt_move_red_left_def bind_eq_Some_conv split: if_splits
      dest!: nodes_flip_colors nodes_rotate_right nodes_rotate_left dest: nodes_set_right)

text \<open>
  The result is the new subtree and what was stored through the output pointers \<open>res\<close> and
  \<open>val\<close>, if anything.
\<close>

function rbt_node_delete_and_get_min ::
  "nat \<Rightarrow> rbt_node \<Rightarrow> (rbt_node \<times> (rbt_key \<times> rbt_val) option) option" where
  "rbt_node_delete_and_get_min m node =
     (if node = NULL then Some (NULL, None)
      else if \<not> IS_IN_PLUGIN_MEMORY m node then Some (NULL, None)
      else do {
        l \<leftarrow> get_left node;
        if l = NULL then do {
          k \<leftarrow> get_key node;
          v \<leftarrow> get_val node;
          Some (NULL, Some (k, v)) }
        else do {
          ll \<leftarrow> get_left l;
          if \<not> IS_IN_PLUGIN_MEMORY m ll then Some (NULL, None)
          else do {
            node' \<leftarrow> (if \<not> is_red m l \<and> \<not> is_red m ll then rbt_move_red_left m node else Some node);
            l \<leftarrow> get_left node';
            (l', out) \<leftarrow> rbt_node_delete_and_get_min m l;
            node' \<leftarrow> set_left node' l';
            node' \<leftarrow> rbt_balance m node';
            Some (node', out) } } })"
  by pat_completeness auto
termination
  by (relation "measure (\<lambda>(m, node). nodes node)")
    (auto split: if_splits dest!: nodes_move_red_left nodes_get(1))

definition rbt_delete_and_get_min ::
  "nat \<Rightarrow> red_black_tree option \<Rightarrow>
   (red_black_tree option \<times> bool \<times> (rbt_key \<times> rbt_val) option) option" where
  "rbt_delete_and_get_min m tree =
     (case tree of
        None \<Rightarrow> Some (None, False, None)
      | Some t \<Rightarrow>
          if \<not> in_plugin_memory m (tree_addr t) then Some (tree, False, None)
          else if \<not> IS_IN_PLUGIN_MEMORY m (root t) then Some (tree, False, None)
          else if rbt_is_empty m tree then Some (tree, False, None)
          else do {
            l \<leftarrow> get_left (root t);
            r \<leftarrow> get_right (root t);
            n \<leftarrow> (if \<not> is_red m l \<and> \<not> is_red m r then set_color (root t) RED else Some (root t));
            (n, out) \<leftarrow> rbt_node_delete_and_get_min m n;
            n \<leftarrow> (if \<not> rbt_is_empty m (Some (t\<lparr>root := n\<rparr>)) then set_color n BLACK else Some n);
            Some (Some (t\<lparr>root := n\<rparr>), True, out) })"

definition rbt_delete_min ::
  "nat \<Rightarrow> red_black_tree option \<Rightarrow> (red_black_tree option \<times> bool) option" where
  "rbt_delete_min m tree = map_option (\<lambda>(t', ret, out). (t', ret)) (rbt_delete_and_get_min m tree)"

definition rbt_node_delete_and_get_max ::
  "nat \<Rightarrow> rbt_node \<Rightarrow> (rbt_node \<times> (rbt_key \<times> rbt_val) option) option" where
  "rbt_node_delete_and_get_max m node =
     (if node = NULL then Some (NULL, None)
      else if \<not> IS_IN_PLUGIN_MEMORY m node then Some (NULL, None)
      else do {
        l \<leftarrow> get_left node;
        node \<leftarrow> (if is_red m l then rbt_rotate_right m node else Some node);
        r \<leftarrow> get_right node;
        if r = NULL then do {
          k \<leftarrow> get_key node;
          v \<leftarrow> get_val node;
          Some (NULL, Some (k, v)) }
        else if \<not> IS_IN_PLUGIN_MEMORY m r then Some (NULL, None)
        else do {
          rl \<leftarrow> get_left r;
          node \<leftarrow> (if \<not> is_red m r \<and> \<not> is_red m rl then rbt_move_red_right m node else Some node);
          node \<leftarrow> rbt_balance m node;
          Some (node, None) } })"

definition rbt_delete_and_get_max ::
  "nat \<Rightarrow> red_black_tree option \<Rightarrow>
   (red_black_tree option \<times> bool \<times> (rbt_key \<times> rbt_val) option) option" where
  "rbt_delete_and_get_max m tree =
     (case tree of
        None \<Rightarrow> Some (None, False, None)
      | Some t \<Rightarrow>
          if \<not> in_plugin_memory m (tree_addr t) then Some (tree, False, None)
          else if \<not> IS_IN_PLUGIN_MEMORY m (root t) then Some (tree, False, None)
          else if rbt_is_empty m tree then Some (tree, False, None)
          else do {
            l \<leftarrow> get_left (root t);
            r \<leftarrow> get_right (root t);
            n \<leftarrow> (if \<not> is_red m l \<and> \<not> is_red m r then set_color (root t) RED else Some (root t));
            (n, out) \<leftarrow> rbt_node_delete_and_get_max m n;
            n \<leftarrow> (if \<not> rbt_is_empty m (Some (t\<lparr>root := n\<rparr>)) then set_color n BLACK else Some n);
            Some (Some (t\<lparr>root := n\<rparr>), True, out) })"

definition rbt_delete_max ::
  "nat \<Rightarrow> red_black_tree option \<Rightarrow> (red_black_tree option \<times> bool) option" where
  "rbt_delete_max m tree = map_option (\<lambda>(t', ret, out). (t', ret)) (rbt_delete_and_get_max m tree)"

function rbt_node_delete :: "nat \<Rightarrow> rbt_node \<Rightarrow> rbt_key \<Rightarrow> rbt_node option" where
  "rbt_node_delete m node x =
     (if node = NULL then Some NULL
      else if \<not> IS_IN_PLUGIN_MEMORY m node then Some NULL
      else do {
        l \<leftarrow> get_left node;
        k \<leftarrow> get_key node;
        if \<not> IS_IN_PLUGIN_MEMORY m l then Some NULL
        else if key_compare x k < 0 then do {
          node' \<leftarrow> (if \<not> is_red m l then do {
                     ll \<leftarrow> get_left l;
                     if \<not> is_red m ll then rbt_move_red_left m node else Some node }
                   else Some node);
          l \<leftarrow> get_left node';
          l' \<leftarrow> rbt_node_delete m l x;
          node' \<leftarrow> set_left node' l';
          rbt_balance m node' }
        else do {
          node' \<leftarrow> (if is_red m l then rbt_rotate_right m node else Some node);
          k \<leftarrow> get_key node';
          r \<leftarrow> get_right node';
          if key_compare x k = 0 \<and> r = NULL then Some NULL
          else do {
            node' \<leftarrow> (if \<not> is_red m r then do {
                       rl \<leftarrow> get_left r;
                       if \<not> is_red m rl then rbt_move_red_right m node' else Some node' }
                     else Some node');
            k \<leftarrow> get_key node';
            r \<leftarrow> get_right node';
            node' \<leftarrow>
              (if key_compare x k = 0 then do {
                 let mn = rbt_node_min m r;
                 mk \<leftarrow> get_key mn;
                 mv \<leftarrow> get_val mn;
                 node' \<leftarrow> set_key_val node' mk mv;
                 (r', out) \<leftarrow> rbt_node_delete_and_get_min m r;
                 set_right node' r' }
               else do {
                 r' \<leftarrow> rbt_node_delete m r x;
                 set_right node' r' });
            rbt_balance m node' } } })"
  by pat_completeness auto
termination
  by (relation "measure (\<lambda>(m, node, x). nodes node)")
    (auto simp: bind_eq_Some_conv split: if_splits
      dest!: nodes_move_red_left nodes_move_red_right nodes_rotate_right nodes_get)

text \<open>
  The ceiling search returns the node found and what the output pointers hold at the end; it
  writes them at every candidate it passes.
\<close>

fun rbt_ceiling_loop ::
  "nat \<Rightarrow> rbt_node \<Rightarrow> rbt_key \<Rightarrow> rbt_node \<Rightarrow> (rbt_key \<times> rbt_val) option \<Rightarrow>
   rbt_node \<times> (rbt_key \<times> rbt_val) option" where
  "rbt_ceiling_loop m NULL x ceil out = (ceil, out)"
| "rbt_ceiling_loop m (Node a k v l r c s) x ceil out =
     (if \<not> IS_IN_PLUGIN_MEMORY m (Node a k v l r c s) then (NULL, out)
      else let cmp = key_compare x k in
        if cmp = 0 then (Node a k v l r c s, Some (k, v))
        else if cmp > 0 then rbt_ceiling_loop m r x ceil out
        else rbt_ceiling_loop m l x (Node a k v l r c s) (Some (k, v)))"

definition rbt_node_ceiling ::
  "nat \<Rightarrow> rbt_node \<Rightarrow> rbt_key \<Rightarrow> rbt_node \<times> (rbt_key \<times> rbt_val) option" where
  "rbt_node_ceiling m node x =
     (if node = NULL then (NULL, None) else rbt_ceiling_loop m node x NULL None)"

definition rbt_ceiling ::
  "nat \<Rightarrow> red_black_tree option \<Rightarrow> rbt_key \<Rightarrow> bool \<times> (rbt_key \<times> rbt_val) option" where
  "rbt_ceiling m tree x =
     (case tree of
        None \<Rightarrow> (False, None)
      | Some t \<Rightarrow>
          if \<not> in_plugin_memory m (tree_addr t) then (False, None)
          else if rbt_is_empty m tree then (False, None)
          else let (n, out) = rbt_node_ceiling m (root t) x in (n \<noteq> NULL, out))"

definition rbt_ceiling_key :: "nat \<Rightarrow> red_black_tree option \<Rightarrow> rbt_key \<Rightarrow> bool \<times> rbt_key option" where
  "rbt_ceiling_key m tree x =
     (case tree of
        None \<Rightarrow> (False, None)
      | Some t \<Rightarrow>
          if \<not> in_plugin_memory m (tree_addr t) then (False, None)
          else if rbt_is_empty m tree then (False, None)
          else let (n, out) = rbt_node_ceiling m (root t) x in (n \<noteq> NULL, map_option fst out))"

text \<open>This variant returns the pointer itself as the truth value.\<close>

definition rbt_ceiling_val :: "nat \<Rightarrow> red_black_tree option \<Rightarrow> rbt_key \<Rightarrow> nat \<times> rbt_val option" where
  "rbt_ceiling_val m tree x =
     (case tree of
        None \<Rightarrow> (0, None)
      | Some t \<Rightarrow>
          if \<not> in_plugin_memory m (tree_addr t) then (0, None)
          else if rbt_is_empty m tree then (0, None)
          else let (n, out) = rbt_node_ceiling m (root t) x in
            (case n of NULL \<Rightarrow> 0 | Node a _ _ _ _ _ _ \<Rightarrow> a, map_option snd out))"

definition rbt_delete ::
  "nat \<Rightarrow> red_black_tree option \<Rightarrow> rbt_key \<Rightarrow> red_black_tree option option" where
  "rbt_delete m tree x =
     (case tree of
        None \<Rightarrow> Some None
      | Some t \<Rightarrow>
          if \<not> in_plugin_memory m (tree_addr t) then Some tree
          else if \<not> IS_IN_PLUGIN_MEMORY m (root t) then Some tree
          else if \<not> rbt_contains m tree x then Some tree
          else do {
            l \<leftarrow> get_left (root t);
            r \<leftarrow> get_right (root t);
            n \<leftarrow> (if \<not> is_red m l \<and> \<not> is_red m r then set_color (root t) RED else Some (root t));
            n \<leftarrow> rbt_node_delete m n x;
            n \<leftarrow> (if \<not> rbt_is_empty m (Some (t\<lparr>root := n\<rparr>)) then set_color n BLACK else Some n);
            Some (Some (t\<lparr>root := n\<rparr>)) })"

end
