(* ===== verification/OrderedMap.thy ===== *)
theory OrderedMap
  imports Prelude
begin

text \<open>
  The contract of an ordered symbol table, as its clients see it: the contents are a list of
  entries sorted by key, and every operation is described by what it does to that list. The
  locale \<open>ordered_map\<close> states the laws; what clients rely on is proved from them. The
  red-black tree is shown to be such a table in theory \<open>RedBlackTreeMap\<close>.
\<close>

section \<open>Sorted association lists\<close>

abbreviation sorted_keys :: "('k::linorder \<times> 'v) list \<Rightarrow> bool" where
  "sorted_keys ps \<equiv> sorted_wrt (<) (map fst ps)"

definition without :: "'k \<Rightarrow> ('k \<times> 'v) list \<Rightarrow> ('k \<times> 'v) list" where
  "without x ps = filter (\<lambda>p. fst p \<noteq> x) ps"

fun upd_list :: "'k::linorder \<Rightarrow> 'v \<Rightarrow> ('k \<times> 'v) list \<Rightarrow> ('k \<times> 'v) list" where
  "upd_list x y [] = [(x, y)]"
| "upd_list x y ((k, v) # ps) =
     (if x < k then (x, y) # (k, v) # ps
      else if k < x then (k, v) # upd_list x y ps
      else (x, y) # ps)"

lemma without_left:
  "sorted_keys (xs @ (k, v) # ys) \<Longrightarrow> x < k \<Longrightarrow>
   without x (xs @ (k, v) # ys) = without x xs @ (k, v) # ys"
  by (force simp: without_def sorted_wrt_append filter_id_conv)

lemma without_right:
  "sorted_keys (xs @ (k, v) # ys) \<Longrightarrow> k < x \<Longrightarrow>
   without x (xs @ (k, v) # ys) = xs @ (k, v) # without x ys"
  by (force simp: without_def sorted_wrt_append filter_id_conv)

lemma without_mid:
  "sorted_keys (xs @ (k, v) # ys) \<Longrightarrow> without k (xs @ (k, v) # ys) = xs @ ys"
proof -
  assume "sorted_keys (xs @ (k, v) # ys)"
  then have "\<forall>p \<in> set xs \<union> set ys. fst p \<noteq> k"
    by (force simp: sorted_wrt_append)
  then show ?thesis
    by (simp add: without_def filter_id_conv)
qed

lemma sorted_without: "sorted_keys ps \<Longrightarrow> sorted_keys (without x ps)"
  by (simp add: without_def sorted_wrt_map sorted_wrt_filter)

lemma map_of_without: "map_of (without x ps) = (map_of ps)(x := None)"
  by (induction ps) (auto simp: without_def)

lemma upd_list_append:
  "sorted_keys (ps @ (k, v) # qs) \<Longrightarrow>
   upd_list x y (ps @ (k, v) # qs) =
     (if x < k then upd_list x y ps @ (k, v) # qs else ps @ upd_list x y ((k, v) # qs))"
  by (induction ps rule: upd_list.induct[of _ x y]) (auto simp: sorted_wrt_append)

lemma set_upd_list: "fst ` set (upd_list x y ps) = insert x (fst ` set ps)"
  by (induction x y ps rule: upd_list.induct) auto

lemma sorted_upd_list: "sorted_keys ps \<Longrightarrow> sorted_keys (upd_list x y ps)"
proof (induction x y ps rule: upd_list.induct)
  case (2 x y k v ps)
  have "\<forall>p \<in> set (upd_list x y ps). fst p \<in> insert x (fst ` set ps)"
    using set_upd_list[of x y ps] by force
  with 2 show ?case by (fastforce dest: order.strict_trans)
qed simp

lemma map_of_upd_list: "sorted_keys ps \<Longrightarrow> map_of (upd_list x y ps) = (map_of ps)(x \<mapsto> y)"
  by (induction x y ps rule: upd_list.induct) (auto simp: fun_eq_iff)

lemma length_upd_list:
  "sorted_keys ps \<Longrightarrow>
   length (upd_list x y ps) = length ps + (if x \<in> fst ` set ps then 0 else 1)"
proof (induction x y ps rule: upd_list.induct)
  case (2 x y k v ps)
  then show ?case by (cases x k rule: linorder_cases) (auto dest: order.strict_trans)
qed simp

section \<open>The contract\<close>

text \<open>
  \<open>fresh a\<close> says that \<open>a\<close> is what a successful allocation returns; \<open>capacity\<close> is the number of
  entries up to which an insertion is guaranteed to succeed.
\<close>

locale ordered_map =
  fixes inv :: "'t \<Rightarrow> bool"
    and contents :: "'t \<Rightarrow> ('k::linorder \<times> 'v) list"
    and fresh :: "'a \<Rightarrow> bool"
    and capacity :: nat
    and get :: "'t \<Rightarrow> 'k \<Rightarrow> 'v option"
    and put :: "'a \<Rightarrow> 't \<Rightarrow> 'k \<Rightarrow> 'v \<Rightarrow> 't option"
    and delete :: "'t \<Rightarrow> 'k \<Rightarrow> 't option"
    and delete_min :: "'t \<Rightarrow> ('t \<times> 'k \<times> 'v) option"
  assumes contents_sorted: "inv t \<Longrightarrow> sorted_keys (contents t)"
    and get_contents: "inv t \<Longrightarrow> get t x = map_of (contents t) x"
    and put_contents: "inv t \<Longrightarrow> fresh a \<Longrightarrow> length (contents t) < capacity \<Longrightarrow>
      \<exists>t'. put a t x y = Some t' \<and> inv t' \<and> contents t' = upd_list x y (contents t)"
    and delete_contents: "inv t \<Longrightarrow>
      \<exists>t'. delete t x = Some t' \<and> inv t' \<and> contents t' = without x (contents t)"
    and delete_min_contents: "inv t \<Longrightarrow> contents t \<noteq> [] \<Longrightarrow>
      \<exists>t'. delete_min t = Some (t', hd (contents t)) \<and> inv t' \<and> contents t' = tl (contents t)"
begin

lemma get_after_put:
  assumes "inv t" "fresh a" "length (contents t) < capacity"
  shows "\<exists>t'. put a t x y = Some t' \<and> inv t' \<and> (\<forall>z. get t' z = (if z = x then Some y else get t z))"
  using put_contents[OF assms, of x y] contents_sorted[OF assms(1)] assms(1)
  by (auto simp: get_contents map_of_upd_list)

lemma get_after_delete:
  assumes "inv t"
  shows "\<exists>t'. delete t x = Some t' \<and> inv t' \<and> (\<forall>z. get t' z = (if z = x then None else get t z))"
  using delete_contents[OF assms, of x] assms by (auto simp: get_contents map_of_without)

lemma get_after_delete_min:
  assumes "inv t" "contents t \<noteq> []"
  shows "\<exists>t' k v. delete_min t = Some (t', k, v) \<and> inv t' \<and> get t k = Some v \<and>
    (\<forall>z. get t' z = (if z = k then None else get t z)) \<and> (\<forall>z. get t z \<noteq> None \<longrightarrow> k \<le> z)"
proof -
  obtain k v ps where c: "contents t = (k, v) # ps"
    using assms(2) by (metis neq_Nil_conv surj_pair)
  with contents_sorted[OF assms(1)] have lt: "\<forall>p \<in> set ps. k < fst p" by auto
  then have "map_of ps k = None" by (force simp: map_of_eq_None_iff)
  moreover from lt have "map_of ps z \<noteq> None \<Longrightarrow> k \<le> z" for z
    by (force dest: map_of_SomeD)
  ultimately show ?thesis
    using delete_min_contents[OF assms] assms(1) c by (auto simp: get_contents)
qed

text \<open>A client that bounds the number of entries evicts the least key before it inserts.\<close>

lemma put_bounded:
  assumes inv: "inv t" and f: "fresh a" and n: "0 < n" "n \<le> capacity" "length (contents t) \<le> n"
    and evict: "if length (contents t) = n then delete_min t = Some (u, kv) else u = t"
  shows "\<exists>t'. put a u x y = Some t' \<and> inv t' \<and> length (contents t') \<le> n \<and> get t' x = Some y \<and>
    (\<forall>p \<in> set (contents t). (length (contents t) = n \<and> p = hd (contents t)) \<or> fst p = x
      \<or> get t' (fst p) = Some (snd p))"
proof -
  define d where "d = (if length (contents t) = n then tl (contents t) else contents t)"
  have u: "inv u" "contents u = d"
    using evict inv n delete_min_contents[OF inv] by (auto simp: d_def split: if_splits)
  then have srt: "sorted_keys d" using contents_sorted by auto
  have len: "length d < n" using n by (auto simp: d_def)
  obtain t' where t': "put a u x y = Some t'" "inv t'" "contents t' = upd_list x y d"
    using put_contents[OF u(1) f] u(2) len n by auto
  have dist: "distinct (map fst d)" using srt strict_sorted_iff by blast
  have "length (contents t') \<le> n"
    using t'(3) len length_upd_list[OF srt, of x y] by simp
  moreover have "get t' x = Some y" using t' srt by (simp add: get_contents map_of_upd_list)
  moreover have "get t' (fst p) = Some (snd p)" if "p \<in> set d" "fst p \<noteq> x" for p
    using that t' srt dist by (simp add: get_contents map_of_upd_list)
  moreover have "p \<in> set d \<or> (length (contents t) = n \<and> p = hd (contents t))" if "p \<in> set (contents t)" for p
    using that by (cases "contents t") (auto simp: d_def)
  ultimately show ?thesis using t' by blast
qed

end

end
