(* ===== verification/RedBlackTreeShape.thy ===== *)
theory RedBlackTreeShape
  imports RedBlackTree OrderedMap
begin

text \<open>
  The representation invariant of the left-leaning red-black tree and its abstraction to the
  list of entries in key order. \<open>good\<close> says that a subtree is a left-leaning red-black tree, that
  its size fields are right and that all of its nodes lie in the plugin memory. The lemmas
  follow the balancing helpers of the code and end with the deletion of the least entry.
\<close>

section \<open>Invariant and abstraction\<close>

fun inorder :: "rbt_node \<Rightarrow> (rbt_key \<times> rbt_val) list" where
  "inorder NULL = []"
| "inorder (Node a k v l r c s) = inorder l @ (k, v) # inorder r"

fun red :: "rbt_node \<Rightarrow> bool" where
  "red NULL = False"
| "red (Node a k v l r c s) = c"

fun bheight :: "rbt_node \<Rightarrow> nat" where
  "bheight NULL = 0"
| "bheight (Node a k v l r c s) = bheight l + (if c then 0 else 1)"

fun llrb :: "rbt_node \<Rightarrow> bool" where
  "llrb NULL = True"
| "llrb (Node a k v l r c s) =
     (llrb l \<and> llrb r \<and> bheight l = bheight r \<and> \<not> red r \<and> (c \<longrightarrow> \<not> red l))"

fun sz :: "rbt_node \<Rightarrow> u32" where
  "sz NULL = 0"
| "sz (Node a k v l r c s) = s"

fun sizes :: "rbt_node \<Rightarrow> bool" where
  "sizes NULL = True"
| "sizes (Node a k v l r c s) = (sizes l \<and> sizes r \<and> s = sz l + sz r + 1)"

fun in_mem :: "nat \<Rightarrow> rbt_node \<Rightarrow> bool" where
  "in_mem m NULL = True"
| "in_mem m (Node a k v l r c s) = (in_plugin_memory m a \<and> in_mem m l \<and> in_mem m r)"

definition good :: "nat \<Rightarrow> rbt_node \<Rightarrow> bool" where
  "good m t \<longleftrightarrow> llrb t \<and> sizes t \<and> in_mem m t"

lemma good_simps [simp]:
  "good m NULL"
  "good m (Node a k v l r c s) \<longleftrightarrow>
     good m l \<and> good m r \<and> bheight l = bheight r \<and> \<not> red r \<and> (c \<longrightarrow> \<not> red l) \<and>
     s = sz l + sz r + 1 \<and> in_plugin_memory m a"
  by (auto simp: good_def)

lemma good_in [simp]: "good m t \<Longrightarrow> IS_IN_PLUGIN_MEMORY m t"
  by (cases t) auto

lemma is_red_simps [simp]:
  "is_red m NULL = False"
  "in_plugin_memory m a \<Longrightarrow> is_red m (Node a k v l r c s) = c"
  "good m t \<Longrightarrow> is_red m t = red t"
  by (auto simp: is_red_def split: rbt_node.splits)

lemma node_size_simps [simp]:
  "rbt_node_size m NULL = 0"
  "in_plugin_memory m a \<Longrightarrow> rbt_node_size m (Node a k v l r c s) = s"
  "good m t \<Longrightarrow> rbt_node_size m t = sz t"
  by (auto simp: rbt_node_size_def split: rbt_node.splits)

lemma key_compare_simps [simp]:
  "key_compare x k < 0 \<longleftrightarrow> x < k" "key_compare x k = 0 \<longleftrightarrow> x = k" "0 < key_compare x k \<longleftrightarrow> k < x"
  by (auto simp: key_compare_def)

text \<open>Balancing under a black root merges or leans a red right child.\<close>

lemma balance_black:
  assumes "good m l" "good m r" "bheight l = bheight r" "in_plugin_memory m a"
  shows "\<exists>h. rbt_balance m (Node a k v l r BLACK s) = Some h \<and> good m h \<and>
    bheight h = Suc (bheight l) \<and> inorder h = inorder l @ (k, v) # inorder r \<and> (red h \<longrightarrow> red l \<and> red r)"
proof (cases "red r")
  case True
  then obtain ra rk rv rl rr rs where r: "r = Node ra rk rv rl rr RED rs"
    by (cases r) auto
  show ?thesis
  proof (cases "red l")
    case True
    then obtain la lk lv ll lr ls where l: "l = Node la lk lv ll lr RED ls"
      by (cases l) auto
    show ?thesis
      using assms l r by (simp add: rbt_balance_def rbt_rotate_left_def rbt_rotate_right_def rbt_flip_colors_def algebra_simps)
  next
    case False
    then show ?thesis
      using assms r by (simp add: rbt_balance_def rbt_rotate_left_def rbt_rotate_right_def rbt_flip_colors_def algebra_simps)
  qed
next
  case False
  show ?thesis
  proof (cases l)
    case NULL
    then show ?thesis using assms False by (simp add: rbt_balance_def)
  next
    case (Node la lk lv ll lr lc ls)
    then show ?thesis using assms False by (auto simp add: rbt_balance_def)
  qed
qed

lemma balance_red:
  assumes "good m l" "good m r" "bheight l = bheight r" "\<not> red l" "\<not> red r" "in_plugin_memory m a"
  shows "rbt_balance m (Node a k v l r c s) = Some (Node a k v l r c (sz l + sz r + 1))"
  using assms by (simp add: rbt_balance_def)


text \<open>
  What the deletions keep on their way down: the children of the root are fine, and the root or
  its left child is red, so that a node can be taken out below without changing a black height.
\<close>

fun subgood :: "nat \<Rightarrow> rbt_node \<Rightarrow> bool" where
  "subgood m NULL = False"
| "subgood m (Node a k v l r c s) =
     (good m l \<and> good m r \<and> bheight l = bheight r \<and> in_plugin_memory m a)"

fun reducible :: "nat \<Rightarrow> rbt_node \<Rightarrow> bool" where
  "reducible m NULL = False"
| "reducible m (Node a k v l r c s) =
     (subgood m (Node a k v l r c s) \<and> \<not> red r \<and> c = (\<not> red l))"

lemma good_red_reducible: "good m t \<Longrightarrow> red t \<Longrightarrow> reducible m t"
  by (cases t) auto

lemma good_left_red_reducible: "good m t \<Longrightarrow> \<not> red t \<Longrightarrow> get_left t = Some l \<Longrightarrow> red l \<Longrightarrow> reducible m t"
  by (cases t) auto

lemma good_black_height_0: "good m t \<Longrightarrow> \<not> red t \<Longrightarrow> bheight t = 0 \<Longrightarrow> t = NULL"
  by (cases t) auto

lemma inorder_Nil [simp]: "inorder t = [] \<longleftrightarrow> t = NULL"
  by (cases t) auto

lemma move_red_left_spec:
  assumes "good m l" "good m r" "bheight l = bheight r" "in_plugin_memory m a"
    and l: "l = Node la lk lv ll lr BLACK ls" "\<not> red ll" and "\<not> red r"
  shows "\<exists>a' k' v' l' r' c'. rbt_move_red_left m (Node a k v l r RED s) = Some (Node a' k' v' l' r' c' s) \<and>
    subgood m (Node a' k' v' l' r' c' s) \<and> bheight (Node a' k' v' l' r' c' s) = bheight l \<and>
    inorder l' @ (k', v') # inorder r' = inorder l @ (k, v) # inorder r \<and>
    reducible m l' \<and> (\<exists>ys. inorder l' = inorder l @ ys) \<and>
    (if c' then \<not> red l' \<and> \<not> red r' else red l' \<and> red r')"
proof -
  from assms obtain ra rk rv rl rr rs where r: "r = Node ra rk rv rl rr BLACK rs"
    by (cases r) auto
  show ?thesis
  proof (cases "red rl")
    case True
    then obtain xa xk xv xl xr xs where "rl = Node xa xk xv xl xr RED xs"
      by (cases rl) auto
    with assms r show ?thesis
      by (auto simp: rbt_move_red_left_def rbt_rotate_left_def rbt_rotate_right_def rbt_flip_colors_def)
  next
    case False
    with assms r show ?thesis
      by (auto simp: rbt_move_red_left_def rbt_rotate_left_def rbt_rotate_right_def rbt_flip_colors_def)
  qed
qed

declare rbt_node_delete_and_get_min.simps [simp del]

lemma delete_min_leaf:
  "in_plugin_memory m a \<Longrightarrow>
   rbt_node_delete_and_get_min m (Node a k v NULL r c s) = Some (NULL, Some (k, v))"
  by (simp add: rbt_node_delete_and_get_min.simps)

lemma delete_min_step:
  assumes "in_plugin_memory m a" "good m l" "get_left l = Some ll"
    and "(if \<not> red l \<and> \<not> red ll then rbt_move_red_left m (Node a k v l r c s)
          else Some (Node a k v l r c s)) = Some (Node a' k' v' l' r' c' s')"
    and "rbt_node_delete_and_get_min m l' = Some (l'', out)"
    and "rbt_balance m (Node a' k' v' l'' r' c' s') = Some h"
  shows "rbt_node_delete_and_get_min m (Node a k v l r c s) = Some (h, out)"
proof -
  have "good m ll" "l \<noteq> NULL" using assms(2,3) by (cases l; simp)+
  then show ?thesis
    using assms by (subst rbt_node_delete_and_get_min.simps) simp
qed

text \<open>Putting the root back together after a child was replaced by a good tree.\<close>

lemma balance_spec:
  assumes "subgood m (Node a k v l r c s)" and "c \<longrightarrow> \<not> red l \<and> \<not> red r"
  shows "\<exists>h. rbt_balance m (Node a k v l r c s) = Some h \<and> good m h \<and>
    bheight h = bheight (Node a k v l r c s) \<and> inorder h = inorder l @ (k, v) # inorder r \<and>
    (red h \<longrightarrow> c \<or> red l \<and> red r)"
proof (cases c)
  case True
  then show ?thesis using assms balance_red[of m l r a k v c s] by simp
next
  case False
  then show ?thesis using assms balance_black[of m l r a k v s] by simp
qed

text \<open>The way down to the left: after at most one borrowing the left child is reducible.\<close>

lemma descend_left:
  assumes h: "h = Node a k v l r c s" and red: "reducible m h" and ll: "get_left l = Some ll"
  obtains a' k' v' l' r' c' where
    "(if \<not> red l \<and> \<not> red ll then rbt_move_red_left m (Node a k v l r c s)
      else Some (Node a k v l r c s)) = Some (Node a' k' v' l' r' c' s)"
    and "subgood m (Node a' k' v' l' r' c' s)"
    and "bheight (Node a' k' v' l' r' c' s) = bheight h"
    and "inorder l' @ (k', v') # inorder r' = inorder h" and "reducible m l'"
    and "\<exists>ys. inorder l' = inorder l @ ys"
    and "c' \<longrightarrow> \<not> red l' \<and> \<not> red r'" and "\<not> c \<longrightarrow> \<not> c' \<and> \<not> red r'"
proof (cases "\<not> red l \<and> \<not> red ll")
  case True
  have g: "good m l" "good m r" "bheight l = bheight r" "in_plugin_memory m a" "\<not> red r" "c = (\<not> red l)"
    using red by (auto simp: h)
  from True ll obtain la lk lv lr ls where "l = Node la lk lv ll lr BLACK ls" by (cases l) auto
  from move_red_left_spec[OF g(1-4) this _ g(5), of k v s] True g that show ?thesis
    by (auto simp: h split: if_splits)
next
  case no_move: False
  have "reducible m l" using red ll no_move by (cases l) (auto simp: h)
  with no_move that[of a k v l r c] red ll show ?thesis by (auto simp: h)
qed

lemma delete_min_spec:
  "reducible m h \<Longrightarrow> \<exists>h'. rbt_node_delete_and_get_min m h = Some (h', Some (hd (inorder h))) \<and>
     good m h' \<and> bheight h' = bheight h \<and> inorder h' = tl (inorder h) \<and> (red h' \<longrightarrow> red h)"
proof (induction "length (inorder h)" arbitrary: h rule: less_induct)
  case less
  from less.prems obtain a k v l r c s where h: "h = Node a k v l r c s"
    by (cases h) auto
  have g: "good m l" "good m r" "bheight l = bheight r" "in_plugin_memory m a" "\<not> red r" "c = (\<not> red l)"
    using less.prems by (auto simp: h)
  show ?case
  proof (cases "l = NULL")
    case True
    with g have "r = NULL" by (metis bheight.simps(1) good_black_height_0)
    with True g show ?thesis by (simp add: h delete_min_leaf)
  next
    case False
    then obtain ll where ll: "get_left l = Some ll" by (cases l) auto
    obtain a' k' v' l' r' c' where
      mv: "(if \<not> red l \<and> \<not> red ll then rbt_move_red_left m (Node a k v l r c s)
            else Some (Node a k v l r c s)) = Some (Node a' k' v' l' r' c' s)"
      "subgood m (Node a' k' v' l' r' c' s)" "bheight (Node a' k' v' l' r' c' s) = bheight h"
      "inorder l' @ (k', v') # inorder r' = inorder h" "reducible m l'"
      and cols: "c' \<longrightarrow> \<not> red l' \<and> \<not> red r'" "\<not> c \<longrightarrow> \<not> c' \<and> \<not> red r'"
      by (rule descend_left[OF h less.prems ll]) (rule that)
    have "length (inorder l') < length (inorder h)"
      using arg_cong[OF mv(4), of length] by simp
    then obtain l'' where l'': "rbt_node_delete_and_get_min m l' = Some (l'', Some (hd (inorder l')))"
      "good m l''" "bheight l'' = bheight l'" "inorder l'' = tl (inorder l')" "red l'' \<longrightarrow> red l'"
      using less.hyps[of l'] mv(5) by auto
    have "subgood m (Node a' k' v' l'' r' c' s)" "c' \<longrightarrow> \<not> red l'' \<and> \<not> red r'"
      using l'' mv(2) cols by auto
    from balance_spec[OF this] obtain h' where h': "rbt_balance m (Node a' k' v' l'' r' c' s) = Some h'"
      "good m h'" "bheight h' = bheight (Node a' k' v' l'' r' c' s)"
      "inorder h' = inorder l'' @ (k', v') # inorder r'" "red h' \<longrightarrow> c' \<or> red l'' \<and> red r'"
      by auto
    have "l' \<noteq> NULL" using mv(5) by auto
    then have "hd (inorder h) = hd (inorder l')" "tl (inorder h) = tl (inorder l') @ (k', v') # inorder r'"
      unfolding mv(4)[symmetric] by simp_all
    with delete_min_step[OF g(4,1) ll mv(1) l''(1) h'(1)] h' l'' mv(3) cols show ?thesis
      by (auto simp: h)
  qed
qed

end
