(* ===== verification/RedBlackTreeInsert.thy ===== *)
theory RedBlackTreeInsert
  imports RedBlackTreeShape
begin

text \<open>
  Insertion of a key. The code after the recursive call repairs the shape on the way up; below
  a red node the result may still have a red left child (\<open>weak\<close>), which the parent repairs.
  \<open>put_spec\<close> is the result for subtrees, for a successful and a failed allocation.
\<close>

section \<open>Insertion\<close>

text \<open>When the allocation fails a new key is not inserted; the value of a present key is replaced.\<close>

definition put_list ::
  "nat option \<Rightarrow> rbt_key \<Rightarrow> rbt_val \<Rightarrow> (rbt_key \<times> rbt_val) list \<Rightarrow> (rbt_key \<times> rbt_val) list" where
  "put_list alloc x y ps =
     (if alloc = None \<and> x \<notin> fst ` set ps then ps else upd_list x y ps)"

lemma put_list_left:
  "sorted_keys (ps @ (k, v) # qs) \<Longrightarrow> x < k \<Longrightarrow>
   put_list alloc x y (ps @ (k, v) # qs) = put_list alloc x y ps @ (k, v) # qs"
  by (force simp: put_list_def upd_list_append sorted_wrt_append)

lemma put_list_right:
  "sorted_keys (ps @ (k, v) # qs) \<Longrightarrow> k < x \<Longrightarrow>
   put_list alloc x y (ps @ (k, v) # qs) = ps @ (k, v) # put_list alloc x y qs"
  by (force simp: put_list_def upd_list_append sorted_wrt_append)

lemma put_list_mid:
  "sorted_keys (ps @ (x, v) # qs) \<Longrightarrow> put_list alloc x y (ps @ (x, v) # qs) = ps @ (x, y) # qs"
  by (simp add: put_list_def upd_list_append)

lemma put_list_Nil: "put_list alloc x y ps = [] \<longleftrightarrow> alloc = None \<and> ps = []"
  by (cases "(x, y, ps)" rule: upd_list.cases) (auto simp: put_list_def)

lemma length_put_list: "sorted_keys ps \<Longrightarrow> length (put_list alloc x y ps) \<le> length ps + 1"
  by (simp add: put_list_def length_upd_list)

text \<open>The code after the recursive call, which restores the shape on the way up.\<close>

definition put_fix :: "nat \<Rightarrow> rbt_node \<Rightarrow> rbt_node option" where
  "put_fix m node = do {
     l \<leftarrow> get_left node;
     r \<leftarrow> get_right node;
     node \<leftarrow> (if is_red m r \<and> \<not> is_red m l then rbt_rotate_left m node else Some node);
     l \<leftarrow> get_left node;
     node \<leftarrow> (if is_red m l then do {
                ll \<leftarrow> get_left l;
                if is_red m ll then rbt_rotate_right m node else Some node }
              else Some node);
     l \<leftarrow> get_left node;
     r \<leftarrow> get_right node;
     node \<leftarrow> (if is_red m l \<and> is_red m r then rbt_flip_colors m node else Some node);
     l \<leftarrow> get_left node;
     r \<leftarrow> get_right node;
     set_size node (rbt_node_size m l + rbt_node_size m r + 1) }"

lemma put_step:
  assumes "in_plugin_memory m a" "IS_IN_PLUGIN_MEMORY m l"
  shows "x < k \<Longrightarrow> rbt_node_put m alloc l x y = Some l' \<Longrightarrow>
      rbt_node_put m alloc (Node a k v l r c s) x y = put_fix m (Node a k v l' r c s)"
    and "k < x \<Longrightarrow> rbt_node_put m alloc r x y = Some r' \<Longrightarrow>
      rbt_node_put m alloc (Node a k v l r c s) x y = put_fix m (Node a k v l r' c s)"
    and "rbt_node_put m alloc (Node a x v l r c s) x y = put_fix m (Node a x y l r c s)"
  using assms by (simp_all add: put_fix_def order.strict_implies_not_eq less_imp_le leD)

declare rbt_node_put.simps(2) [simp del]

text \<open>A red root may have a red left child.\<close>

fun weak :: "nat \<Rightarrow> rbt_node \<Rightarrow> bool" where
  "weak m NULL = True"
| "weak m (Node a k v l r c s) =
     (subgood m (Node a k v l r c s) \<and> \<not> red r \<and> s = sz l + sz r + 1)"

lemma weakD: "weak m t \<Longrightarrow> \<not> good m t \<Longrightarrow>
    \<exists>a k v la lk lv ll lr ls r s. t = Node a k v (Node la lk lv ll lr RED ls) r RED s"
proof (cases t)
  case (Node a k v l r c s)
  moreover assume "weak m t" "\<not> good m t"
  ultimately show ?thesis by (cases l) auto
qed simp

lemma good_weak [simp]: "good m t \<Longrightarrow> weak m t"
  by (cases t) auto

lemma put_fix_red:
  assumes "good m l" "good m r" "bheight l = bheight r" "in_plugin_memory m a" "\<not> (red l \<and> red r)"
  shows "\<exists>h. put_fix m (Node a k v l r RED s) = Some h \<and> weak m h \<and>
    bheight h = bheight l \<and> inorder h = inorder l @ (k, v) # inorder r \<and> h \<noteq> NULL"
proof (cases "red r")
  case True
  then obtain ra rk rv rl rr rs where "r = Node ra rk rv rl rr RED rs" by (cases r) auto
  with assms show ?thesis by (auto simp: put_fix_def rbt_rotate_left_def)
next
  case False
  with assms show ?thesis by (cases l) (auto simp: put_fix_def)
qed

lemma put_fix_black:
  assumes "weak m l" "good m r" "bheight l = bheight r" "in_plugin_memory m a" "good m l \<or> \<not> red r"
  shows "\<exists>h. put_fix m (Node a k v l r BLACK s) = Some h \<and> good m h \<and>
    bheight h = Suc (bheight l) \<and> inorder h = inorder l @ (k, v) # inorder r \<and> h \<noteq> NULL"
proof (cases "good m l")
  case good: True
  show ?thesis
  proof (cases "red r")
    case True
    then obtain ra rk rv rl rr rs where "r = Node ra rk rv rl rr RED rs" by (cases r) auto
    with good assms show ?thesis
      by (cases l) (auto simp: put_fix_def rbt_rotate_left_def rbt_flip_colors_def)
  next
    case False
    with good assms show ?thesis by (cases l) (auto simp: put_fix_def)
  qed
next
  case False
  with weakD[OF assms(1)] assms show ?thesis
    by (auto simp: put_fix_def rbt_rotate_right_def rbt_flip_colors_def algebra_simps)
qed

lemma put_spec:
  assumes al: "\<And>a. alloc = Some a \<Longrightarrow> in_plugin_memory m a"
  shows "good m h \<Longrightarrow> sorted_keys (inorder h) \<Longrightarrow>
    \<exists>h'. rbt_node_put m alloc h x y = Some h' \<and> weak m h' \<and> (\<not> red h \<longrightarrow> good m h') \<and>
      bheight h' = bheight h \<and> inorder h' = put_list alloc x y (inorder h)"
proof (induction h)
  case NULL
  then show ?case using al by (auto simp: rbt_new_node_def put_list_def split: option.splits)
next
  case (Node a k v l r c s)
  have g: "good m l" "good m r" "bheight l = bheight r" "in_plugin_memory m a" "IS_IN_PLUGIN_MEMORY m l"
    "\<not> red r" "c \<longrightarrow> \<not> red l"
    using Node.prems by auto
  have srt: "sorted_keys (inorder l @ (k, v) # inorder r)" using Node.prems by simp
  obtain l' r' k' v' where
    st: "rbt_node_put m alloc (Node a k v l r c s) x y = put_fix m (Node a k' v' l' r' c s)"
    and ch: "weak m l'" "good m r'" "bheight l' = bheight l" "bheight r' = bheight r"
      "\<not> red l \<longrightarrow> good m l'" "good m l' \<or> \<not> red r'" "\<not> red l \<longrightarrow> \<not> (red l' \<and> red r')"
    and io: "inorder l' @ (k', v') # inorder r' = put_list alloc x y (inorder l @ (k, v) # inorder r)"
  proof (cases x k rule: linorder_cases)
    case less
    obtain l' where "rbt_node_put m alloc l x y = Some l'" "weak m l'" "\<not> red l \<longrightarrow> good m l'"
      "bheight l' = bheight l" "inorder l' = put_list alloc x y (inorder l)"
      using Node.IH(1) g srt by (auto simp: sorted_wrt_append)
    with that[of k v l' r] g put_step(1)[OF g(4,5) less] put_list_left[OF srt less] show ?thesis
      by auto
  next
    case equal
    with that[of x y l r] g put_step(3)[OF g(4,5)] put_list_mid[of "inorder l" x v] srt show ?thesis
      by auto
  next
    case greater
    obtain r' where "rbt_node_put m alloc r x y = Some r'" "good m r'"
      "bheight r' = bheight r" "inorder r' = put_list alloc x y (inorder r)"
      using Node.IH(2) g srt by (auto simp: sorted_wrt_append)
    with that[of k v l r'] g put_step(2)[OF g(4,5) greater] put_list_right[OF srt greater] show ?thesis
      by auto
  qed
  show ?case
  proof (cases c)
    case True
    with put_fix_red[of m l' r' a k' v' s] ch g st io show ?thesis by auto
  next
    case False
    with put_fix_black[of m l' r' a k' v' s] ch g st io show ?thesis by auto
  qed
qed

end
