(* ===== verification/RedBlackTreeDelete.thy ===== *)
theory RedBlackTreeDelete
  imports RedBlackTreeShape
begin

text \<open>
  Deletion of a key. On its way down the code keeps the current subtree \<open>deletable\<close>: a node can
  be taken out of it without changing its black height. \<open>delete_spec\<close> is the result for
  subtrees: the function does not fault, the invariant holds again, and exactly the entry of the
  key is gone.
\<close>

declare rbt_node_delete.simps [simp del]

fun deletable :: "nat \<Rightarrow> rbt_key \<Rightarrow> rbt_node \<Rightarrow> bool" where
  "deletable m x NULL = False"
| "deletable m x (Node a k v l r c s) =
     (subgood m (Node a k v l r c s) \<and>
      (c = (\<not> red l) \<and> \<not> red r \<or> \<not> c \<and> \<not> red l \<and> red r \<and> k \<le> x))"

lemma reducible_deletable: "reducible m h \<Longrightarrow> deletable m x h"
  by (cases h) auto

lemma delete_left_step:
  assumes "in_plugin_memory m a" "good m l" "get_left l = Some ll" "x < k"
    and "(if \<not> red l \<and> \<not> red ll then rbt_move_red_left m (Node a k v l r c s)
          else Some (Node a k v l r c s)) = Some (Node a' k' v' l' r' c' s')"
    and "rbt_node_delete m l' x = Some l''"
    and "rbt_balance m (Node a' k' v' l'' r' c' s') = Some h"
  shows "rbt_node_delete m (Node a k v l r c s) x = Some h"
proof -
  have "good m ll" using assms(2,3) by (cases l; simp)+
  then show ?thesis
    using assms by (subst rbt_node_delete.simps) (auto split: if_splits)
qed

lemma delete_right_step:
  assumes "in_plugin_memory m a" "good m l" "k \<le> x"
    and "(if red l then rbt_rotate_right m (Node a k v l r c s) else Some (Node a k v l r c s)) =
         Some (Node a1 k1 v1 l1 r1 c1 s1)"
    and "\<not> (x = k1 \<and> r1 = NULL)"
    and "(if \<not> is_red m r1 then do { rl \<leftarrow> get_left r1;
            if \<not> is_red m rl then rbt_move_red_right m (Node a1 k1 v1 l1 r1 c1 s1)
            else Some (Node a1 k1 v1 l1 r1 c1 s1) }
          else Some (Node a1 k1 v1 l1 r1 c1 s1)) = Some (Node a2 k2 v2 l2 r2 c2 s2)"
    and "if x = k2 then get_key (rbt_node_min m r2) = Some k3 \<and> get_val (rbt_node_min m r2) = Some v3
           \<and> rbt_node_delete_and_get_min m r2 = Some (r3, out)
         else k3 = k2 \<and> v3 = v2 \<and> rbt_node_delete m r2 x = Some r3"
    and "rbt_balance m (Node a2 k3 v3 l2 r3 c2 s2) = Some h"
  shows "rbt_node_delete m (Node a k v l r c s) x = Some h"
  using assms leD[OF assms(3)]
  by (cases "x = k2"; cases "r1 = NULL"; subst rbt_node_delete.simps) (simp_all del: Option.bind_assoc split del: if_split)

lemma delete_leaf:
  "in_plugin_memory m a \<Longrightarrow> rbt_node_delete m (Node a x v NULL NULL c s) x = Some NULL"
  by (simp add: rbt_node_delete.simps)

lemma min_good: "good m t \<Longrightarrow> t \<noteq> NULL \<Longrightarrow>
  get_key (rbt_node_min m t) = Some (fst (hd (inorder t))) \<and>
  get_val (rbt_node_min m t) = Some (snd (hd (inorder t)))"
  by (induction t) (auto simp: hd_append)

lemma min_reducible: "reducible m t \<Longrightarrow>
  get_key (rbt_node_min m t) = Some (fst (hd (inorder t))) \<and>
  get_val (rbt_node_min m t) = Some (snd (hd (inorder t)))"
  by (cases t) (auto simp: hd_append min_good)

lemma move_red_right_spec:
  assumes "good m l" "good m r" "bheight l = bheight r" "in_plugin_memory m a"
    and "r = Node ra rk rv rl rr BLACK rs" "\<not> red rl" and "\<not> red l" and "k \<le> x"
    and "sorted_wrt (<) (map fst (inorder l) @ [k])"
  shows "\<exists>a' k' v' l' r' c'. rbt_move_red_right m (Node a k v l r RED s) = Some (Node a' k' v' l' r' c' s) \<and>
    in_plugin_memory m a' \<and> good m l' \<and> bheight l' = bheight r' \<and>
    bheight (Node a' k' v' l' r' c' s) = bheight l \<and>
    inorder l' @ (k', v') # inorder r' = inorder l @ (k, v) # inorder r \<and>
    deletable m x r' \<and> k' \<le> x \<and> (x = k' \<longrightarrow> reducible m r') \<and>
    (if c' then \<not> red l' \<and> \<not> red r' else red l' \<and> red r')"
proof -
  from assms obtain la lk lv ll lr ls where l: "l = Node la lk lv ll lr BLACK ls"
    by (cases l) auto
  show ?thesis
  proof (cases "red ll")
    case True
    then obtain xa xk xv xl xr xs where "ll = Node xa xk xv xl xr RED xs"
      by (cases ll) auto
    with assms l show ?thesis
      by (auto simp: rbt_move_red_right_def rbt_rotate_right_def rbt_flip_colors_def sorted_wrt_append)
  next
    case False
    with assms l show ?thesis
      by (auto simp: rbt_move_red_right_def rbt_rotate_right_def rbt_flip_colors_def)
  qed
qed


lemma rotate_right_red:
  assumes "good m l" "good m r" "bheight l = bheight r" "in_plugin_memory m a" "red l" "\<not> red r"
  shows "\<exists>a1 k1 v1 l1 s1 r1. rbt_rotate_right m (Node a k v l r BLACK s) = Some (Node a1 k1 v1 l1 r1 BLACK s1) \<and>
    in_plugin_memory m a1 \<and> good m l1 \<and> \<not> red l1 \<and> good m r1 \<and> red r1 \<and> bheight l1 = bheight r1 \<and> bheight l1 = bheight l \<and>
    inorder l1 @ (k1, v1) # inorder r1 = inorder l @ (k, v) # inorder r \<and> (k1, v1) \<in> set (inorder l)"
proof -
  from assms obtain la lk lv ll lr ls where "l = Node la lk lv ll lr RED ls" by (cases l) auto
  with assms show ?thesis by (auto simp: rbt_rotate_right_def)
qed

text \<open>The way down to the right: after at most one rotation and one borrowing the right child is deletable.\<close>

lemma descend_right:
  assumes del: "deletable m x (Node a k v l r c s)" and kx: "k \<le> x"
    and srt: "sorted_keys (inorder (Node a k v l r c s))"
    and noleaf: "\<not> (r = NULL \<and> \<not> red l)"
  obtains a1 k1 v1 l1 r1 c1 s1 a2 k2 v2 l2 r2 c2 where
    "(if red l then rbt_rotate_right m (Node a k v l r c s) else Some (Node a k v l r c s)) =
         Some (Node a1 k1 v1 l1 r1 c1 s1)" and "r1 \<noteq> NULL"
    and "(if \<not> is_red m r1 then do { rl \<leftarrow> get_left r1;
            if \<not> is_red m rl then rbt_move_red_right m (Node a1 k1 v1 l1 r1 c1 s1)
            else Some (Node a1 k1 v1 l1 r1 c1 s1) }
          else Some (Node a1 k1 v1 l1 r1 c1 s1)) = Some (Node a2 k2 v2 l2 r2 c2 s1)"
    and "in_plugin_memory m a2" "good m l2" "bheight l2 = bheight r2"
    and "bheight (Node a2 k2 v2 l2 r2 c2 s1) = bheight (Node a k v l r c s)"
    and "inorder l2 @ (k2, v2) # inorder r2 = inorder l @ (k, v) # inorder r"
    and "deletable m x r2" "k2 \<le> x" "x = k2 \<longrightarrow> reducible m r2"
    and "c2 \<longrightarrow> \<not> red l2 \<and> \<not> red r2" "\<not> c \<longrightarrow> \<not> c2 \<and> \<not> red l2"
proof -
  have g: "good m l" "good m r" "bheight l = bheight r" "in_plugin_memory m a" 
    using del by auto
  consider (rot) "red l" "\<not> c" "\<not> red r" | (lean) "\<not> red l" "\<not> c" "red r" | (red) "c" "\<not> red l" "\<not> red r"
    using del by auto
  then show ?thesis
  proof cases
    case rot
    from rotate_right_red[OF g rot(1,3), of k v s] obtain a1 k1 v1 l1 s1 r1 where
      r: "rbt_rotate_right m (Node a k v l r BLACK s) = Some (Node a1 k1 v1 l1 r1 BLACK s1)"
      "in_plugin_memory m a1" "good m l1" "\<not> red l1" "good m r1" "red r1" "bheight l1 = bheight r1" "bheight l1 = bheight l"
      "inorder l1 @ (k1, v1) # inorder r1 = inorder l @ (k, v) # inorder r" "(k1, v1) \<in> set (inorder l)"
      by blast
    have "k1 < x" using srt kx r(10) by (force simp: sorted_wrt_append)
    moreover have "reducible m r1" using r by (simp add: good_red_reducible)
    ultimately show ?thesis
      using rot r g
      by (intro that[of a1 k1 v1 l1 r1 BLACK s1 a1 k1 v1 l1 r1 BLACK]) (auto simp: reducible_deletable)
  next
    case lean
    have "reducible m r" using g lean by (simp add: good_red_reducible)
    then show ?thesis
      using lean g kx
      by (intro that[of a k v l r c s a k v l r c]) (auto simp: reducible_deletable)
  next
    case red
    with noleaf obtain ra rk rv rl rr rs where r: "r = Node ra rk rv rl rr BLACK rs" by (cases r) auto
    have srt': "sorted_wrt (<) (map fst (inorder l) @ [k])"
      using srt by (auto simp: sorted_wrt_append)
    show ?thesis
    proof (cases "red rl")
      case True
      then have "reducible m r" using g r red by simp
      then show ?thesis
        using red g kx True r
        by (intro that[of a k v l r c s a k v l r c]) (auto simp: reducible_deletable)
    next
      case False
      from move_red_right_spec[OF g r False red(2) kx srt', of v s] obtain a' k' v' l' r' c' where
        "rbt_move_red_right m (Node a k v l r RED s) = Some (Node a' k' v' l' r' c' s)"
        "in_plugin_memory m a'" "good m l'" "bheight l' = bheight r'"
        "bheight (Node a' k' v' l' r' c' s) = bheight l"
        "inorder l' @ (k', v') # inorder r' = inorder l @ (k, v) # inorder r"
        "deletable m x r'" "k' \<le> x" "x = k' \<longrightarrow> reducible m r'"
        "if c' then \<not> red l' \<and> \<not> red r' else red l' \<and> red r'"
        by (elim exE conjE) (rule that)
      moreover have "\<not> is_red m r" "get_left r = Some rl" "\<not> is_red m rl" "r \<noteq> NULL"
        using red g r False by auto
      ultimately show ?thesis
        using red g(3)
        by (intro that[of a k v l r c s a' k' v' l' r' c']) (simp_all split: if_splits)
    qed
  qed
qed

definition delete_ok :: "nat \<Rightarrow> rbt_key \<Rightarrow> rbt_node \<Rightarrow> bool" where
  "delete_ok m x h \<longleftrightarrow>
     (\<exists>h'. rbt_node_delete m h x = Some h' \<and> good m h' \<and> bheight h' = bheight h \<and>
       inorder h' = without x (inorder h) \<and> (red h' \<longrightarrow> red h))"

lemma delete_okE:
  assumes "delete_ok m x h"
  obtains h' where "rbt_node_delete m h x = Some h'" "good m h'" "bheight h' = bheight h"
    "inorder h' = without x (inorder h)" "red h' \<longrightarrow> red h"
  using assms by (auto simp: delete_ok_def)

lemma delete_ok_left:
  assumes h: "h = Node a k v l r c s" and red: "reducible m h"
    and srt: "sorted_keys (inorder h)" and x: "x \<in> fst ` set (inorder l)" "x < k"
    and IH: "\<And>t. length (inorder t) < length (inorder h) \<Longrightarrow> deletable m x t \<Longrightarrow>
               sorted_keys (inorder t) \<Longrightarrow> x \<in> fst ` set (inorder t) \<Longrightarrow> delete_ok m x t"
  shows "delete_ok m x h"
proof -
  have g: "in_plugin_memory m a" "good m l" using red h by auto
  from x obtain ll where ll: "get_left l = Some ll" by (cases l) auto
  obtain a' k' v' l' r' c' where
    mv: "(if \<not> red l \<and> \<not> red ll then rbt_move_red_left m (Node a k v l r c s)
          else Some (Node a k v l r c s)) = Some (Node a' k' v' l' r' c' s)"
    "subgood m (Node a' k' v' l' r' c' s)" "bheight (Node a' k' v' l' r' c' s) = bheight h"
    "inorder l' @ (k', v') # inorder r' = inorder h" "reducible m l'"
    and pre: "\<exists>ys. inorder l' = inorder l @ ys"
    and cols: "c' \<longrightarrow> \<not> red l' \<and> \<not> red r'" "\<not> c \<longrightarrow> \<not> c' \<and> \<not> red r'"
    by (rule descend_left[OF h red ll]) (rule that)
  have srt': "sorted_keys (inorder l' @ (k', v') # inorder r')" using srt mv(4) by simp
  have inl': "x \<in> fst ` set (inorder l')" using x pre by auto
  then have xk: "x < k'" using srt' by (force simp: sorted_wrt_append)
  have "length (inorder l') < length (inorder h)"
    using arg_cong[OF mv(4), of length] by simp
  moreover have "sorted_keys (inorder l')" using srt' by (simp add: sorted_wrt_append)
  ultimately have "delete_ok m x l'"
    using IH reducible_deletable[OF mv(5)] inl' by blast
  then obtain l'' where l'': "rbt_node_delete m l' x = Some l''" "good m l''" "bheight l'' = bheight l'"
    "inorder l'' = without x (inorder l')" "red l'' \<longrightarrow> red l'" by (rule delete_okE)
  have "subgood m (Node a' k' v' l'' r' c' s)" "c' \<longrightarrow> \<not> red l'' \<and> \<not> red r'"
    using l'' mv(2) cols by auto
  from balance_spec[OF this] obtain h' where h': "rbt_balance m (Node a' k' v' l'' r' c' s) = Some h'"
    "good m h'" "bheight h' = bheight (Node a' k' v' l'' r' c' s)"
    "inorder h' = inorder l'' @ (k', v') # inorder r'" "red h' \<longrightarrow> c' \<or> red l'' \<and> red r'"
    by auto
  have "inorder h' = without x (inorder h)"
    using h'(4) l''(4) without_left[OF srt' xk] mv(4) by simp
  with delete_left_step[OF g ll x(2) mv(1) l''(1) h'(1)] h' l'' mv(3) cols show ?thesis
    by (auto simp: h delete_ok_def)
qed

text \<open>
  Below the node that \<open>descend_right\<close> prepares, either the key is in the right subtree or it is
  the key of the node, which then takes over its successor.
\<close>

lemma delete_right_child:
  assumes srt: "sorted_keys (inorder l @ (k, v) # inorder r)"
    and d: "deletable m x r" "k \<le> x" "x = k \<longrightarrow> reducible m r"
    and x: "x \<in> fst ` set (inorder l @ (k, v) # inorder r)"
    and IH: "deletable m x r \<Longrightarrow> sorted_keys (inorder r) \<Longrightarrow> x \<in> fst ` set (inorder r) \<Longrightarrow> delete_ok m x r"
  obtains k' v' r' out where
    "if x = k then get_key (rbt_node_min m r) = Some k' \<and> get_val (rbt_node_min m r) = Some v'
       \<and> rbt_node_delete_and_get_min m r = Some (r', out)
     else k' = k \<and> v' = v \<and> rbt_node_delete m r x = Some r'"
    and "good m r'" "bheight r' = bheight r" "red r' \<longrightarrow> red r"
    and "inorder l @ (k', v') # inorder r' = without x (inorder l @ (k, v) # inorder r)"
proof (cases "x = k")
  case True
  with d have red: "reducible m r" by simp
  then have "r \<noteq> NULL" by auto
  then have "(fst (hd (inorder r)), snd (hd (inorder r))) # tl (inorder r) = inorder r"
    by simp
  with True red that delete_min_spec[OF red] min_reducible[OF red] without_mid[OF srt]
  show ?thesis by auto
next
  case ne: False
  then have kx: "k < x" using d by simp
  have "sorted_keys (inorder r)" using srt by (simp add: sorted_wrt_append)
  moreover have "x \<in> fst ` set (inorder r)"
    using x srt kx by (force simp: sorted_wrt_append)
  ultimately have "delete_ok m x r" using IH d(1) by blast
  then obtain r' where "rbt_node_delete m r x = Some r'" "good m r'" "bheight r' = bheight r"
    "inorder r' = without x (inorder r)" "red r' \<longrightarrow> red r" by (rule delete_okE)
  with ne that without_right[OF srt kx] show ?thesis by auto
qed

lemma delete_ok_right:
  assumes h: "h = Node a k v l r c s" and del: "deletable m x h" and srt: "sorted_keys (inorder h)"
    and x: "x \<in> fst ` set (inorder h)" and kx: "k \<le> x" and nl: "\<not> (r = NULL \<and> \<not> red l)"
    and IH: "\<And>t. length (inorder t) < length (inorder h) \<Longrightarrow> deletable m x t \<Longrightarrow>
               sorted_keys (inorder t) \<Longrightarrow> x \<in> fst ` set (inorder t) \<Longrightarrow> delete_ok m x t"
  shows "delete_ok m x h"
proof -
  have g: "in_plugin_memory m a" "good m l" using del h by auto
  obtain a1 k1 v1 l1 r1 c1 s1 a2 k2 v2 l2 r2 c2 where
    d: "(if red l then rbt_rotate_right m (Node a k v l r c s) else Some (Node a k v l r c s)) =
         Some (Node a1 k1 v1 l1 r1 c1 s1)" "r1 \<noteq> NULL"
      "(if \<not> is_red m r1 then do { rl \<leftarrow> get_left r1;
        if \<not> is_red m rl then rbt_move_red_right m (Node a1 k1 v1 l1 r1 c1 s1)
        else Some (Node a1 k1 v1 l1 r1 c1 s1) }
       else Some (Node a1 k1 v1 l1 r1 c1 s1)) = Some (Node a2 k2 v2 l2 r2 c2 s1)"
    and e: "in_plugin_memory m a2" "good m l2" "bheight l2 = bheight r2"
    and bh: "bheight (Node a2 k2 v2 l2 r2 c2 s1) = bheight (Node a k v l r c s)"
    and io: "inorder l2 @ (k2, v2) # inorder r2 = inorder h"
    and f: "deletable m x r2" "k2 \<le> x" "x = k2 \<longrightarrow> reducible m r2"
    and cols: "c2 \<longrightarrow> \<not> red l2 \<and> \<not> red r2" "\<not> c \<longrightarrow> \<not> c2 \<and> \<not> red l2"
    using descend_right[OF del[unfolded h] kx srt[unfolded h] nl] unfolding h inorder.simps by blast
  have len: "length (inorder r2) < length (inorder h)"
    using arg_cong[OF io, of length] by simp
  obtain k3 v3 r3 out where
    rec: "if x = k2 then get_key (rbt_node_min m r2) = Some k3 \<and> get_val (rbt_node_min m r2) = Some v3
         \<and> rbt_node_delete_and_get_min m r2 = Some (r3, out)
       else k3 = k2 \<and> v3 = v2 \<and> rbt_node_delete m r2 x = Some r3"
    and r3: "good m r3" "bheight r3 = bheight r2" "red r3 \<longrightarrow> red r2"
      "inorder l2 @ (k3, v3) # inorder r3 = without x (inorder h)"
    using delete_right_child[of l2 k2 v2 r2 m x, unfolded io, OF srt f x] IH[OF len] by blast
  have "subgood m (Node a2 k3 v3 l2 r3 c2 s1)" "c2 \<longrightarrow> \<not> red l2 \<and> \<not> red r3"
    using e r3 cols by auto
  from balance_spec[OF this] obtain h' where h': "rbt_balance m (Node a2 k3 v3 l2 r3 c2 s1) = Some h'"
    "good m h'" "bheight h' = bheight (Node a2 k3 v3 l2 r3 c2 s1)"
    "inorder h' = inorder l2 @ (k3, v3) # inorder r3" "red h' \<longrightarrow> c2 \<or> red l2 \<and> red r3"
    by auto
  have "\<not> (x = k1 \<and> r1 = NULL)" using d(2) by simp
  from delete_right_step[OF g kx d(1) this d(3) rec h'(1)] h' r3 bh cols show ?thesis
    by (auto simp: h delete_ok_def)
qed

lemma delete_spec:
  "deletable m x h \<Longrightarrow> sorted_keys (inorder h) \<Longrightarrow> x \<in> fst ` set (inorder h) \<Longrightarrow> delete_ok m x h"
proof (induction "length (inorder h)" arbitrary: h rule: less_induct)
  case less
  from less.prems obtain a k v l r c s where h: "h = Node a k v l r c s"
    by (cases h) auto
  consider "x < k" | "k \<le> x" "r = NULL \<and> \<not> red l" | "k \<le> x" "\<not> (r = NULL \<and> \<not> red l)"
    by fastforce
  then show ?case
  proof cases
    case 1
    then have "reducible m h" "x \<in> fst ` set (inorder l)"
      using less.prems by (force simp: h sorted_wrt_append)+
    from delete_ok_left[OF h this(1) less.prems(2) this(2) 1 less.hyps] show ?thesis .
  next
    case 2
    then have "l = NULL" using less.prems(1) h by (auto dest: good_black_height_0)
    with 2 less.prems show ?thesis by (auto simp: h delete_leaf without_def delete_ok_def)
  next
    case 3
    from delete_ok_right[OF h less.prems 3 less.hyps] show ?thesis .
  qed
qed

end
