(* ===== verification/RedBlackTreeMap.thy ===== *)
theory RedBlackTreeMap
  imports RedBlackTreeInsert RedBlackTreeDelete
begin

text \<open>
  The operations on whole trees, as functions of the list of entries; the tree as an ordered
  symbol table (theory \<open>OrderedMap\<close>); and the behaviour of the deletion of the greatest key, which
  removes nothing from a tree of two or more entries.
\<close>

section \<open>The tree\<close>

abbreviation entries :: "red_black_tree \<Rightarrow> (rbt_key \<times> rbt_val) list" where
  "entries t \<equiv> inorder (root t)"

definition tree_inv :: "nat \<Rightarrow> red_black_tree \<Rightarrow> bool" where
  "tree_inv m t \<longleftrightarrow> in_plugin_memory m (tree_addr t) \<and> good m (root t) \<and> \<not> red (root t) \<and>
     sorted_keys (entries t) \<and> length (entries t) < 2 ^ 32"

lemma sz_length: "good m t \<Longrightarrow> sz t = of_nat (length (inorder t))"
  by (induction t) (simp_all add: add.commute)

lemma size_entries: "tree_inv m t \<Longrightarrow> unat (rbt_size m (Some t)) = length (entries t)"
  by (simp add: rbt_size_def tree_inv_def sz_length[of m] unsigned_of_nat take_bit_nat_eq_self)

lemma size_zero: "tree_inv m t \<Longrightarrow> rbt_size m (Some t) = 0 \<longleftrightarrow> root t = NULL"
  by (metis inorder_Nil length_0_conv size_entries unat_eq_zero)

lemma is_empty_root [simp]:
  "in_plugin_memory m (tree_addr t) \<Longrightarrow> rbt_is_empty m (Some t) \<longleftrightarrow> root t = NULL"
  by (simp add: rbt_is_empty_def)

lemma get_loop_spec:
  "good m t \<Longrightarrow> sorted_keys (inorder t) \<Longrightarrow> rbt_get_loop m t x = map_of (inorder t) x"
proof (induction t)
  case (Node a k v l r c s)
  then have "\<forall>p \<in> set (inorder l). fst p < k" "\<forall>p \<in> set (inorder r). k < fst p"
    by (auto simp: sorted_wrt_append)
  then have "k \<le> x \<Longrightarrow> map_of (inorder l) x = None" "x \<le> k \<Longrightarrow> map_of (inorder r) x = None"
    by (force simp: map_of_eq_None_iff)+
  with Node show ?case
    by (cases x k rule: linorder_cases) (auto simp: sorted_wrt_append map_add_def leD less_imp_le split: option.splits)
qed simp

lemma get_spec: "tree_inv m t \<Longrightarrow> rbt_get m t x = map_of (entries t) x"
  by (simp add: rbt_get_def tree_inv_def get_loop_spec)

lemma contains_spec: "tree_inv m t \<Longrightarrow> rbt_contains m (Some t) x \<longleftrightarrow> x \<in> fst ` set (entries t)"
  by (auto simp: rbt_contains_def size_zero get_spec map_of_eq_None_iff)

lemma set_black:
  assumes "good m n"
  obtains n' where "(if n \<noteq> NULL then set_color n BLACK else Some n) = Some n'" "good m n'" "\<not> red n'"
    "inorder n' = inorder n"
  using assms that by (cases n) auto

lemma set_red:
  assumes "good m n" "\<not> red n" "n \<noteq> NULL"
  obtains l r n' where "get_left n = Some l" "get_right n = Some r"
    "(if \<not> is_red m l \<and> \<not> is_red m r then set_color n RED else Some n) = Some n'" "reducible m n'"
    "inorder n' = inorder n"
proof (cases n)
  case (Node a k v l r c s)
  with assms that[of l r "Node a k v l r (\<not> red l) s"] show ?thesis by auto
qed (use assms in simp)

lemma put_tree:
  assumes inv: "tree_inv m t" and al: "\<And>a. alloc = Some a \<Longrightarrow> in_plugin_memory m a"
    and ne: "alloc \<noteq> None \<or> root t \<noteq> NULL" and len: "length (entries t) + 1 < 2 ^ 32"
  shows "\<exists>t'. rbt_put m alloc (Some t) x y = Some (Some t') \<and> tree_inv m t' \<and>
    tree_addr t' = tree_addr t \<and> entries t' = put_list alloc x y (entries t)"
proof -
  obtain h where h: "rbt_node_put m alloc (root t) x y = Some h" "good m h"
    "inorder h = put_list alloc x y (entries t)"
    using put_spec[OF al, where h = "root t" and x = x and y = y] inv by (auto simp: tree_inv_def)
  then have "h \<noteq> NULL" using ne put_list_Nil[of alloc x y "entries t"] by auto
  with set_black[OF h(2)] obtain n where n: "set_color h BLACK = Some n" "good m n" "\<not> red n"
    "inorder n = inorder h" by auto
  have "length (inorder h) < 2 ^ 32"
    using len inv length_put_list[of "entries t" alloc x y] unfolding h(3) tree_inv_def by linarith
  moreover have "sorted_keys (inorder h)"
    using inv by (simp add: h(3) put_list_def sorted_upd_list tree_inv_def)
  ultimately show ?thesis
    using inv h n by (simp add: rbt_put_def tree_inv_def)
qed

lemma put_null_fault:
  "tree_inv m t \<Longrightarrow> root t = NULL \<Longrightarrow> rbt_put m None (Some t) x y = None"
  by (simp add: rbt_put_def tree_inv_def rbt_new_node_def)

lemma delete_tree:
  assumes inv: "tree_inv m t"
  shows "\<exists>t'. rbt_delete m (Some t) x = Some (Some t') \<and> tree_inv m t' \<and>
    tree_addr t' = tree_addr t \<and> entries t' = without x (entries t)"
proof (cases "x \<in> fst ` set (entries t)")
  case False
  then have "without x (entries t) = entries t" by (force simp: without_def filter_id_conv)
  with False inv show ?thesis by (auto simp: rbt_delete_def contains_spec tree_inv_def)
next
  case True
  then have "root t \<noteq> NULL" by auto
  with inv set_red[of m "root t"] obtain l r n where
    n: "get_left (root t) = Some l" "get_right (root t) = Some r"
      "(if \<not> is_red m l \<and> \<not> is_red m r then set_color (root t) RED else Some (root t)) = Some n"
      "reducible m n" "inorder n = entries t"
    by (auto simp: tree_inv_def)
  from delete_spec[OF reducible_deletable[OF n(4)], of x] True inv n(5) obtain n' where
    n': "rbt_node_delete m n x = Some n'" "good m n'" "inorder n' = without x (entries t)"
    by (auto simp: tree_inv_def delete_ok_def)
  obtain n'' where n'': "(if n' \<noteq> NULL then set_color n' BLACK else Some n') = Some n''"
    "good m n''" "\<not> red n''" "inorder n'' = inorder n'"
    by (rule set_black[OF n'(2)])
  have "length (without x (entries t)) \<le> length (entries t)" by (simp add: without_def)
  with True inv n n' n'' show ?thesis
    by (auto simp: rbt_delete_def contains_spec tree_inv_def sorted_without simp del: bind_assoc split del: if_split)
qed

lemma delete_min_tree:
  assumes inv: "tree_inv m t" and ne: "entries t \<noteq> []"
  shows "\<exists>t'. rbt_delete_and_get_min m (Some t) = Some (Some t', True, Some (hd (entries t))) \<and>
    tree_inv m t' \<and> tree_addr t' = tree_addr t \<and> entries t' = tl (entries t)"
proof -
  from inv ne set_red[of m "root t"] obtain l r n where
    n: "get_left (root t) = Some l" "get_right (root t) = Some r"
      "(if \<not> is_red m l \<and> \<not> is_red m r then set_color (root t) RED else Some (root t)) = Some n"
      "reducible m n" "inorder n = entries t"
    by (auto simp: tree_inv_def)
  from delete_min_spec[OF n(4)] n(5) obtain n' where
    n': "rbt_node_delete_and_get_min m n = Some (n', Some (hd (entries t)))" "good m n'"
      "inorder n' = tl (entries t)"
    by auto
  obtain n'' where n'': "(if n' \<noteq> NULL then set_color n' BLACK else Some n') = Some n''"
    "good m n''" "\<not> red n''" "inorder n'' = inorder n'"
    by (rule set_black[OF n'(2)])
  have "sorted_keys (tl (entries t))" using inv by (cases "entries t") (auto simp: tree_inv_def)
  with ne inv n n' n'' show ?thesis
    by (auto simp: rbt_delete_and_get_min_def tree_inv_def simp del: bind_assoc split del: if_split)
qed

lemma min_tree:
  "tree_inv m t \<Longrightarrow> rbt_min m (Some t) = Some (if entries t = [] then None else Some (hd (entries t)))"
  by (auto simp: rbt_min_def tree_inv_def min_good)

lemma max_good: "good m t \<Longrightarrow> t \<noteq> NULL \<Longrightarrow>
  get_key (rbt_node_max m t) = Some (fst (last (inorder t))) \<and>
  get_val (rbt_node_max m t) = Some (snd (last (inorder t)))"
  by (induction t) (auto simp: last_append)

lemma max_tree:
  "tree_inv m t \<Longrightarrow> entries t \<noteq> [] \<Longrightarrow> rbt_max_key m (Some t) = Some (fst (last (entries t))) \<and>
     rbt_max_val m (Some t) = Some (snd (last (entries t)))"
  by (auto simp: rbt_max_key_def rbt_max_val_def tree_inv_def max_good)

lemma ceiling_loop_spec:
  "good m t \<Longrightarrow> sorted_keys (inorder t) \<Longrightarrow> (ceil = NULL \<longleftrightarrow> out = None) \<Longrightarrow>
   \<exists>n. rbt_ceiling_loop m t x ceil out =
     (n, case find (\<lambda>p. x \<le> fst p) (inorder t) of None \<Rightarrow> out | Some p \<Rightarrow> Some p) \<and>
     (n = NULL \<longleftrightarrow> find (\<lambda>p. x \<le> fst p) (inorder t) = None \<and> out = None)"
proof (induction t arbitrary: ceil out)
  case (Node a k v l r c s)
  have srt: "sorted_keys (inorder l)" "sorted_keys (inorder r)" and lt: "\<forall>p \<in> set (inorder l). fst p < k"
    using Node.prems by (auto simp: sorted_wrt_append)
  have skip: "k \<le> x \<Longrightarrow> find (\<lambda>p. x \<le> fst p) (inorder l) = None"
    using lt by (force simp: find_None_iff)
  have app: "find P (xs @ ys) = (case find P xs of None \<Rightarrow> find P ys | Some p \<Rightarrow> Some p)" for P and xs ys :: "(rbt_key \<times> rbt_val) list"
    by (induction xs) auto
  show ?case
  proof (cases x k rule: linorder_cases)
    case less
    with Node.prems srt Node.IH(1)[of "Node a k v l r c s" "Some (k, v)"] show ?thesis
      by (auto simp: app less_imp_le split: option.splits)
  next
    case equal
    with Node.prems skip show ?thesis by (simp add: app)
  next
    case greater
    with Node.prems srt skip Node.IH(2)[of ceil out] show ?thesis
      by (auto simp: app leD)
  qed
qed simp

lemma ceiling_tree:
  "tree_inv m t \<Longrightarrow> rbt_ceiling m (Some t) x =
     (case find (\<lambda>p. x \<le> fst p) (entries t) of None \<Rightarrow> (False, None) | Some p \<Rightarrow> (True, Some p))"
  using ceiling_loop_spec[of m "root t" NULL None x]
  by (auto simp: rbt_ceiling_def tree_inv_def rbt_node_ceiling_def split: option.splits)

text \<open>The path from the root to a leaf is at most logarithmic in the number of entries.\<close>

fun height :: "rbt_node \<Rightarrow> nat" where
  "height NULL = 0"
| "height (Node a k v l r c s) = Suc (max (height l) (height r))"

lemma height_bheight: "good m t \<Longrightarrow> height t \<le> 2 * bheight t + (if red t then 1 else 0)"
  by (induction t) (auto split: if_splits)

lemma bheight_length: "good m t \<Longrightarrow> 2 ^ bheight t \<le> length (inorder t) + 1"
  by (induction t) auto

lemma height_tree: "tree_inv m t \<Longrightarrow> 2 ^ (height (root t) div 2) \<le> length (entries t) + 1"
proof -
  assume "tree_inv m t"
  then have "height (root t) div 2 \<le> bheight (root t)" "2 ^ bheight (root t) \<le> length (entries t) + 1"
    using height_bheight[of m "root t"] bheight_length[of m "root t"] by (auto simp: tree_inv_def)
  then show ?thesis by (meson le_trans one_le_numeral power_increasing)
qed

section \<open>Deleting the maximum\<close>

lemma in_mem_in [simp]: "in_mem m t \<Longrightarrow> IS_IN_PLUGIN_MEMORY m t"
  by (cases t) auto

lemma is_red_not_NULL: "is_red m t \<Longrightarrow> t \<noteq> NULL"
  by auto

definition keeps :: "nat \<Rightarrow> rbt_node \<Rightarrow> rbt_node option \<Rightarrow> bool" where
  "keeps m h res \<longleftrightarrow> (\<exists>h'. res = Some h' \<and> h' \<noteq> NULL \<and> in_mem m h' \<and> inorder h' = inorder h)"

lemma keepsI: "h \<noteq> NULL \<Longrightarrow> in_mem m h \<Longrightarrow> keeps m h (Some h)"
  by (simp add: keeps_def)

lemma keeps_bind: "keeps m h res \<Longrightarrow> (\<And>h'. h' \<noteq> NULL \<Longrightarrow> in_mem m h' \<Longrightarrow> keeps m h' (f h')) \<Longrightarrow>
    keeps m h (res \<bind> f)"
  by (fastforce simp: keeps_def)

lemma keeps_rotate_right: "in_mem m h \<Longrightarrow> get_left h = Some l \<Longrightarrow> l \<noteq> NULL \<Longrightarrow> keeps m h (rbt_rotate_right m h)"
  by (cases h; cases l) (auto simp: keeps_def rbt_rotate_right_def)

lemma keeps_rotate_left: "in_mem m h \<Longrightarrow> get_right h = Some r \<Longrightarrow> r \<noteq> NULL \<Longrightarrow> keeps m h (rbt_rotate_left m h)"
  by (cases h; cases r) (auto simp: keeps_def rbt_rotate_left_def)

lemma keeps_flip: "in_mem m h \<Longrightarrow> get_left h = Some l \<Longrightarrow> l \<noteq> NULL \<Longrightarrow> get_right h = Some r \<Longrightarrow> r \<noteq> NULL \<Longrightarrow>
    keeps m h (rbt_flip_colors m h)"
  by (cases h; cases l; cases r) (auto simp: keeps_def rbt_flip_colors_def)

lemma keeps_size: "h \<noteq> NULL \<Longrightarrow> in_mem m h \<Longrightarrow> keeps m h (set_size h s)"
  by (cases h) (auto simp: keeps_def)

lemma keeps_color: "h \<noteq> NULL \<Longrightarrow> in_mem m h \<Longrightarrow> keeps m h (set_color h c)"
  by (cases h) (auto simp: keeps_def)

lemma keeps_get_left:
  "h \<noteq> NULL \<Longrightarrow> in_mem m h \<Longrightarrow> (\<And>l. get_left h = Some l \<Longrightarrow> in_mem m l \<Longrightarrow> keeps m h (f l)) \<Longrightarrow>
   keeps m h (get_left h \<bind> f)"
  by (cases h) auto

lemma keeps_get_right:
  "h \<noteq> NULL \<Longrightarrow> in_mem m h \<Longrightarrow> (\<And>r. get_right h = Some r \<Longrightarrow> in_mem m r \<Longrightarrow> keeps m h (f r)) \<Longrightarrow>
   keeps m h (get_right h \<bind> f)"
  by (cases h) auto

lemma keeps_get_ll:
  "l \<noteq> NULL \<Longrightarrow> (\<And>ll. keeps m h (f ll)) \<Longrightarrow> keeps m h (get_left l \<bind> f)"
  by (cases l) auto

lemma keeps_if: "(b \<Longrightarrow> keeps m h x) \<Longrightarrow> (\<not> b \<Longrightarrow> keeps m h y) \<Longrightarrow> keeps m h (if b then x else y)"
  by simp

lemma keeps_guard: "in_mem m x \<Longrightarrow> keeps m h y \<Longrightarrow>
    keeps m h (if \<not> IS_IN_PLUGIN_MEMORY m x then Some NULL else y)"
  by simp

lemmas keeps_rules = keeps_guard keeps_get_left keeps_get_right keeps_get_ll keeps_if keeps_rotate_right
  keeps_rotate_left keeps_flip keeps_size keepsI keeps_bind

lemma keeps_balance: "h \<noteq> NULL \<Longrightarrow> in_mem m h \<Longrightarrow> keeps m h (rbt_balance m h)"
  unfolding rbt_balance_def
  by (assumption | rule keeps_rules | erule is_red_not_NULL conjunct1 conjunct2 | erule conjE)+

lemma keeps_move_red_right:
  "in_mem m h \<Longrightarrow> get_left h = Some l \<Longrightarrow> l \<noteq> NULL \<Longrightarrow> get_right h = Some r \<Longrightarrow> r \<noteq> NULL \<Longrightarrow>
   keeps m h (rbt_move_red_right m h)"
  by (cases h; cases l; cases r)
    (auto simp: keeps_def rbt_move_red_right_def rbt_flip_colors_def rbt_rotate_right_def
      split: rbt_node.splits)

lemma good_in_mem [simp]: "good m t \<Longrightarrow> in_mem m t"
  by (simp add: good_def)

lemma delete_max_node:
  assumes red: "reducible m n" and len: "2 \<le> length (inorder n)"
  shows "\<exists>n'. rbt_node_delete_and_get_max m n = Some (n', None) \<and> n' \<noteq> NULL \<and> inorder n' = inorder n"
proof -
  obtain a k v l r c s where n: "n = Node a k v l r c s" using red by (cases n) auto
  have g: "good m l" "good m r" "bheight l = bheight r" "in_plugin_memory m a" "\<not> red r" "c = (\<not> red l)"
    using red n by auto
  show ?thesis
  proof (cases "red l")
    case True
    then obtain la lk lv ll lr ls where "l = Node la lk lv ll lr RED ls" by (cases l) auto
    with g keeps_balance[of "Node la lk lv ll (Node a k v lr r RED (sz lr + sz r + 1)) BLACK s" m]
    show ?thesis
      by (auto simp: n rbt_node_delete_and_get_max_def rbt_rotate_right_def keeps_def)
  next
    case False
    then have "l = NULL \<longleftrightarrow> r = NULL" using g by (metis bheight.simps(1) good_black_height_0)
    then have lN: "l \<noteq> NULL" and "r \<noteq> NULL" using len n by auto
    then obtain ra rk rv rl rr rs where r: "r = Node ra rk rv rl rr BLACK rs" and rl: "good m rl"
      using g by (cases r) auto
    have "keeps m n (if \<not> red r \<and> \<not> red rl then rbt_move_red_right m n else Some n)"
      using keeps_move_red_right[of m n l r] keepsI[of n m] g n r lN by auto
    from keeps_bind[OF this keeps_balance] False g rl show ?thesis
      by (auto simp: n r rbt_node_delete_and_get_max_def keeps_def bind_eq_Some_conv)
  qed
qed

lemma delete_max_tree:
  assumes inv: "tree_inv m t" and len: "2 \<le> length (entries t)"
  shows "\<exists>t'. rbt_delete_and_get_max m (Some t) = Some (Some t', True, None) \<and> entries t' = entries t"
proof -
  have ne: "root t \<noteq> NULL" using len by auto
  with inv set_red[of m "root t"] obtain l r n where
    n: "get_left (root t) = Some l" "get_right (root t) = Some r"
      "(if \<not> is_red m l \<and> \<not> is_red m r then set_color (root t) RED else Some (root t)) = Some n"
      "reducible m n" "inorder n = entries t"
    by (auto simp: tree_inv_def)
  from delete_max_node[OF n(4)] n(5) len obtain n' where
    n': "rbt_node_delete_and_get_max m n = Some (n', None)" "n' \<noteq> NULL" "inorder n' = entries t"
    by auto
  then obtain n'' where "set_color n' BLACK = Some n''" "inorder n'' = entries t"
    by (cases n') auto
  with ne inv n n' show ?thesis
    by (auto simp: rbt_delete_and_get_max_def tree_inv_def simp del: bind_assoc split del: if_split)
qed

section \<open>The tree is an ordered symbol table\<close>

definition tree_put ::
  "nat \<Rightarrow> nat \<Rightarrow> red_black_tree \<Rightarrow> rbt_key \<Rightarrow> rbt_val \<Rightarrow> red_black_tree option" where
  "tree_put m a t x y = Option.bind (rbt_put m (Some a) (Some t) x y) id"

definition tree_delete :: "nat \<Rightarrow> red_black_tree \<Rightarrow> rbt_key \<Rightarrow> red_black_tree option" where
  "tree_delete m t x = Option.bind (rbt_delete m (Some t) x) id"

definition tree_delete_min ::
  "nat \<Rightarrow> red_black_tree \<Rightarrow> (red_black_tree \<times> rbt_key \<times> rbt_val) option" where
  "tree_delete_min m t =
     (case rbt_delete_and_get_min m (Some t) of
        Some (Some t', True, Some kv) \<Rightarrow> Some (t', kv)
      | _ \<Rightarrow> None)"

interpretation rbt_map: ordered_map "tree_inv m" "\<lambda>t. entries t" "in_plugin_memory m" "2 ^ 32 - 1"
  "rbt_get m" "tree_put m" "tree_delete m" "tree_delete_min m" for m
proof unfold_locales
  fix t :: red_black_tree and a :: nat and x :: rbt_key and y :: rbt_val
  assume inv: "tree_inv m t"
  show "sorted_keys (entries t)" using inv by (simp add: tree_inv_def)
  show "rbt_get m t x = map_of (entries t) x" by (rule get_spec[OF inv])
  show "\<exists>t'. tree_delete m t x = Some t' \<and> tree_inv m t' \<and> entries t' = without x (entries t)"
    using delete_tree[OF inv, of x] by (auto simp: tree_delete_def)
  show "\<exists>t'. tree_delete_min m t = Some (t', hd (entries t)) \<and> tree_inv m t' \<and> entries t' = tl (entries t)"
    if "entries t \<noteq> []"
    using delete_min_tree[OF inv that] by (auto simp: tree_delete_min_def)
  show "\<exists>t'. tree_put m a t x y = Some t' \<and> tree_inv m t' \<and> entries t' = upd_list x y (entries t)"
    if "in_plugin_memory m a" "length (entries t) < 2 ^ 32 - 1"
    using put_tree[OF inv, of "Some a" x y] that by (auto simp: tree_put_def put_list_def)
qed

section \<open>Properties\<close>

definition sample_tree :: red_black_tree where
  "sample_tree = \<lparr>tree_addr = 8,
     root = Node 32 5 50 (Node 64 3 30 NULL NULL BLACK 1) (Node 96 8 80 NULL NULL BLACK 1) BLACK 3\<rparr>"

lemma sample_tree_inv: "tree_inv 0 sample_tree"
  by (simp add: tree_inv_def sample_tree_def in_plugin_memory_def PLUGIN_MEMORY_def)

lemma sample_tree_entries: "entries sample_tree = [(3, 30), (5, 50), (8, 80)]"
  by (simp add: sample_tree_def)

lemma in_plugin_memory_128: "in_plugin_memory 0 128"
  by (simp add: in_plugin_memory_def PLUGIN_MEMORY_def)

text \<open>
  C16. Inserting into a valid tree keeps the tree valid, and afterwards a lookup of the inserted
  key gives the new value and every other lookup is unchanged. When the allocation of a node
  fails the value of a key that is present is still replaced and a new key is not inserted. The
  only fault is the insertion into an empty tree when the allocation fails: the null root is then
  dereferenced. A node that is allocated is in the plugin memory.
\<close>

theorem rbt_put_correct:
  assumes "tree_inv m t" and "length (entries t) + 1 < 2 ^ 32"
    and "\<forall>a. alloc = Some a \<longrightarrow> in_plugin_memory m a"
  shows "if alloc = None \<and> rbt_is_empty m (Some t) then rbt_put m alloc (Some t) x y = None
    else \<exists>t'. rbt_put m alloc (Some t) x y = Some (Some t') \<and> tree_inv m t' \<and>
      (\<forall>z. rbt_get m t' z =
         (if z = x \<and> (alloc \<noteq> None \<or> rbt_contains m (Some t) x) then Some y else rbt_get m t z))"
proof (cases "alloc = None \<and> rbt_is_empty m (Some t)")
  case True
  then have "root t = NULL" using assms(1) by (auto simp: rbt_is_empty_def tree_inv_def split: if_splits)
  with True assms(1) put_null_fault[of m t x y] show ?thesis by (simp add: tree_inv_def)
next
  case False
  then have "alloc = None \<longrightarrow> entries t \<noteq> []" using assms(1) by (auto simp: tree_inv_def)
  then obtain t' where "rbt_put m alloc (Some t) x y = Some (Some t')" "tree_inv m t'"
    "entries t' = put_list alloc x y (entries t)"
    using put_tree[OF assms(1), of alloc x y] assms by (auto split: option.splits)
  with False assms(1) show ?thesis
    by (auto simp: get_spec contains_spec put_list_def map_of_upd_list tree_inv_def)
qed

theorem rbt_put_correct_witness:
  "(\<exists>t'. rbt_put 0 (Some 128) (Some sample_tree) 7 70 = Some (Some t') \<and> tree_inv 0 t' \<and>
     rbt_get 0 t' 7 = Some 70 \<and> rbt_get 0 t' 8 = rbt_get 0 sample_tree 8) \<and>
   rbt_put 0 None (Some (sample_tree\<lparr>root := NULL\<rparr>)) 7 70 = None"
proof -
  have "tree_inv 0 (sample_tree\<lparr>root := NULL\<rparr>)" using sample_tree_inv by (simp add: tree_inv_def)
  from rbt_put_correct[OF this, of None 7 70] rbt_put_correct[OF sample_tree_inv, of "Some 128" 7 70]
  show ?thesis
    by (auto simp: sample_tree_entries in_plugin_memory_128 sample_tree_def rbt_is_empty_def in_plugin_memory_def PLUGIN_MEMORY_def)
qed

text \<open>
  C17. Deleting a key from a valid tree does not fault and keeps the tree valid; afterwards the
  key is absent and every other lookup is unchanged, whether or not the key was present.
\<close>

theorem rbt_delete_correct:
  assumes "tree_inv m t"
  shows "\<exists>t'. rbt_delete m (Some t) x = Some (Some t') \<and> tree_inv m t' \<and>
    \<not> rbt_contains m (Some t') x \<and>
    (\<forall>z. rbt_get m t' z = (if z = x then None else rbt_get m t z))"
proof -
  obtain t' where "rbt_delete m (Some t) x = Some (Some t')" "tree_inv m t'"
    "entries t' = without x (entries t)"
    using delete_tree[OF assms] by auto
  moreover have "x \<notin> fst ` set (without x (entries t))" by (auto simp: without_def)
  ultimately show ?thesis
    using assms by (simp add: get_spec contains_spec map_of_without)
qed

theorem rbt_delete_correct_witness:
  "\<exists>t'. rbt_delete 0 (Some sample_tree) 5 = Some (Some t') \<and> tree_inv 0 t' \<and>
     rbt_get 0 t' 5 = None \<and> rbt_get 0 t' 8 = rbt_get 0 sample_tree 8"
  using rbt_delete_correct[OF sample_tree_inv, of 5] by auto

text \<open>
  C18. On a valid tree that is not empty, deleting the minimum returns true and the entry with
  the least key, the one \<open>rbt_min\<close> reports; the tree stays valid and loses that entry only.
\<close>

theorem rbt_delete_min_correct:
  assumes "tree_inv m t" and "\<not> rbt_is_empty m (Some t)"
  shows "\<exists>t' k v. rbt_delete_and_get_min m (Some t) = Some (Some t', True, Some (k, v)) \<and>
    rbt_min m (Some t) = Some (Some (k, v)) \<and> tree_inv m t' \<and> rbt_get m t k = Some v \<and>
    (\<forall>z. rbt_get m t' z = (if z = k then None else rbt_get m t z)) \<and>
    (\<forall>z. rbt_contains m (Some t) z \<longrightarrow> k \<le> z)"
proof -
  have ne: "entries t \<noteq> []" using assms by (simp add: tree_inv_def)
  from delete_min_tree[OF assms(1) ne] obtain t' where
    t': "rbt_delete_and_get_min m (Some t) = Some (Some t', True, Some (hd (entries t)))"
    by blast
  moreover from this have "tree_delete_min m t = Some (t', hd (entries t))"
    by (simp add: tree_delete_min_def)
  ultimately show ?thesis
    using rbt_map.get_after_delete_min[OF assms(1) ne] min_tree[OF assms(1)] ne assms(1)
    by (auto simp: contains_spec get_spec map_of_eq_None_iff)
qed

theorem rbt_delete_min_correct_witness:
  "\<exists>t' k v. rbt_delete_and_get_min 0 (Some sample_tree) = Some (Some t', True, Some (k, v)) \<and>
     tree_inv 0 t' \<and> rbt_get 0 t' k = None"
  using rbt_delete_min_correct[OF sample_tree_inv]
  by (auto simp: sample_tree_def rbt_is_empty_def in_plugin_memory_def PLUGIN_MEMORY_def)

text \<open>
  C19. The ceiling search on a valid tree finds the least key that is not below the given one,
  with its value; it reports failure, and writes no output, exactly when there is none.
\<close>

theorem rbt_ceiling_correct:
  assumes "tree_inv m t"
  shows "case rbt_ceiling m (Some t) x of
      (True, Some (k, v)) \<Rightarrow> x \<le> k \<and> rbt_get m t k = Some v \<and>
        (\<forall>z. x \<le> z \<and> rbt_contains m (Some t) z \<longrightarrow> k \<le> z)
    | (False, None) \<Rightarrow> \<forall>z. x \<le> z \<longrightarrow> \<not> rbt_contains m (Some t) z
    | _ \<Rightarrow> False"
proof (cases "find (\<lambda>p. x \<le> fst p) (entries t)")
  case None
  then have "\<forall>z. x \<le> z \<longrightarrow> z \<notin> fst ` set (entries t)" by (auto simp: find_None_iff)
  with None assms show ?thesis by (simp add: ceiling_tree contains_spec)
next
  case (Some p)
  then obtain i where i: "i < length (entries t)" "x \<le> fst (entries t ! i)" "p = entries t ! i"
    "\<forall>j<i. fst (entries t ! j) < x"
    by (auto simp: find_Some_iff not_le)
  have srt: "sorted_keys (entries t)" using assms by (simp add: tree_inv_def)
  have "fst p \<le> z" if "x \<le> z" "z \<in> fst ` set (entries t)" for z
  proof -
    from that(2) obtain j where j: "j < length (entries t)" "z = fst (entries t ! j)"
      by (auto simp: in_set_conv_nth)
    with i(4) that(1) have "i \<le> j" by (metis leD not_le)
    with i j srt show ?thesis by (cases "i = j") (auto simp: sorted_wrt_iff_nth_less less_imp_le)
  qed
  moreover have "map_of (entries t) (fst p) = Some (snd p)"
    using i srt strict_sorted_iff by (auto intro!: map_of_is_SomeI simp: nth_mem)
  moreover have "x \<le> fst p" using i by simp
  ultimately show ?thesis using assms Some
    by (cases p) (simp add: ceiling_tree contains_spec get_spec)
qed

theorem rbt_ceiling_correct_witness:
  "rbt_ceiling 0 (Some sample_tree) 6 = (True, Some (8, 80)) \<and> rbt_get 0 sample_tree 8 = Some 80"
  using rbt_ceiling_correct[OF sample_tree_inv, of 6]
  by (simp add: ceiling_tree[OF sample_tree_inv] sample_tree_entries)

text \<open>
  C20. The size of a valid tree is its number of keys, and no path from its root is longer than
  twice the binary logarithm of that number plus one.
\<close>

theorem rbt_size_height:
  assumes "tree_inv m t"
  shows "unat (rbt_size m (Some t)) = card {z. rbt_contains m (Some t) z} \<and>
    2 ^ (height (root t) div 2) \<le> unat (rbt_size m (Some t)) + 1"
proof -
  have "distinct (map fst (entries t))"
    using assms strict_sorted_iff by (auto simp: tree_inv_def)
  from distinct_card[OF this] height_tree[OF assms] show ?thesis
    using assms by (simp add: contains_spec size_entries)
qed

theorem rbt_size_height_witness:
  "unat (rbt_size 0 (Some sample_tree)) = card {z. rbt_contains 0 (Some sample_tree) z}"
  using rbt_size_height[OF sample_tree_inv] by simp

text \<open>
  C21. Deleting the maximum of a valid tree with two or more entries returns true, but writes no
  output and removes nothing: the code never descends into the right subtree.
\<close>

theorem rbt_delete_max_removes_nothing:
  assumes "tree_inv m t" and "2 \<le> length (entries t)"
  shows "\<exists>t'. rbt_delete_and_get_max m (Some t) = Some (Some t', True, None) \<and> entries t' = entries t"
  using assms by (rule delete_max_tree)

theorem rbt_delete_max_removes_nothing_witness:
  "\<exists>t'. rbt_delete_and_get_max 0 (Some sample_tree) = Some (Some t', True, None) \<and>
     entries t' = [(3, 30), (5, 50), (8, 80)]"
  using rbt_delete_max_removes_nothing[OF sample_tree_inv] by (simp add: sample_tree_entries)

end
