(* ===== verification/Sacks.thy ===== *)
theory Sacks
  imports Prelude
begin

text \<open>
  The lists of received packet numbers of \<^verbatim>\<open>picoquic/sacks.c\<close>, from which acknowledgements are
  made, and the 16-bit floating point format for delays of the same file.

  A chain of \<open>picoquic_sack_item_t\<close> is the list of its items, in the order of the \<open>next_sack\<close>
  pointers. The first item is embedded in the packet context, so the list is never empty; a
  first item that starts at \<open>2\<^sup>6\<^sup>4 - 1\<close> marks that nothing was received. Packet numbers are natural
  numbers, and the two operations that can wrap around are \<open>u64_inc\<close> and \<open>u64_dec\<close>.
\<close>

section \<open>Data\<close>

record sack_item =
  start_of_sack_range :: nat
  end_of_sack_range :: nat

record packet_context =
  first_sack_item :: "sack_item list"
  time_stamp_largest_received :: nat

definition NO_PN :: nat where "NO_PN = 2 ^ 64 - 1"

section \<open>Operations\<close>

fun is_pn_loop :: "sack_item list \<Rightarrow> nat \<Rightarrow> bool" where
  "is_pn_loop [] pn64 = False"
| "is_pn_loop (sack # next_sack) pn64 =
     (if pn64 > end_of_sack_range sack then False
      else if pn64 \<ge> start_of_sack_range sack then True
      else is_pn_loop next_sack pn64)"

definition picoquic_is_pn_already_received :: "packet_context \<Rightarrow> nat \<Rightarrow> bool option" where
  "picoquic_is_pn_already_received pkt_ctx pn64 =
     (case first_sack_item pkt_ctx of
        [] \<Rightarrow> None
      | sack # next_sack \<Rightarrow>
          Some (if start_of_sack_range sack \<noteq> NO_PN then is_pn_loop (sack # next_sack) pn64 else False))"

text \<open>
  One iteration of the loop of \<open>picoquic_update_sack_list\<close> and the iterations that follow.
  \<open>alloc\<close> tells whether \<open>malloc\<close> succeeds (it is called at most once), \<open>previous\<close> and \<open>sack\<close> are
  the two pointers of the loop and \<open>next_sack\<close> is the chain behind \<open>sack\<close>. The result is the
  return code and the chain from \<open>previous\<close> on.
\<close>

fun update_sack_loop ::
  "bool \<Rightarrow> sack_item option \<Rightarrow> sack_item \<Rightarrow> sack_item list \<Rightarrow> nat \<Rightarrow> nat \<Rightarrow> int \<Rightarrow> int \<times> sack_item list" where
  "update_sack_loop alloc previous sack next_sack pn64_min pn64_max ret =
     (let before = (case previous of None \<Rightarrow> [] | Some p \<Rightarrow> [p]);
          touches = (case previous of None \<Rightarrow> False
                     | Some p \<Rightarrow> u64_inc pn64_max \<ge> start_of_sack_range p) in
      if pn64_max > end_of_sack_range sack then
        (if pn64_min \<le> u64_inc (end_of_sack_range sack) then
           (let (before, sack) =
                  (if touches
                   then ([], (the previous)\<lparr>start_of_sack_range := start_of_sack_range sack\<rparr>)
                   else (before, sack\<lparr>end_of_sack_range := pn64_max\<rparr>)) in
            if pn64_min \<ge> start_of_sack_range sack then (0, before @ sack # next_sack)
            else case next_sack of
                [] \<Rightarrow> (0, before @ [sack\<lparr>start_of_sack_range := pn64_min\<rparr>])
              | n # ns \<Rightarrow>
                  map_prod id (\<lambda>l. before @ l)
                    (update_sack_loop alloc (Some sack) n ns pn64_min
                      (u64_dec (start_of_sack_range sack)) 0))
         else if touches then
           (0, (the previous)\<lparr>start_of_sack_range := pn64_min\<rparr> # sack # next_sack)
         else if \<not> alloc then (-1, before @ sack # next_sack)
         else (0, before @
                \<lparr>start_of_sack_range = pn64_min, end_of_sack_range = pn64_max\<rparr> # sack # next_sack))
      else if pn64_max \<ge> start_of_sack_range sack then
        (if pn64_min < start_of_sack_range sack then
           (case next_sack of
              [] \<Rightarrow> (0, before @ [sack\<lparr>start_of_sack_range := pn64_min\<rparr>])
            | n # ns \<Rightarrow>
                map_prod id (\<lambda>l. before @ l)
                  (update_sack_loop alloc (Some sack) n ns pn64_min
                    (u64_dec (start_of_sack_range sack)) 0))
         else (ret, before @ sack # next_sack))
      else case next_sack of
          [] \<Rightarrow>
            (if u64_inc pn64_max = start_of_sack_range sack then
               (0, before @ [sack\<lparr>start_of_sack_range := pn64_min\<rparr>])
             else if \<not> alloc then (-1, before @ [sack])
             else (0, before @
                    [sack, \<lparr>start_of_sack_range = pn64_min, end_of_sack_range = pn64_max\<rparr>]))
        | n # ns \<Rightarrow>
            map_prod id (\<lambda>l. before @ l)
              (update_sack_loop alloc (Some sack) n ns pn64_min pn64_max ret))"

definition picoquic_update_sack_list ::
  "bool \<Rightarrow> sack_item list \<Rightarrow> nat \<Rightarrow> nat \<Rightarrow> (int \<times> sack_item list) option" where
  "picoquic_update_sack_list alloc l pn64_min pn64_max =
     (case l of
        [] \<Rightarrow> None
      | sack # next_sack \<Rightarrow>
          Some (if start_of_sack_range sack = NO_PN then
            (0, sack\<lparr>start_of_sack_range := pn64_min, end_of_sack_range := pn64_max\<rparr> # next_sack)
          else update_sack_loop alloc None sack next_sack pn64_min pn64_max 1))"

definition picoquic_record_pn_received ::
  "bool \<Rightarrow> packet_context \<Rightarrow> nat \<Rightarrow> nat \<Rightarrow> (int \<times> packet_context) option" where
  "picoquic_record_pn_received alloc pkt_ctx pn64 current_microsec =
     (case first_sack_item pkt_ctx of
        [] \<Rightarrow> None
      | sack # next_sack \<Rightarrow>
          if start_of_sack_range sack = NO_PN then
            Some (0, pkt_ctx\<lparr>first_sack_item :=
                        sack\<lparr>start_of_sack_range := pn64, end_of_sack_range := pn64\<rparr> # next_sack,
                      time_stamp_largest_received := current_microsec\<rparr>)
          else do {
            let pkt_ctx =
              (if pn64 > end_of_sack_range sack
               then pkt_ctx\<lparr>time_stamp_largest_received := current_microsec\<rparr> else pkt_ctx);
            (ret, l) \<leftarrow> picoquic_update_sack_list alloc (first_sack_item pkt_ctx) pn64 pn64;
            Some (ret, pkt_ctx\<lparr>first_sack_item := l\<rparr>) })"

fun check_sack_loop :: "sack_item \<Rightarrow> sack_item list \<Rightarrow> nat \<Rightarrow> nat \<Rightarrow> int" where
  "check_sack_loop sack next_sack pn64_min pn64_max =
     (if pn64_max > end_of_sack_range sack then 0
      else if pn64_max \<ge> start_of_sack_range sack then
        (if pn64_min < start_of_sack_range sack then 0 else -1)
      else case next_sack of
          [] \<Rightarrow> 0
        | n # ns \<Rightarrow> check_sack_loop n ns pn64_min pn64_max)"

definition picoquic_check_sack_list :: "sack_item list \<Rightarrow> nat \<Rightarrow> nat \<Rightarrow> int option" where
  "picoquic_check_sack_list l pn64_min pn64_max =
     (case l of
        [] \<Rightarrow> None
      | sack # next_sack \<Rightarrow>
          Some (if start_of_sack_range sack = NO_PN then 0
                else check_sack_loop sack next_sack pn64_min pn64_max))"

text \<open>
  The float16 format. The intermediate values of the code fit their 64 bits (\<open>mantissa\<close> only
  shrinks and \<open>exponent\<close> counts at most 52 shifts), so they are natural numbers.
\<close>

function float16_loop :: "nat \<Rightarrow> nat \<Rightarrow> nat \<times> nat" where
  "float16_loop mantissa exponent =
     (if mantissa > 0x0FFF then float16_loop (drop_bit 1 mantissa) (exponent + 1)
      else (mantissa, exponent))"
  by pat_completeness auto
termination
  by (relation "measure fst") (auto simp: drop_bit_eq_div)

definition picoquic_deltat_to_float16 :: "nat \<Rightarrow> nat" where
  "picoquic_deltat_to_float16 delta_t =
     (let (mantissa, exponent) = float16_loop delta_t 0 in
      if exponent > 30 then 0xFFFF
      else if mantissa AND 0x0800 \<noteq> 0 then
        take_bit 16 ((mantissa AND 0x07FF) OR push_bit 11 (exponent + 1))
      else take_bit 16 mantissa)"

definition picoquic_float16_to_deltat :: "nat \<Rightarrow> nat" where
  "picoquic_float16_to_deltat float16 =
     (let exponent = drop_bit 11 float16;
          ret = float16 AND 0x07FF in
      if exponent \<noteq> 0 then take_bit 64 (push_bit (exponent - 1) (ret OR 0x0800)) else ret)"

declare update_sack_loop.simps [simp del] check_sack_loop.simps [simp del] float16_loop.simps [simp del]

end
