(* ===== verification/SacksCorrect.thy ===== *)
theory SacksCorrect
  imports Sacks
begin

text \<open>
  Correctness of the lists of received packet numbers. A valid list stands for a set of packet
  numbers (\<open>received\<close>); the lemmas follow the branches of the loop of
  \<open>picoquic_update_sack_list\<close>, and the operations are then described by that set. The locale
  \<open>pn_log\<close> is the interface the packet processing uses.
\<close>

section \<open>Invariant and abstraction\<close>

text \<open>Ranges in decreasing order, none empty, no two of them adjacent.\<close>

fun sack_ok :: "sack_item list \<Rightarrow> bool" where
  "sack_ok [] = True"
| "sack_ok (x # xs) =
     (start_of_sack_range x \<le> end_of_sack_range x \<and>
      (case xs of [] \<Rightarrow> True | y # ys \<Rightarrow> end_of_sack_range y + 1 < start_of_sack_range x) \<and>
      sack_ok xs)"

definition range_of :: "sack_item \<Rightarrow> nat set" where
  "range_of x = {start_of_sack_range x .. end_of_sack_range x}"

definition pns :: "sack_item list \<Rightarrow> nat set" where
  "pns l = (\<Union>x \<in> set l. range_of x)"

lemma pns_simps [simp]:
  "pns [] = {}"
  "pns (x # xs) = {start_of_sack_range x .. end_of_sack_range x} \<union> pns xs"
  "pns (xs @ ys) = pns xs \<union> pns ys"
  by (auto simp: pns_def range_of_def)

lemma sack_ok_below: "sack_ok (x # xs) \<Longrightarrow> n \<in> pns xs \<Longrightarrow> n + 1 < start_of_sack_range x"
proof (induction xs arbitrary: x)
  case (Cons y ys)
  then show ?case by (cases "n \<in> pns ys") (fastforce split: list.splits)+
qed simp

lemma is_pn_loop_spec: "sack_ok l \<Longrightarrow> is_pn_loop l pn \<longleftrightarrow> pn \<in> pns l"
proof (induction l)
  case (Cons x xs)
  then show ?case using sack_ok_below[of x xs pn] by auto
qed simp

text \<open>What is left to be shown of one call of the loop.\<close>

definition loop_spec ::
  "bool \<Rightarrow> sack_item option \<Rightarrow> sack_item list \<Rightarrow> nat \<Rightarrow> nat \<Rightarrow> int \<Rightarrow> int \<times> sack_item list \<Rightarrow> bool" where
  "loop_spec alloc previous l pn64_min pn64_max ret res \<longleftrightarrow>
     (case res of (ret', l') \<Rightarrow>
       sack_ok l' \<and> l' \<noteq> [] \<and>
       (ret' \<noteq> -1 \<longrightarrow> pns l' = pns l \<union> {pn64_min..pn64_max}) \<and>
       (ret' = -1 \<longrightarrow> \<not> alloc) \<and>
       pns l \<subseteq> pns l' \<and> pns l' \<subseteq> pns l \<union> {pn64_min..pn64_max} \<and>
       (ret' = 1 \<longleftrightarrow> ret = 1 \<and> {pn64_min..pn64_max} \<subseteq> pns l) \<and>
       ret' \<in> {-1, 0, 1} \<and>
       (\<forall>p. previous = Some p \<longrightarrow> end_of_sack_range (hd l') = end_of_sack_range p))"

lemma loop_specI:
  assumes "sack_ok l'" "l' \<noteq> []" "r \<in> {-1, 0, 1}" "r = -1 \<longrightarrow> \<not> alloc"
    and "pns l \<subseteq> pns l' \<and> pns l' \<subseteq> pns l \<union> {a..b}"
    and "r \<noteq> -1 \<longrightarrow> pns l' = pns l \<union> {a..b}"
    and "r = 1 \<longleftrightarrow> ret = 1 \<and> {a..b} \<subseteq> pns l"
    and "\<And>p. previous = Some p \<Longrightarrow> end_of_sack_range (hd l') = end_of_sack_range p"
  shows "loop_spec alloc previous l a b ret (r, l')"
  unfolding loop_spec_def prod.case using assms by (intro conjI allI impI) simp_all

lemma loop_spec_ok:
  assumes "sack_ok l'" "l' \<noteq> []" "pns l' = pns l \<union> {a..b}" "\<not> {a..b} \<subseteq> pns l"
    and "\<And>p. previous = Some p \<Longrightarrow> end_of_sack_range (hd l') = end_of_sack_range p"
  shows "loop_spec alloc previous l a b ret (0, l')"
  using assms by (intro loop_specI) simp_all

abbreviation before :: "sack_item option \<Rightarrow> sack_item list" where
  "before previous \<equiv> (case previous of None \<Rightarrow> [] | Some p \<Rightarrow> [p])"

lemma loop_spec_continue:
  assumes rec: "loop_spec alloc (Some cur) (cur # ns) a b' ret' res"
    and ok: "sack_ok (bs @ [cur])" "length bs \<le> 1"
    and hd: "\<And>p. previous = Some p \<Longrightarrow> end_of_sack_range (hd (bs @ [cur])) = end_of_sack_range p"
    and sets: "pns bs \<union> pns (cur # ns) \<union> {a..b'} = pns l \<union> {a..b}" "pns l \<subseteq> pns bs \<union> pns (cur # ns)"
    and r: "ret' = 1 \<and> {a..b'} \<subseteq> pns (cur # ns) \<longleftrightarrow> ret = 1 \<and> {a..b} \<subseteq> pns l"
  shows "loop_spec alloc previous l a b ret (map_prod id (\<lambda>l. bs @ l) res)"
proof -
  obtain r l' where res: "res = (r, l')" by fastforce
  then have l': "sack_ok l'" "l' \<noteq> []" "r \<in> {-1, 0, 1}" "r = -1 \<longrightarrow> \<not> alloc"
    "pns (cur # ns) \<subseteq> pns l'" "pns l' \<subseteq> pns (cur # ns) \<union> {a..b'}"
    "r \<noteq> -1 \<longrightarrow> pns l' = pns (cur # ns) \<union> {a..b'}"
    "r = 1 \<longleftrightarrow> ret' = 1 \<and> {a..b'} \<subseteq> pns (cur # ns)"
    "end_of_sack_range (hd l') = end_of_sack_range cur"
    using rec unfolding loop_spec_def prod.case by blast+
  have "sack_ok (bs @ l')"
    using ok l'(1,2,9) by (cases bs; cases l') (auto split: list.splits)
  moreover have "end_of_sack_range (hd (bs @ l')) = end_of_sack_range (hd (bs @ [cur]))"
    using l'(2,9) by (cases bs) auto
  moreover have "r \<noteq> -1 \<longrightarrow> pns (bs @ l') = pns l \<union> {a..b}"
    using l'(7) sets(1) unfolding pns_simps(3) by (metis sup_assoc)
  moreover have "pns l \<subseteq> pns (bs @ l') \<and> pns (bs @ l') \<subseteq> pns l \<union> {a..b}"
    using l'(5,6) sets unfolding pns_simps(3) by blast
  moreover have "r = 1 \<longleftrightarrow> ret = 1 \<and> {a..b} \<subseteq> pns l"
    using l'(8) r by blast
  ultimately show ?thesis
    unfolding res map_prod_simp id_apply using l'(2,3,4) hd by (intro loop_specI) simp_all
qed

lemma sack_ok_nonempty: "sack_ok (bs @ x # xs) \<Longrightarrow> start_of_sack_range x \<le> end_of_sack_range x"
  by (induction bs) auto

text \<open>The end of an iteration that used up the range down to the start of the current item.\<close>

lemma loop_spec_rest:
  assumes rec: "\<And>n ns. next_sack = n # ns \<Longrightarrow> a < start_of_sack_range cur \<Longrightarrow>
      loop_spec alloc (Some cur) (cur # n # ns) a (start_of_sack_range cur - 1) 0
        (update_sack_loop alloc (Some cur) n ns a (start_of_sack_range cur - 1) 0)"
    and ok: "sack_ok (bs @ cur # next_sack)" "length bs \<le> 1"
    and hd: "\<And>p. previous = Some p \<Longrightarrow> end_of_sack_range (hd (bs @ [cur])) = end_of_sack_range p"
    and bnd: "end_of_sack_range cur < 2 ^ 64"
    and sets: "pns bs \<union> pns (cur # next_sack) \<union> {a..<start_of_sack_range cur} = pns l \<union> {a..b}"
      "pns l \<subseteq> pns bs \<union> pns (cur # next_sack)" "\<not> {a..b} \<subseteq> pns l"
    and e: "a \<le> end_of_sack_range cur + 1"
  shows "loop_spec alloc previous l a b ret
    (if a \<ge> start_of_sack_range cur then (0, bs @ cur # next_sack)
     else case next_sack of
         [] \<Rightarrow> (0, bs @ [cur\<lparr>start_of_sack_range := a\<rparr>])
       | n # ns \<Rightarrow> map_prod id (\<lambda>l. bs @ l)
           (update_sack_loop alloc (Some cur) n ns a (u64_dec (start_of_sack_range cur)) 0))"
proof (cases "a \<ge> start_of_sack_range cur")
  case True
  have "hd (bs @ cur # next_sack) = hd (bs @ [cur])" by (cases bs) auto
  moreover have "pns (bs @ cur # next_sack) = pns l \<union> {a..b}"
    using True sets(1) unfolding pns_simps(3) by simp
  ultimately show ?thesis
    using True ok hd sets(3) by (auto intro!: loop_spec_ok)
next
  case less: False
  show ?thesis
  proof (cases next_sack)
    case Nil
    have hd': "end_of_sack_range (hd (bs @ [cur\<lparr>start_of_sack_range := a\<rparr>])) = end_of_sack_range (hd (bs @ [cur]))"
      by (cases bs) auto
    have "pns (bs @ [cur\<lparr>start_of_sack_range := a\<rparr>]) = pns l \<union> {a..b}"
      using sets(1) less ok(1) Nil sack_ok_nonempty[OF ok(1)] by (auto simp: sup_assoc simp flip: sets(1))
    moreover have "sack_ok (bs @ [cur\<lparr>start_of_sack_range := a\<rparr>])"
      using ok less Nil by (cases bs) auto
    ultimately show ?thesis using less Nil hd hd' sets(3) by (auto intro!: loop_spec_ok)
  next
    case (Cons n ns)
    have "sack_ok (bs @ [cur])" using ok by (cases bs) auto
    moreover have "u64_dec (start_of_sack_range cur) = start_of_sack_range cur - 1"
      using less ok bnd by (intro u64_dec_pos) (cases bs; auto)+
    moreover have "{a..<start_of_sack_range cur} = {a..start_of_sack_range cur - 1}"
      using less by auto
    ultimately show ?thesis
      using loop_spec_continue[OF rec[OF Cons] _ ok(2) hd, of previous l b ret] less Cons sets by simp
  qed
qed

text \<open>
  The branches of one iteration. \<open>loop_pre\<close> is what holds at its start: the range that is left
  ends below the previous item.
\<close>

definition loop_pre :: "sack_item option \<Rightarrow> sack_item \<Rightarrow> sack_item list \<Rightarrow> nat \<Rightarrow> nat \<Rightarrow> bool" where
  "loop_pre previous sack next_sack a b \<longleftrightarrow>
     sack_ok (before previous @ sack # next_sack) \<and> a \<le> b \<and> b + 1 < 2 ^ 64 \<and>
     end_of_sack_range (hd (before previous @ [sack])) + 1 < 2 ^ 64 \<and>
     (\<forall>p. previous = Some p \<longrightarrow> b < start_of_sack_range p)"

lemma loop_preD:
  assumes "loop_pre previous sack next_sack a b"
  shows "a \<le> b" "u64_inc b = b + 1" "u64_inc (end_of_sack_range sack) = end_of_sack_range sack + 1"
    and "sack_ok (sack # next_sack)" "start_of_sack_range sack \<le> end_of_sack_range sack"
    and "sack_ok (before previous @ sack # next_sack)" "end_of_sack_range sack + 1 < 2 ^ 64"
    and "\<And>p. previous = Some p \<Longrightarrow> b < start_of_sack_range p"
    and "\<And>p. previous = Some p \<Longrightarrow> end_of_sack_range p + 1 < 2 ^ 64"
    and "\<And>p. previous = Some p \<Longrightarrow> end_of_sack_range sack + 1 < start_of_sack_range p"
    and "\<And>p. previous = Some p \<Longrightarrow> start_of_sack_range p \<le> end_of_sack_range p"
  using assms by (auto simp: loop_pre_def u64_inc_small split: option.splits)

lemma loop_pre_new:
  assumes "loop_pre previous sack next_sack a b"
    and "b > end_of_sack_range sack \<or> b < start_of_sack_range sack \<and> b \<notin> pns next_sack"
  shows "\<not> {a..b} \<subseteq> pns (before previous @ sack # next_sack)"
proof -
  have "b \<notin> pns (before previous @ sack # next_sack)"
    using assms(2) sack_ok_below[OF loop_preD(4)[OF assms(1)], of b] loop_preD(5,8)[OF assms(1)]
    by (fastforce split: option.splits)
  then show ?thesis using loop_preD(1)[OF assms(1)] by auto
qed

text \<open>The recursive calls, for the chain behind the current item.\<close>

definition loop_rec :: "bool \<Rightarrow> sack_item list \<Rightarrow> nat \<Rightarrow> bool" where
  "loop_rec alloc next_sack a \<longleftrightarrow>
     (\<forall>cur n ns b ret. next_sack = n # ns \<longrightarrow> loop_pre (Some cur) n ns a b \<longrightarrow> ret \<in> {0, 1} \<longrightarrow>
       loop_spec alloc (Some cur) (cur # n # ns) a b ret (update_sack_loop alloc (Some cur) n ns a b ret))"

lemma loop_rec_rest:
  assumes "loop_rec alloc next_sack a" "next_sack = n # ns" "a < start_of_sack_range cur"
    "sack_ok (cur # next_sack)" "end_of_sack_range cur + 1 < 2 ^ 64"
  shows "loop_spec alloc (Some cur) (cur # n # ns) a (start_of_sack_range cur - 1) 0
    (update_sack_loop alloc (Some cur) n ns a (start_of_sack_range cur - 1) 0)"
proof -
  have "loop_pre (Some cur) n ns a (start_of_sack_range cur - 1)"
    using assms by (auto simp: loop_pre_def)
  then show ?thesis using assms(1,2) unfolding loop_rec_def by blast
qed

lemma loop_touch:
  assumes pre: "loop_pre (Some p) sack next_sack a b" and rec: "loop_rec alloc next_sack a"
    and c: "b > end_of_sack_range sack" "a \<le> end_of_sack_range sack + 1" "b + 1 = start_of_sack_range p"
  shows "loop_spec alloc (Some p) (p # sack # next_sack) a b ret
    (update_sack_loop alloc (Some p) sack next_sack a b ret)"
proof -
  note d = loop_preD[OF pre]
  let ?cur = "p\<lparr>start_of_sack_range := start_of_sack_range sack\<rparr>"
  have ok: "sack_ok (?cur # next_sack)" using d(4,5) c d(11)[of p] by (auto split: list.splits)
  have "loop_spec alloc (Some p) (p # sack # next_sack) a b ret
    (if a \<ge> start_of_sack_range ?cur then (0, [] @ ?cur # next_sack)
     else case next_sack of
         [] \<Rightarrow> (0, [] @ [?cur\<lparr>start_of_sack_range := a\<rparr>])
       | n # ns \<Rightarrow> map_prod id (\<lambda>l. [] @ l)
           (update_sack_loop alloc (Some ?cur) n ns a (u64_dec (start_of_sack_range ?cur)) 0))"
  proof (rule loop_spec_rest)
    show "loop_spec alloc (Some ?cur) (?cur # n # ns) a (start_of_sack_range ?cur - 1) 0
        (update_sack_loop alloc (Some ?cur) n ns a (start_of_sack_range ?cur - 1) 0)"
      if "next_sack = n # ns" "a < start_of_sack_range ?cur" for n ns
      using loop_rec_rest[OF rec that ok] d(9)[of p] by simp
    show "\<not> {a..b} \<subseteq> pns (p # sack # next_sack)" using loop_pre_new[OF pre] c by simp
    show "pns [] \<union> pns (?cur # next_sack) \<union> {a..<start_of_sack_range ?cur} = pns (p # sack # next_sack) \<union> {a..b}"
      using c d(5) d(11)[of p] by auto
  qed (use c d(5) d(9,11)[of p] ok in auto)
  then show ?thesis using c d(2,3) by (simp add: update_sack_loop.simps)
qed

lemma loop_grow:
  assumes pre: "loop_pre previous sack next_sack a b" and rec: "loop_rec alloc next_sack a"
    and c: "b > end_of_sack_range sack" "a \<le> end_of_sack_range sack + 1"
    and far: "\<And>p. previous = Some p \<Longrightarrow> b + 1 < start_of_sack_range p"
  shows "loop_spec alloc previous (before previous @ sack # next_sack) a b ret
    (update_sack_loop alloc previous sack next_sack a b ret)"
proof -
  note d = loop_preD[OF pre]
  let ?cur = "sack\<lparr>end_of_sack_range := b\<rparr>"
  have ok: "sack_ok (before previous @ ?cur # next_sack)" "sack_ok (?cur # next_sack)"
    using d(4,5,6) c far by (auto split: option.splits list.splits)
  have "loop_spec alloc previous (before previous @ sack # next_sack) a b ret
    (if a \<ge> start_of_sack_range ?cur then (0, before previous @ ?cur # next_sack)
     else case next_sack of
         [] \<Rightarrow> (0, before previous @ [?cur\<lparr>start_of_sack_range := a\<rparr>])
       | n # ns \<Rightarrow> map_prod id (\<lambda>l. before previous @ l)
           (update_sack_loop alloc (Some ?cur) n ns a (u64_dec (start_of_sack_range ?cur)) 0))" (is "loop_spec _ _ _ _ _ _ ?res")
  proof (rule loop_spec_rest)
    show "loop_spec alloc (Some ?cur) (?cur # n # ns) a (start_of_sack_range ?cur - 1) 0
        (update_sack_loop alloc (Some ?cur) n ns a (start_of_sack_range ?cur - 1) 0)"
      if "next_sack = n # ns" "a < start_of_sack_range ?cur" for n ns
      using loop_rec_rest[OF rec that ok(2)] pre by (simp add: loop_pre_def)
    show "\<not> {a..b} \<subseteq> pns (before previous @ sack # next_sack)" using loop_pre_new[OF pre] c by blast
    have "pns (?cur # next_sack) \<union> {a..<start_of_sack_range ?cur} = pns (sack # next_sack) \<union> {a..b}"
      using c d(5) by auto
    then show "pns (before previous) \<union> pns (?cur # next_sack) \<union> {a..<start_of_sack_range ?cur} =
      pns (before previous @ sack # next_sack) \<union> {a..b}"
      unfolding pns_simps(3) by (simp add: Un_assoc)
    show "end_of_sack_range ?cur < 2 ^ 64" using pre by (simp add: loop_pre_def)
  qed (use c d(5) ok(1) in \<open>auto split: option.splits\<close>)
  moreover have "update_sack_loop alloc previous sack next_sack a b ret = ?res"
    using c d(2,3) far by (cases previous; subst update_sack_loop.simps) (simp_all add: Let_def leD split: list.split)
  ultimately show ?thesis by (simp only:)
qed

lemma loop_extend:
  assumes pre: "loop_pre (Some p) sack next_sack a b"
    and c: "b > end_of_sack_range sack" "a > end_of_sack_range sack + 1" "b + 1 = start_of_sack_range p"
  shows "loop_spec alloc (Some p) (p # sack # next_sack) a b ret
    (update_sack_loop alloc (Some p) sack next_sack a b ret)"
proof -
  note d = loop_preD[OF pre]
  have "loop_spec alloc (Some p) (p # sack # next_sack) a b ret
    (0, p\<lparr>start_of_sack_range := a\<rparr> # sack # next_sack)"
    using c d(1,4) d(11)[of p] loop_pre_new[OF pre] by (intro loop_spec_ok) auto
  then show ?thesis using c d(2,3) by (simp add: update_sack_loop.simps)
qed

lemma loop_fail:
  assumes "sack_ok l" "l \<noteq> []" "\<not> {a..b} \<subseteq> pns l" "\<not> alloc"
    and "\<And>p. previous = Some p \<Longrightarrow> end_of_sack_range (hd l) = end_of_sack_range p"
  shows "loop_spec alloc previous l a b ret (-1, l)"
  using assms by (intro loop_specI) auto

lemma loop_hole:
  assumes pre: "loop_pre previous sack next_sack a b"
    and c: "b > end_of_sack_range sack" "a > end_of_sack_range sack + 1"
    and far: "\<And>p. previous = Some p \<Longrightarrow> b + 1 < start_of_sack_range p"
  shows "loop_spec alloc previous (before previous @ sack # next_sack) a b ret
    (update_sack_loop alloc previous sack next_sack a b ret)"
proof -
  note d = loop_preD[OF pre]
  let ?new = "\<lparr>start_of_sack_range = a, end_of_sack_range = b\<rparr>"
  have "loop_spec alloc previous (before previous @ sack # next_sack) a b ret
    (if \<not> alloc then (-1, before previous @ sack # next_sack)
     else (0, before previous @ ?new # sack # next_sack))" (is "loop_spec _ _ _ _ _ _ ?res")
  proof (cases alloc)
    case True
    have "sack_ok (before previous @ ?new # sack # next_sack)"
      using c d(1,4,6) far by (auto split: option.splits)
    then show ?thesis
      using True loop_pre_new[OF pre] c by (auto intro!: loop_spec_ok split: option.splits)
  next
    case False
    then show ?thesis
      using d(6) loop_pre_new[OF pre] c by (auto intro!: loop_fail split: option.splits)
  qed
  moreover have "update_sack_loop alloc previous sack next_sack a b ret = ?res"
    using c d(2,3) far by (cases previous; subst update_sack_loop.simps) (simp_all add: Let_def leD split: list.split)
  ultimately show ?thesis by (simp only:)
qed

lemma loop_below:
  assumes pre: "loop_pre previous sack next_sack a b" and rec: "loop_rec alloc next_sack a"
    and c: "b \<le> end_of_sack_range sack" "start_of_sack_range sack \<le> b" "a < start_of_sack_range sack"
  shows "loop_spec alloc previous (before previous @ sack # next_sack) a b ret
    (update_sack_loop alloc previous sack next_sack a b ret)"
proof -
  note d = loop_preD[OF pre]
  have gap: "start_of_sack_range sack - 1 \<notin> pns (before previous @ sack # next_sack)"
    using c d(5,10) sack_ok_below[OF d(4), of "start_of_sack_range sack - 1"]
    by (fastforce split: option.splits)
  have "loop_spec alloc previous (before previous @ sack # next_sack) a b ret
    (if a \<ge> start_of_sack_range sack then (0, before previous @ sack # next_sack)
     else case next_sack of
         [] \<Rightarrow> (0, before previous @ [sack\<lparr>start_of_sack_range := a\<rparr>])
       | n # ns \<Rightarrow> map_prod id (\<lambda>l. before previous @ l)
           (update_sack_loop alloc (Some sack) n ns a (u64_dec (start_of_sack_range sack)) 0))" (is "loop_spec _ _ _ _ _ _ ?res")
  proof (rule loop_spec_rest)
    show "loop_spec alloc (Some sack) (sack # n # ns) a (start_of_sack_range sack - 1) 0
        (update_sack_loop alloc (Some sack) n ns a (start_of_sack_range sack - 1) 0)"
      if "next_sack = n # ns" "a < start_of_sack_range sack" for n ns
      using loop_rec_rest[OF rec that d(4) d(7)] .
    have "start_of_sack_range sack - 1 \<in> {a..b}" using c by auto
    with gap show "\<not> {a..b} \<subseteq> pns (before previous @ sack # next_sack)" by blast
    show "pns (before previous) \<union> pns (sack # next_sack) \<union> {a..<start_of_sack_range sack} =
      pns (before previous @ sack # next_sack) \<union> {a..b}"
      unfolding pns_simps(3) using c by auto
  qed (use c d(5,6,7) in \<open>auto split: option.splits\<close>)
  moreover have "update_sack_loop alloc previous sack next_sack a b ret = ?res"
    using c by (cases previous; subst update_sack_loop.simps) (simp_all add: Let_def leD split: list.split)
  ultimately show ?thesis by (simp only:)
qed

lemma loop_dup:
  assumes pre: "loop_pre previous sack next_sack a b" and ret: "ret \<in> {0, 1}"
    and c: "b \<le> end_of_sack_range sack" "start_of_sack_range sack \<le> b" "start_of_sack_range sack \<le> a"
  shows "loop_spec alloc previous (before previous @ sack # next_sack) a b ret
    (update_sack_loop alloc previous sack next_sack a b ret)"
proof -
  have "loop_spec alloc previous (before previous @ sack # next_sack) a b ret
    (ret, before previous @ sack # next_sack)" (is "loop_spec _ _ _ _ _ _ ?res")
    using c ret loop_preD(6)[OF pre] by (intro loop_specI) (auto split: option.splits)
  moreover have "update_sack_loop alloc previous sack next_sack a b ret = ?res"
    using c by (cases previous; subst update_sack_loop.simps) (simp_all add: Let_def leD split: list.split)
  ultimately show ?thesis by (simp only:)
qed

lemma loop_last:
  assumes pre: "loop_pre previous sack [] a b" and c: "b < start_of_sack_range sack"
  shows "loop_spec alloc previous (before previous @ [sack]) a b ret
    (update_sack_loop alloc previous sack [] a b ret)"
proof -
  note d = loop_preD[OF pre]
  let ?new = "\<lparr>start_of_sack_range = a, end_of_sack_range = b\<rparr>"
  have new: "\<not> {a..b} \<subseteq> pns (before previous @ [sack])" using loop_pre_new[OF pre] c by simp
  have "loop_spec alloc previous (before previous @ [sack]) a b ret
    (if b + 1 = start_of_sack_range sack then (0, before previous @ [sack\<lparr>start_of_sack_range := a\<rparr>])
     else if \<not> alloc then (-1, before previous @ [sack])
     else (0, before previous @ [sack, ?new]))" (is "loop_spec _ _ _ _ _ _ ?res")
  proof (cases "b + 1 = start_of_sack_range sack")
    case True
    then show ?thesis
      using new d(1,5,6) by (auto intro!: loop_spec_ok split: option.splits)
  next
    case False
    then show ?thesis
      using new d(1,5,6) c by (auto intro!: loop_spec_ok loop_fail split: option.splits)
  qed
  moreover have "update_sack_loop alloc previous sack [] a b ret = ?res"
    using c d(2,5) by (cases previous; subst update_sack_loop.simps) (simp_all add: Let_def leD split: list.split)
  ultimately show ?thesis by (simp only:)
qed

lemma loop_skip:
  assumes pre: "loop_pre previous sack (n # ns) a b" and rec: "loop_rec alloc (n # ns) a"
    and ret: "ret \<in> {0, 1}" and c: "b < start_of_sack_range sack"
  shows "loop_spec alloc previous (before previous @ sack # n # ns) a b ret
    (update_sack_loop alloc previous sack (n # ns) a b ret)"
proof -
  note d = loop_preD[OF pre]
  have "loop_pre (Some sack) n ns a b" using pre c d(4,7) by (simp add: loop_pre_def)
  then have "loop_spec alloc (Some sack) (sack # n # ns) a b ret
      (update_sack_loop alloc (Some sack) n ns a b ret)"
    using rec ret unfolding loop_rec_def by blast
  then have "loop_spec alloc previous (before previous @ sack # n # ns) a b ret
      (map_prod id (\<lambda>l. before previous @ l) (update_sack_loop alloc (Some sack) n ns a b ret))"
    (is "loop_spec _ _ _ _ _ _ ?res")
  proof (rule loop_spec_continue)
    have "{a..b} \<inter> pns (before previous) = {}"
      using d(8) by (auto split: option.splits)
    then show "ret = 1 \<and> {a..b} \<subseteq> pns (sack # n # ns) \<longleftrightarrow>
      ret = 1 \<and> {a..b} \<subseteq> pns (before previous @ sack # n # ns)"
      unfolding pns_simps(3) by blast
  qed (use d(6) in \<open>auto split: option.splits\<close>)
  moreover have "update_sack_loop alloc previous sack (n # ns) a b ret = ?res"
    using c d(5) by (cases previous; subst update_sack_loop.simps) (simp_all add: Let_def leD split: list.split)
  ultimately show ?thesis by (simp only:)
qed

lemma loop_step:
  assumes pre: "loop_pre previous sack next_sack a b" and rec: "loop_rec alloc next_sack a"
    and ret: "ret \<in> {0, 1}"
  shows "loop_spec alloc previous (before previous @ sack # next_sack) a b ret
    (update_sack_loop alloc previous sack next_sack a b ret)"
proof -
  consider (high) "b > end_of_sack_range sack"
    | (mid) "b \<le> end_of_sack_range sack" "start_of_sack_range sack \<le> b"
    | (low) "b < start_of_sack_range sack"
    by linarith
  then show ?thesis
  proof cases
    case high
    show ?thesis
    proof (cases "\<exists>p. previous = Some p \<and> b + 1 = start_of_sack_range p")
      case True
      then obtain p where p: "previous = Some p" "b + 1 = start_of_sack_range p" by blast
      with loop_touch[OF pre[unfolded p(1)] rec high] loop_extend[OF pre[unfolded p(1)] high]
      show ?thesis by (cases "a \<le> end_of_sack_range sack + 1") auto
    next
      case False
      with loop_preD(8)[OF pre] have "b + 1 < start_of_sack_range p" if "previous = Some p" for p
        using that by (metis Suc_eq_plus1 Suc_lessI)
      with loop_grow[OF pre rec high] loop_hole[OF pre high]
      show ?thesis by (cases "a \<le> end_of_sack_range sack + 1") auto
    qed
  next
    case mid
    with loop_below[OF pre rec] loop_dup[OF pre ret] show ?thesis
      by (cases "a < start_of_sack_range sack") auto
  next
    case low
    with loop_last loop_skip pre rec ret show ?thesis by (cases next_sack) auto
  qed
qed

lemma update_sack_loop_spec:
  "loop_pre previous sack next_sack a b \<Longrightarrow> ret \<in> {0, 1} \<Longrightarrow>
   loop_spec alloc previous (before previous @ sack # next_sack) a b ret
     (update_sack_loop alloc previous sack next_sack a b ret)"
proof (induction next_sack arbitrary: previous sack b ret)
  case Nil
  then show ?case by (intro loop_step) (auto simp: loop_rec_def)
next
  case (Cons n ns)
  have "loop_rec alloc (n # ns) a"
    unfolding loop_rec_def using Cons.IH[of "Some cur" for cur] by auto
  with Cons.prems show ?case by (intro loop_step)
qed

section \<open>The operations on whole lists\<close>

text \<open>The invariant of an embedded list and the packet numbers it stands for.\<close>

definition sacks_inv :: "sack_item list \<Rightarrow> bool" where
  "sacks_inv l \<longleftrightarrow> l \<noteq> [] \<and>
     (start_of_sack_range (hd l) = NO_PN \<and> tl l = [] \<or>
      sack_ok l \<and> end_of_sack_range (hd l) + 1 < 2 ^ 64)"

definition received :: "sack_item list \<Rightarrow> nat set" where
  "received l = (if start_of_sack_range (hd l) = NO_PN then {} else pns l)"

lemma sacks_inv_cases:
  assumes "sacks_inv l"
  obtains sack where "l = [sack]" "start_of_sack_range sack = NO_PN" "received l = {}"
  | sack next_sack where "l = sack # next_sack" "start_of_sack_range sack \<noteq> NO_PN" "sack_ok l"
      "end_of_sack_range sack + 1 < 2 ^ 64" "received l = pns l"
proof (cases l)
  case (Cons sack next_sack)
  with assms that show ?thesis
    by (cases "start_of_sack_range sack = NO_PN") (auto simp: sacks_inv_def received_def NO_PN_def)
qed (use assms in \<open>simp add: sacks_inv_def\<close>)

lemma received_ok:
  "sack_ok l \<Longrightarrow> l \<noteq> [] \<Longrightarrow> pns l \<subseteq> {..<NO_PN} \<Longrightarrow> sacks_inv l \<and> received l = pns l"
  by (cases l) (auto simp: sacks_inv_def received_def NO_PN_def)

lemma received_bound: "sacks_inv l \<Longrightarrow> received l \<subseteq> {..<NO_PN}"
proof (erule sacks_inv_cases)
  fix sack next_sack
  assume "l = sack # next_sack" "sack_ok l" "end_of_sack_range sack + 1 < 2 ^ 64" "received l = pns l"
  then show "received l \<subseteq> {..<NO_PN}"
    using sack_ok_below[of sack next_sack] by (fastforce simp: NO_PN_def)
qed simp

lemma update_sack_list_spec:
  assumes inv: "sacks_inv l" and ab: "a \<le> b" "b < NO_PN"
  shows "\<exists>ret l'. picoquic_update_sack_list alloc l a b = Some (ret, l') \<and> sacks_inv l' \<and>
    ret \<in> {-1, 0, 1} \<and> (ret = 1 \<longleftrightarrow> {a..b} \<subseteq> received l) \<and> (ret = -1 \<longrightarrow> \<not> alloc) \<and>
    (ret \<noteq> -1 \<longrightarrow> received l' = received l \<union> {a..b}) \<and>
    received l \<subseteq> received l' \<and> received l' \<subseteq> received l \<union> {a..b}"
  using inv
proof (rule sacks_inv_cases)
  fix sack assume "l = [sack]" "start_of_sack_range sack = NO_PN" "received l = {}"
  with ab show ?thesis
    by (auto simp: picoquic_update_sack_list_def sacks_inv_def received_def NO_PN_def)
next
  fix sack next_sack
  assume l: "l = sack # next_sack" "start_of_sack_range sack \<noteq> NO_PN" "sack_ok l"
    "end_of_sack_range sack + 1 < 2 ^ 64" "received l = pns l"
  obtain ret l' where res: "update_sack_loop alloc None sack next_sack a b 1 = (ret, l')" by fastforce
  have "loop_pre None sack next_sack a b" using l ab by (simp add: loop_pre_def NO_PN_def)
  from update_sack_loop_spec[OF this, of 1 alloc] have spec: "loop_spec alloc None l a b 1 (ret, l')"
    using l(1) res by simp
  then have sub: "pns l' \<subseteq> pns l \<union> {a..b}" "sack_ok l'" "l' \<noteq> []"
    by (auto simp: loop_spec_def)
  have "pns l' \<subseteq> {..<NO_PN}"
    using sub(1) received_bound[OF inv] l(5) ab by auto
  with received_ok[OF sub(2,3)] have "sacks_inv l'" "received l' = pns l'" by auto
  moreover have "picoquic_update_sack_list alloc l a b = Some (ret, l')"
    using l(1,2) res by (simp add: picoquic_update_sack_list_def)
  ultimately show ?thesis
    using spec unfolding loop_spec_def prod.case l(5) by (intro exI[of _ ret] exI[of _ l']) (simp, blast)
qed

lemma is_pn_already_received_spec:
  "sacks_inv (first_sack_item c) \<Longrightarrow>
   picoquic_is_pn_already_received c pn = Some (pn \<in> received (first_sack_item c))"
  by (erule sacks_inv_cases)
    (simp_all add: picoquic_is_pn_already_received_def is_pn_loop_spec del: is_pn_loop.simps sack_ok.simps pns_simps)

lemma check_sack_loop_spec:
  "sack_ok (sack # next_sack) \<Longrightarrow> a \<le> b \<Longrightarrow>
   check_sack_loop sack next_sack a b = (if {a..b} \<subseteq> pns (sack # next_sack) then -1 else 0)"
proof (induction next_sack arbitrary: sack)
  case Nil
  then show ?case by (auto simp: check_sack_loop.simps)
next
  case (Cons n ns)
  have below: "x \<in> pns (n # ns) \<Longrightarrow> x + 1 < start_of_sack_range sack" for x
    by (rule sack_ok_below[OF Cons.prems(1)])
  consider "b > end_of_sack_range sack" | "b \<le> end_of_sack_range sack" "start_of_sack_range sack \<le> b"
    | "b < start_of_sack_range sack" by linarith
  then show ?case
  proof cases
    case 1
    then have "b \<notin> pns (sack # n # ns)" using below[of b] Cons.prems by fastforce
    with 1 Cons.prems(2) show ?thesis by (auto simp: check_sack_loop.simps[of sack])
  next
    case 2
    have "start_of_sack_range sack - 1 \<notin> pns (sack # n # ns)" if "a < start_of_sack_range sack"
      using below[of "start_of_sack_range sack - 1"] that by fastforce
    moreover have "start_of_sack_range sack - 1 \<in> {a..b}" if "a < start_of_sack_range sack"
      using that 2 by auto
    ultimately have "\<not> {a..b} \<subseteq> pns (sack # n # ns)" if "a < start_of_sack_range sack"
      using that by blast
    moreover have "{a..b} \<subseteq> pns (sack # n # ns)" if "\<not> a < start_of_sack_range sack"
      using that 2 by auto
    ultimately show ?thesis using 2 by (simp add: check_sack_loop.simps[of sack] leD del: pns_simps)
  next
    case 3
    then have "{a..b} \<inter> {start_of_sack_range sack..end_of_sack_range sack} = {}" by auto
    then have "{a..b} \<subseteq> pns (sack # n # ns) \<longleftrightarrow> {a..b} \<subseteq> pns (n # ns)" unfolding pns_simps(2)[of sack] by blast
    moreover have "check_sack_loop sack (n # ns) a b = check_sack_loop n ns a b"
      using 3 Cons.prems(1) by (simp add: check_sack_loop.simps[of sack])
    ultimately show ?thesis using Cons by simp
  qed
qed

text \<open>When no memory can be had for a single number the list stays as it is.\<close>

lemma update_sack_loop_failed:
  "sack_ok (sack # next_sack) \<Longrightarrow> end_of_sack_range sack + 1 < 2 ^ 64 \<Longrightarrow> n + 1 < 2 ^ 64 \<Longrightarrow> ret \<in> {0, 1} \<Longrightarrow>
   update_sack_loop alloc previous sack next_sack n n ret = (-1, l') \<Longrightarrow> l' = before previous @ sack # next_sack"
proof (induction next_sack arbitrary: previous sack ret l')
  case Nil
  note res = Nil.prems(5)[unfolded update_sack_loop.simps[of alloc previous sack "[]"]]
  have "u64_inc (end_of_sack_range sack) = end_of_sack_range sack + 1" "start_of_sack_range sack \<le> end_of_sack_range sack"
    using Nil.prems by (auto simp: u64_inc_def)
  with res Nil.prems(4) show ?case by (cases previous) (auto simp: Let_def split: if_splits)
next
  case (Cons y ys)
  note res = Cons.prems(5)[unfolded update_sack_loop.simps[of alloc previous sack "y # ys"]]
  have ok: "u64_inc (end_of_sack_range sack) = end_of_sack_range sack + 1" "start_of_sack_range sack \<le> end_of_sack_range sack"
    using Cons.prems by (auto simp: u64_inc_def)
  show ?case
  proof (cases "n < start_of_sack_range sack")
    case True
    obtain r l where l: "update_sack_loop alloc (Some sack) y ys n n ret = (r, l)" by fastforce
    with res True ok have "r = -1" "l' = before previous @ l"
      by (cases previous; simp add: Let_def)+
    with Cons.IH[of y ret "Some sack" l] Cons.prems l show ?thesis by simp
  next
    case False
    with res ok Cons.prems(4) show ?thesis by (cases previous) (auto simp: Let_def split: if_splits)
  qed
qed

section \<open>A log of packet numbers\<close>

text \<open>
  The treatment of incoming packets in \<open>picoquic_parse_header_and_decrypt\<close> and
  \<open>picoquic_incoming_segment\<close>: a packet that the query reports as received is dropped, another one
  is processed and then recorded. Every packet comes with the outcome of the allocation that its
  recording may need; the result is the list of the packets that were accepted, each with the
  result of recording it, and the last state.
\<close>

fun accept_all ::
  "('c \<Rightarrow> nat \<Rightarrow> bool option) \<Rightarrow> (bool \<Rightarrow> 'c \<Rightarrow> nat \<Rightarrow> (int \<times> 'c) option) \<Rightarrow> 'c \<Rightarrow> (nat \<times> bool) list \<Rightarrow>
   ((nat \<times> int) list \<times> 'c) option" where
  "accept_all seen note_pn c [] = Some ([], c)"
| "accept_all seen note_pn c ((n, alloc) # ns) = do {
     dup \<leftarrow> seen c n;
     if dup then accept_all seen note_pn c ns
     else do {
       (ret, c) \<leftarrow> note_pn alloc c n;
       (acc, c) \<leftarrow> accept_all seen note_pn c ns;
       Some ((n, ret) # acc, c) } }"

text \<open>
  What the packet processing relies on: a query tells whether a number is in the log, and
  recording a number adds it and tells whether it was new, or fails for lack of memory and leaves
  the log as it is.
\<close>

locale pn_log =
  fixes inv :: "'c \<Rightarrow> bool"
    and logged :: "'c \<Rightarrow> nat set"
    and valid :: "nat \<Rightarrow> bool"
    and seen :: "'c \<Rightarrow> nat \<Rightarrow> bool option"
    and note_pn :: "bool \<Rightarrow> 'c \<Rightarrow> nat \<Rightarrow> (int \<times> 'c) option"
  assumes seen_logged: "inv c \<Longrightarrow> seen c n = Some (n \<in> logged c)"
    and note_logged: "inv c \<Longrightarrow> valid n \<Longrightarrow>
      \<exists>ret c'. note_pn alloc c n = Some (ret, c') \<and> inv c' \<and>
        (ret = -1 \<and> \<not> alloc \<and> n \<notin> logged c \<and> logged c' = logged c \<or>
         ret = (if n \<in> logged c then 1 else 0) \<and> logged c' = insert n (logged c))"
begin

text \<open>A number that was recorded is not accepted again.\<close>

definition no_replay :: "(nat \<times> int) list \<Rightarrow> bool" where
  "no_replay acc \<longleftrightarrow> (\<forall>i j. i < j \<longrightarrow> j < length acc \<longrightarrow> fst (acc ! i) = fst (acc ! j) \<longrightarrow> snd (acc ! i) = -1)"

lemma no_replay_Cons:
  assumes "no_replay acc" "ret \<noteq> -1 \<longrightarrow> n \<notin> fst ` set acc"
  shows "no_replay ((n, ret) # acc)"
  unfolding no_replay_def
proof (intro allI impI)
  fix i j assume ij: "i < j" "j < length ((n, ret) # acc)" "fst (((n, ret) # acc) ! i) = fst (((n, ret) # acc) ! j)"
  then obtain j' where j: "j = Suc j'" "j' < length acc" by (cases j) auto
  show "snd (((n, ret) # acc) ! i) = -1"
  proof (cases i)
    case 0
    then show ?thesis using ij(3) j assms(2) by (auto simp: image_iff dest!: nth_mem[of j'])
  next
    case (Suc i')
    then show ?thesis using ij j assms(1) by (auto simp: no_replay_def)
  qed
qed

lemma accept_all_spec:
  "inv c \<Longrightarrow> \<forall>n \<in> fst ` set ns. valid n \<Longrightarrow>
   \<exists>acc c'. accept_all seen note_pn c ns = Some (acc, c') \<and> inv c' \<and> no_replay acc \<and>
     fst ` set acc = fst ` set ns - logged c \<and> logged c' = logged c \<union> {n. (n, 0) \<in> set acc} \<and>
     (\<forall>(n, ret) \<in> set acc. ret = 0 \<or> ret = -1 \<and> (n, False) \<in> set ns)"
proof (induction ns arbitrary: c)
  case (Cons x ns)
  obtain n alloc where x: "x = (n, alloc)" by fastforce
  show ?case
  proof (cases "n \<in> logged c")
    case True
    with Cons.IH[OF Cons.prems(1)] Cons.prems seen_logged[OF Cons.prems(1), of n] show ?thesis
      by (fastforce simp: x)
  next
    case False
    obtain ret c1 where c1: "note_pn alloc c n = Some (ret, c1)" "inv c1"
      "ret = -1 \<and> \<not> alloc \<and> logged c1 = logged c \<or> ret = 0 \<and> logged c1 = insert n (logged c)"
      using note_logged[OF Cons.prems(1), of n alloc] Cons.prems(2) False by (auto simp: x)
    obtain acc c' where acc: "accept_all seen note_pn c1 ns = Some (acc, c')" "inv c'" "no_replay acc"
      "fst ` set acc = fst ` set ns - logged c1" "logged c' = logged c1 \<union> {n. (n, 0) \<in> set acc}"
      "\<forall>(n, ret) \<in> set acc. ret = 0 \<or> ret = -1 \<and> (n, False) \<in> set ns"
      using Cons.IH[OF c1(2)] Cons.prems(2) by auto
    have "no_replay ((n, ret) # acc)" using acc(3,4) c1(3) by (intro no_replay_Cons) auto
    moreover have "fst ` set ((n, ret) # acc) = fst ` set (x # ns) - logged c"
      using acc(4) c1(3) False by (auto simp: x)
    moreover have "logged c' = logged c \<union> {k. (k, 0) \<in> set ((n, ret) # acc)}" using acc(5) c1(3) by auto
    moreover have "\<forall>(k, r) \<in> set ((n, ret) # acc). r = 0 \<or> r = -1 \<and> (k, False) \<in> set (x # ns)"
      using acc(6) c1(3) by (auto simp: x)
    moreover have "accept_all seen note_pn c (x # ns) = Some ((n, ret) # acc, c')"
      using c1(1) acc(1) False seen_logged[OF Cons.prems(1), of n] by (simp add: x)
    ultimately show ?thesis using acc(2) by (intro exI conjI)
  qed
qed (simp add: no_replay_def)

lemma no_replay_distinct:
  assumes "no_replay acc" "\<forall>(n, ret) \<in> set acc. ret \<noteq> -1"
  shows "distinct (map fst acc)"
  unfolding distinct_conv_nth
proof (intro allI impI)
  fix i j assume "i < length (map fst acc)" "j < length (map fst acc)" "i \<noteq> j"
  moreover have "snd (acc ! k) \<noteq> -1" if "k < length acc" for k
    using assms(2) nth_mem[OF that] by (auto simp: case_prod_beta)
  moreover have "snd (acc ! i) = -1 \<or> snd (acc ! j) = -1" if "fst (acc ! i) = fst (acc ! j)" "i < length acc" "j < length acc" "i \<noteq> j"
    using assms(1) that unfolding no_replay_def by (cases i j rule: linorder_cases) auto
  ultimately show "map fst acc ! i \<noteq> map fst acc ! j" by auto
qed

end

lemma record_pn_received_spec:
  assumes inv: "sacks_inv (first_sack_item c)" and n: "n < NO_PN"
  shows "\<exists>ret c'. picoquic_record_pn_received alloc c n t = Some (ret, c') \<and>
    sacks_inv (first_sack_item c') \<and>
    (ret = -1 \<and> \<not> alloc \<and> n \<notin> received (first_sack_item c) \<and>
       received (first_sack_item c') = received (first_sack_item c) \<or>
     ret = (if n \<in> received (first_sack_item c) then 1 else 0) \<and>
       received (first_sack_item c') = insert n (received (first_sack_item c)))"
  using inv
proof (rule sacks_inv_cases)
  fix sack assume "first_sack_item c = [sack]" "start_of_sack_range sack = NO_PN"
    "received (first_sack_item c) = {}"
  with n show ?thesis
    by (auto simp: picoquic_record_pn_received_def sacks_inv_def received_def NO_PN_def)
next
  fix sack next_sack
  assume l: "first_sack_item c = sack # next_sack" "start_of_sack_range sack \<noteq> NO_PN" "sack_ok (first_sack_item c)"
    "end_of_sack_range sack + 1 < 2 ^ 64"
  obtain ret l' where l': "picoquic_update_sack_list alloc (first_sack_item c) n n = Some (ret, l')"
    "sacks_inv l'" "ret \<noteq> -1 \<longrightarrow> received l' = insert n (received (first_sack_item c))"
    "ret \<in> {-1, 0, 1}" "ret = -1 \<longrightarrow> \<not> alloc" "ret = 1 \<longleftrightarrow> n \<in> received (first_sack_item c)"
    using update_sack_list_spec[OF inv, of n n alloc] n by auto
  have "l' = first_sack_item c" if "ret = -1"
    using update_sack_loop_failed[of sack next_sack n 1 alloc None l'] that l l'(1) n
    by (auto simp: picoquic_update_sack_list_def NO_PN_def)
  with l l' show ?thesis by (auto simp: picoquic_record_pn_received_def)
qed

interpretation pkt_ctx_log: pn_log "\<lambda>c. sacks_inv (first_sack_item c)"
  "\<lambda>c. received (first_sack_item c)" "\<lambda>n. n < NO_PN" picoquic_is_pn_already_received
  "\<lambda>alloc c n. picoquic_record_pn_received alloc c n t" for t
  by unfold_locales (auto simp: is_pn_already_received_spec record_pn_received_spec)

lemma float16_loop_spec:
  "float16_loop d e = (m, e') \<Longrightarrow> m < 4096 \<and> e \<le> e' \<and> m = d div 2 ^ (e' - e) \<and> (e < e' \<longrightarrow> 2048 \<le> m)"
proof (induction d e rule: float16_loop.induct)
  case (1 d e)
  show ?case
  proof (cases "d > 0x0FFF")
    case True
    with "1.prems" have "float16_loop (drop_bit 1 d) (e + 1) = (m, e')"
      by (simp add: float16_loop.simps[of d])
    from "1.IH"[OF True this] have ih: "m < 4096" "e + 1 \<le> e'" "m = drop_bit 1 d div 2 ^ (e' - (e + 1))"
      "e + 1 < e' \<longrightarrow> 2048 \<le> m" by auto
    have "(2::nat) ^ (e' - e) = 2 * 2 ^ (e' - (e + 1))" using ih(2) by (metis Suc_diff_le Suc_eq_plus1 diff_Suc_Suc power_Suc)
    then have "m = d div 2 ^ (e' - e)" using ih(3) by (simp only: drop_bit_eq_div div_mult2_eq power_one_right)
    moreover have "2048 \<le> m"
    proof (cases "e + 1 < e'")
      case False
      then have "e' = e + 1" using ih(2) by simp
      with ih(3) True show ?thesis by (simp add: drop_bit_eq_div)
    qed (use ih in simp)
    ultimately show ?thesis using ih by simp
  next
    case False
    with "1.prems" show ?thesis by (auto simp: float16_loop.simps[of d])
  qed
qed

lemma float16_loop_value:
  assumes "m < 4096" "2048 \<le> m \<or> k = 0"
  shows "float16_loop (m * 2 ^ k) e = (m, e + k)"
  using assms
proof (induction k arbitrary: e)
  case 0
  then show ?case by (simp add: float16_loop.simps)
next
  case (Suc k)
  then have "2048 \<le> m" by simp
  then have "m * 2 ^ Suc k > 0x0FFF"
  proof -
    have "2048 * 2 \<le> m * (2 * 2 ^ k)" using \<open>2048 \<le> m\<close> by (intro mult_le_mono) auto
    then show ?thesis by simp
  qed
  moreover have "drop_bit 1 (m * 2 ^ Suc k) = m * 2 ^ k" by (simp add: drop_bit_eq_div)
  ultimately show ?case using Suc.IH[of "e + 1"] \<open>2048 \<le> m\<close> Suc.prems
    by (subst float16_loop.simps) simp
qed

lemmas float16_bits = and_mask_nat[of _ 11, simplified] and_exp_nat[of _ 11, simplified]
  or_shift_nat[of _ 11, simplified]

lemma to_deltat_eq:
  assumes "x < 65536"
  shows "picoquic_float16_to_deltat x =
    (if x < 2048 then x else (x mod 2048 + 2048) * 2 ^ (x div 2048 - 1))"
proof -
  have "x mod 2048 OR 2048 = x mod 2048 + 2048"
    using float16_bits(3)[of "x mod 2048" 1] by (simp add: push_bit_eq_mult)
  moreover have "x div 2048 - 1 \<le> 30" using assms by auto
  then have "(x mod 2048 + 2048) * 2 ^ (x div 2048 - 1) < 4096 * 2 ^ 31"
    by (intro mult_less_le_imp_less power_increasing) auto
  ultimately show ?thesis using assms
    by (simp add: picoquic_float16_to_deltat_def Let_def float16_bits drop_bit_eq_div push_bit_eq_mult
        take_bit_nat_eq_self div_greater_zero_iff)
qed

lemma to_float16_eq:
  assumes "float16_loop d 0 = (m, e)"
  shows "picoquic_deltat_to_float16 d =
    (if e > 30 then 65535 else if 2048 \<le> m then m - 2048 + (e + 1) * 2048 else m)"
proof -
  from float16_loop_spec[OF assms] have m: "m < 4096" by simp
  then have odd: "odd (m div 2048) \<longleftrightarrow> 2048 \<le> m"
    by (metis div_less dvd_0_right linorder_not_less div_nat_eqI mult_1 numeral_eq_one_iff odd_one Suc_1 One_nat_def mult.commute mult_2_right numeral_Bit0 Suc_eq_plus1)
  have "m mod 2048 = m - 2048" if "2048 \<le> m" using m that by (simp add: mod_if)
  with assms m odd show ?thesis
    by (auto simp: picoquic_deltat_to_float16_def float16_bits take_bit_nat_eq_self)
qed

lemma float16_roundtrip:
  assumes "x < 65536"
  shows "picoquic_deltat_to_float16 (picoquic_float16_to_deltat x) = x"
proof (cases "x < 2048")
  case True
  then show ?thesis using float16_loop_value[of x 0 0] assms to_deltat_eq[OF assms] to_float16_eq[of x x 0]
    by simp
next
  case False
  define e where "e = x div 2048 - 1"
  define m where "m = x mod 2048 + 2048"
  have e: "e \<le> 30" using assms by (auto simp: e_def)
  have "float16_loop (m * 2 ^ e) 0 = (m, e)"
    using float16_loop_value[of m e 0] by (simp add: m_def)
  moreover have "(e + 1) * 2048 + x mod 2048 = x"
    using False by (simp add: e_def)
  ultimately show ?thesis
    using to_float16_eq e False to_deltat_eq[OF assms] by (simp add: m_def e_def)
qed

lemma float16_value:
  assumes d: "d < 2 ^ 42" and l: "float16_loop d 0 = (m, e)"
  shows "picoquic_float16_to_deltat (picoquic_deltat_to_float16 d) = d div 2 ^ e * 2 ^ e"
    and "e = 0 \<or> 2048 \<le> d div 2 ^ e"
proof -
  from float16_loop_spec[OF l] have m: "m < 4096" "m = d div 2 ^ e" "0 < e \<longrightarrow> 2048 \<le> m" by auto
  show "e = 0 \<or> 2048 \<le> d div 2 ^ e" using m by auto
  have e: "e \<le> 30"
  proof (rule ccontr)
    assume "\<not> e \<le> 30"
    then have "(2::nat) ^ 31 \<le> 2 ^ e" by (intro power_increasing) auto
    moreover have "2048 * 2 ^ e \<le> d" using m \<open>\<not> e \<le> 30\<close> by (metis gr_zeroI le0 mult_le_mono1 div_times_less_eq_dividend le_trans)
    ultimately show False using d by simp
  qed
  show "picoquic_float16_to_deltat (picoquic_deltat_to_float16 d) = d div 2 ^ e * 2 ^ e"
  proof (cases "2048 \<le> m")
    case True
    define x where "x = m - 2048 + (e + 1) * 2048"
    obtain r where r: "m = 2048 + r" "r < 2048" using True m(1) by (metis add_less_cancel_left le_Suc_ex numeral_Bit0)
    then have x: "x = r + (e + 1) * 2048" by (simp add: x_def)
    have "x mod 2048 = m - 2048" using r by (simp only: x mod_mult_self1 mod_less diff_add_inverse)
    moreover have "x div 2048 = e + 1" using r by (simp add: x)
    moreover have "x < 65536" "\<not> x < 2048" using m(1) e True by (auto simp: x_def)
    ultimately show ?thesis
      using to_float16_eq[OF l] to_deltat_eq[of x] True e m by (simp add: x_def)
  next
    case False
    then have "e = 0" using m by simp
    then show ?thesis using False m to_float16_eq[OF l] to_deltat_eq[of m] by simp
  qed
qed
section \<open>Properties\<close>

text \<open>
  C22. Recording a range of packet numbers in a valid list never loses a number and never adds one
  outside the range; the list stays sorted, without empty or adjacent ranges. When memory for a
  new item is available the range is recorded completely, and the return code is 1 exactly when
  the whole range had been received before; the code -1 is returned only when memory ran out.
\<close>

theorem update_sack_list_correct:
  assumes "sacks_inv l" and "pn64_min \<le> pn64_max" and "pn64_max < NO_PN"
  shows "\<exists>ret l'. picoquic_update_sack_list alloc l pn64_min pn64_max = Some (ret, l') \<and>
    sacks_inv l' \<and> ret \<in> {-1, 0, 1} \<and>
    (ret = 1 \<longleftrightarrow> {pn64_min..pn64_max} \<subseteq> received l) \<and> (ret = -1 \<longrightarrow> \<not> alloc) \<and>
    (ret \<noteq> -1 \<longrightarrow> received l' = received l \<union> {pn64_min..pn64_max}) \<and>
    received l \<subseteq> received l' \<and> received l' \<subseteq> received l \<union> {pn64_min..pn64_max}"
  using assms by (rule update_sack_list_spec)

theorem update_sack_list_correct_witness:
  "\<exists>l'. picoquic_update_sack_list True
      [\<lparr>start_of_sack_range = 8, end_of_sack_range = 9\<rparr>, \<lparr>start_of_sack_range = 2, end_of_sack_range = 3\<rparr>] 1 7
      = Some (0, l') \<and> sacks_inv l' \<and> received l' = {1..9}"
proof -
  let ?l = "[\<lparr>start_of_sack_range = 8, end_of_sack_range = 9\<rparr>, \<lparr>start_of_sack_range = 2, end_of_sack_range = 3\<rparr>]"
  have inv: "sacks_inv ?l" by (simp add: sacks_inv_def)
  have rcv: "received ?l = {8..9} \<union> {2..3}" by (simp add: received_def NO_PN_def)
  from update_sack_list_correct[OF inv, of 1 7 True] obtain ret l' where
    r: "picoquic_update_sack_list True ?l 1 7 = Some (ret, l')" "sacks_inv l'" "ret \<in> {-1, 0, 1}"
      "ret = 1 \<longleftrightarrow> {1..7} \<subseteq> received ?l" "ret \<noteq> -1" "received l' = received ?l \<union> {1..7}"
    by (auto simp: NO_PN_def)
  have "5 \<notin> received ?l" unfolding rcv by simp
  then have "\<not> {1..7} \<subseteq> received ?l" using subsetD[of "{1..7}" "received ?l" 5] by auto
  with r(3-5) have "ret = 0" by blast
  moreover have "received l' = {1..9}" unfolding r(6) rcv by auto
  ultimately show ?thesis using r by blast
qed

text \<open>
  C23. Replay protection, for any sequence of packets and any outcome of the allocations: every
  number that had not been received before is accepted, a number that had been received is never
  accepted, and a packet is accepted a second time only if recording it failed the first time for
  lack of memory; without failed allocations the accepted packets are pairwise different.
  Afterwards the list holds the numbers received before and those that were recorded.
\<close>

theorem accepted_packets_distinct:
  assumes "sacks_inv (first_sack_item c)" and "\<forall>(n, alloc) \<in> set ns. n < NO_PN"
  shows "\<exists>acc c'. accept_all picoquic_is_pn_already_received
      (\<lambda>alloc c n. picoquic_record_pn_received alloc c n current_microsec) c ns = Some (acc, c') \<and>
    (\<forall>i j. i < j \<longrightarrow> j < length acc \<longrightarrow> fst (acc ! i) = fst (acc ! j) \<longrightarrow> snd (acc ! i) = -1) \<and>
    (\<forall>(n, ret) \<in> set acc. ret = 0 \<or> ret = -1 \<and> (n, False) \<in> set ns) \<and>
    ((\<forall>(n, alloc) \<in> set ns. alloc) \<longrightarrow> distinct (map fst acc)) \<and>
    fst ` set acc = fst ` set ns - received (first_sack_item c) \<and>
    received (first_sack_item c') = received (first_sack_item c) \<union> {n. (n, 0) \<in> set acc}"
proof -
  have "\<forall>n \<in> fst ` set ns. n < NO_PN" using assms(2) by auto
  from pkt_ctx_log.accept_all_spec[OF assms(1) this, of current_microsec] obtain acc c' where
    acc: "accept_all picoquic_is_pn_already_received
      (\<lambda>alloc c n. picoquic_record_pn_received alloc c n current_microsec) c ns = Some (acc, c')"
    "pkt_ctx_log.no_replay acc" "\<forall>(n, ret) \<in> set acc. ret = 0 \<or> ret = -1 \<and> (n, False) \<in> set ns"
    "fst ` set acc = fst ` set ns - received (first_sack_item c)"
    "received (first_sack_item c') = received (first_sack_item c) \<union> {n. (n, 0) \<in> set acc}" by blast
  have "distinct (map fst acc)" if "\<forall>(n, alloc) \<in> set ns. alloc"
    using pkt_ctx_log.no_replay_distinct[OF acc(2)] acc(3) that by fastforce
  with acc show ?thesis unfolding pkt_ctx_log.no_replay_def by blast
qed

theorem accepted_packets_distinct_witness:
  "\<exists>acc c'. accept_all picoquic_is_pn_already_received
      (\<lambda>alloc c n. picoquic_record_pn_received alloc c n 0)
      \<lparr>first_sack_item = [\<lparr>start_of_sack_range = NO_PN, end_of_sack_range = 0\<rparr>],
       time_stamp_largest_received = 0\<rparr> [(4, True), (2, True), (4, True), (3, True)] = Some (acc, c') \<and>
    distinct (map fst acc) \<and> fst ` set acc = {2, 3, 4}"
proof -
  let ?c = "\<lparr>first_sack_item = [\<lparr>start_of_sack_range = NO_PN, end_of_sack_range = 0\<rparr>],
       time_stamp_largest_received = 0\<rparr>"
  have "sacks_inv (first_sack_item ?c)" "received (first_sack_item ?c) = {}"
    by (simp_all add: sacks_inv_def received_def)
  with accepted_packets_distinct[of ?c "[(4, True), (2, True), (4, True), (3, True)]" 0] show ?thesis
    by (auto simp: NO_PN_def insert_commute)
qed

text \<open>
  C24. The check whether a range of data fills a hole returns -1 exactly when all of the range is
  in the list, and 0 otherwise.
\<close>

theorem check_sack_list_correct:
  assumes "sacks_inv l" and "pn64_min \<le> pn64_max"
  shows "picoquic_check_sack_list l pn64_min pn64_max =
    Some (if {pn64_min..pn64_max} \<subseteq> received l then -1 else 0)"
  using assms(1)
  by (rule sacks_inv_cases) (use assms(2) in \<open>simp_all add: picoquic_check_sack_list_def check_sack_loop_spec\<close>)

theorem check_sack_list_correct_witness:
  "picoquic_check_sack_list [\<lparr>start_of_sack_range = 5, end_of_sack_range = 9\<rparr>] 6 8 = Some (-1) \<and>
   picoquic_check_sack_list [\<lparr>start_of_sack_range = 5, end_of_sack_range = 9\<rparr>] 4 8 = Some 0"
  using check_sack_list_correct[of "[\<lparr>start_of_sack_range = 5, end_of_sack_range = 9\<rparr>]" 6 8]
    check_sack_list_correct[of "[\<lparr>start_of_sack_range = 5, end_of_sack_range = 9\<rparr>]" 4 8]
  by (auto simp: sacks_inv_def received_def NO_PN_def)

text \<open>
  C25. The float16 format is exact in one direction and accurate in the other: every 16-bit value
  survives decoding and encoding, and a delay below \<open>2\<^sup>4\<^sup>2\<close> that is encoded and decoded is
  rounded down by at most one part in 2048.
\<close>

theorem float16_correct:
  "(x < 65536 \<longrightarrow> picoquic_deltat_to_float16 (picoquic_float16_to_deltat x) = x) \<and>
   (d < 2 ^ 42 \<longrightarrow>
     (let d' = picoquic_float16_to_deltat (picoquic_deltat_to_float16 d) in
      d' \<le> d \<and> (d - d') * 2048 \<le> d))"
proof (intro conjI impI)
  show "picoquic_deltat_to_float16 (picoquic_float16_to_deltat x) = x" if "x < 65536"
    using that by (rule float16_roundtrip)
next
  assume d: "d < 2 ^ 42"
  obtain m e where "float16_loop d 0 = (m, e)" by fastforce
  note v = float16_value[OF d this]
  have "d - d div 2 ^ e * 2 ^ e = d mod 2 ^ e" by (simp add: minus_div_mult_eq_mod)
  moreover have "d mod 2 ^ e * 2048 \<le> d"
  proof (cases "e = 0")
    case False
    then have "2048 * 2 ^ e \<le> d div 2 ^ e * 2 ^ e" using v(2) by (intro mult_le_mono) auto
    also have "\<dots> \<le> d" by simp
    finally have "2 ^ e * 2048 \<le> d" by simp
    then show ?thesis
      by (meson le_trans less_imp_le_nat mod_less_divisor mult_le_mono1 zero_less_numeral zero_less_power)
  qed simp
  ultimately show "let d' = picoquic_float16_to_deltat (picoquic_deltat_to_float16 d) in
      d' \<le> d \<and> (d - d') * 2048 \<le> d"
    by (simp add: v(1) Let_def)
qed

theorem float16_correct_witness:
  "picoquic_deltat_to_float16 (picoquic_float16_to_deltat 0x8123) = 0x8123 \<and>
   picoquic_float16_to_deltat (picoquic_deltat_to_float16 1000001) \<le> 1000001"
  using float16_correct[of "0x8123" 1000001] by (simp add: Let_def)

end
