(* ===== verification/Ebpf.thy ===== *)
theory Ebpf
  imports Prelude "HOL-Library.Numeral_Type"
begin

text \<open>
  The eBPF instruction set of \<^verbatim>\<open>ubpf/vm/ebpf.h\<close> and the interpreter of \<^verbatim>\<open>ubpf/vm/ubpf_vm.c\<close>
  (\<open>ubpf_exec_with_arg\<close>), on which plugins run.

  An instruction keeps the fields of \<open>struct ebpf_inst\<close> at their widths; the opcode byte is a
  value of the datatype \<open>ebpf_op\<close>, and \<open>opcode_value\<close> gives the byte the macros of the header
  define. A step of the interpreter either continues, returns from the function, or meets
  something C does not define: reading an instruction beyond the program, dividing by zero,
  shifting by too much or calling a missing function. The host is little-endian.
\<close>

section \<open>Instructions\<close>

datatype src_kind = IMM | REG

datatype alu_op = ADD | SUB | MUL | DIV | OR' | AND' | LSH | RSH | MOD | XOR' | MOV | ARSH

datatype jmp_op = JEQ | JGT | JGE | JSET | JNE | JSGT | JSGE | JLT | JLE | JSLT | JSLE

datatype mem_size = W | H | B | DW

datatype ebpf_op =
    ALU alu_op src_kind
  | NEG
  | LE
  | BE
  | ALU64 alu_op src_kind
  | NEG64
  | LDX mem_size
  | ST mem_size
  | STX mem_size
  | LDDW
  | JA
  | JMP jmp_op src_kind
  | CALL
  | EXIT
  | ZERO
  | OTHER u8

record ebpf_inst =
  opcode :: ebpf_op
  dst :: "4 word"
  src :: "4 word"
  offset :: u16
  imm :: u32

fun src_value :: "src_kind \<Rightarrow> u8" where
  "src_value IMM = 0x00"
| "src_value REG = 0x08"

fun size_value :: "mem_size \<Rightarrow> u8" where
  "size_value W = 0x00"
| "size_value H = 0x08"
| "size_value B = 0x10"
| "size_value DW = 0x18"

fun alu_value :: "alu_op \<Rightarrow> u8" where
  "alu_value ADD = 0x00"
| "alu_value SUB = 0x10"
| "alu_value MUL = 0x20"
| "alu_value DIV = 0x30"
| "alu_value OR' = 0x40"
| "alu_value AND' = 0x50"
| "alu_value LSH = 0x60"
| "alu_value RSH = 0x70"
| "alu_value MOD = 0x90"
| "alu_value XOR' = 0xa0"
| "alu_value MOV = 0xb0"
| "alu_value ARSH = 0xc0"

fun jmp_value :: "jmp_op \<Rightarrow> u8" where
  "jmp_value JEQ = 0x10"
| "jmp_value JGT = 0x20"
| "jmp_value JGE = 0x30"
| "jmp_value JSET = 0x40"
| "jmp_value JNE = 0x50"
| "jmp_value JSGT = 0x60"
| "jmp_value JSGE = 0x70"
| "jmp_value JLT = 0xa0"
| "jmp_value JLE = 0xb0"
| "jmp_value JSLT = 0xc0"
| "jmp_value JSLE = 0xd0"

fun opcode_value :: "ebpf_op \<Rightarrow> u8" where
  "opcode_value (ALU op k) = 0x04 OR src_value k OR alu_value op"
| "opcode_value NEG = 0x04 OR 0x80"
| "opcode_value LE = 0x04 OR 0x00 OR 0xd0"
| "opcode_value BE = 0x04 OR 0x08 OR 0xd0"
| "opcode_value (ALU64 op k) = 0x07 OR src_value k OR alu_value op"
| "opcode_value NEG64 = 0x07 OR 0x80"
| "opcode_value (LDX sz) = 0x01 OR 0x60 OR size_value sz"
| "opcode_value (ST sz) = 0x02 OR 0x60 OR size_value sz"
| "opcode_value (STX sz) = 0x03 OR 0x60 OR size_value sz"
| "opcode_value LDDW = 0x00 OR 0x00 OR 0x18"
| "opcode_value JA = 0x05 OR 0x00"
| "opcode_value (JMP op k) = 0x05 OR src_value k OR jmp_value op"
| "opcode_value CALL = 0x05 OR 0x80"
| "opcode_value EXIT = 0x05 OR 0x90"
| "opcode_value ZERO = 0"
| "opcode_value (OTHER b) = b"

section \<open>The machine\<close>

definition STACK_SIZE :: nat where "STACK_SIZE = 2048"

definition MAX_EXT_FUNCS :: nat where "MAX_EXT_FUNCS = 128"

definition UINT64_MAX :: u64 where "UINT64_MAX = - 1"

type_synonym memory = "u64 \<Rightarrow> u8"

text \<open>An external function gets the five argument registers and may change memory.\<close>

type_synonym ext_func = "u64 \<Rightarrow> u64 \<Rightarrow> u64 \<Rightarrow> u64 \<Rightarrow> u64 \<Rightarrow> memory \<Rightarrow> u64 \<times> memory"

record ubpf_vm =
  insts :: "ebpf_inst list option"
  num_insts :: nat
  ext_funcs :: "nat \<Rightarrow> ext_func option"
  ext_func_names :: "nat \<Rightarrow> string option"

record exec_state =
  pc :: u16
  reg :: "4 word \<Rightarrow> u64"
  heap :: memory

text \<open>The memory areas of one execution: context and stack.\<close>

record exec_env =
  mem :: u64
  mem_len :: u64
  stack :: u64

datatype fault = FetchOutOfRange | DivisionByZero | ShiftOutOfRange | MissingFunction

datatype outcome = Next exec_state | Return u64 | Undefined fault

section \<open>Arithmetic\<close>

definition u32 :: "u64 \<Rightarrow> u32" where "u32 x = ucast x"

definition imm64 :: "u32 \<Rightarrow> u64" where "imm64 i = scast i"

definition off64 :: "u16 \<Rightarrow> u64" where "off64 i = scast i"

text \<open>The operand of an instruction: a register or the sign-extended immediate.\<close>

fun operand :: "src_kind \<Rightarrow> ebpf_inst \<Rightarrow> (4 word \<Rightarrow> u64) \<Rightarrow> u64" where
  "operand IMM inst r = imm64 (imm inst)"
| "operand REG inst r = r (src inst)"

text \<open>\<open>None\<close> is an operation C leaves undefined.\<close>

fun alu64 :: "alu_op \<Rightarrow> u64 \<Rightarrow> u64 \<Rightarrow> u64 option" where
  "alu64 ADD d s = Some (d + s)"
| "alu64 SUB d s = Some (d - s)"
| "alu64 MUL d s = Some (d * s)"
| "alu64 DIV d s = (if s = 0 then None else Some (d div s))"
| "alu64 OR' d s = Some (d OR s)"
| "alu64 AND' d s = Some (d AND s)"
| "alu64 LSH d s = (if s < 64 then Some (push_bit (unat s) d) else None)"
| "alu64 RSH d s = (if s < 64 then Some (drop_bit (unat s) d) else None)"
| "alu64 MOD d s = (if s = 0 then None else Some (d mod s))"
| "alu64 XOR' d s = Some (d XOR s)"
| "alu64 MOV d s = Some s"
| "alu64 ARSH d s = (if s < 64 then Some (signed_drop_bit (unat s) d) else None)"

fun alu32 :: "alu_op \<Rightarrow> u64 \<Rightarrow> u64 \<Rightarrow> u64 option" where
  "alu32 ADD d s = Some ((d + s) AND 0xFFFFFFFF)"
| "alu32 SUB d s = Some ((d - s) AND 0xFFFFFFFF)"
| "alu32 MUL d s = Some ((d * s) AND 0xFFFFFFFF)"
| "alu32 DIV d s = (if u32 s = 0 then None else Some (ucast (u32 d div u32 s) AND 0xFFFFFFFF))"
| "alu32 OR' d s = Some ((d OR s) AND 0xFFFFFFFF)"
| "alu32 AND' d s = Some ((d AND s) AND 0xFFFFFFFF)"
| "alu32 LSH d s = (if s < 64 then Some (push_bit (unat s) d AND 0xFFFFFFFF) else None)"
| "alu32 RSH d s = (if s < 32 then Some (ucast (drop_bit (unat s) (u32 d)) AND 0xFFFFFFFF) else None)"
| "alu32 MOD d s = (if u32 s = 0 then None else Some (ucast (u32 d mod u32 s)))"
| "alu32 XOR' d s = Some ((d XOR s) AND 0xFFFFFFFF)"
| "alu32 MOV d s = Some (s AND 0xFFFFFFFF)"
| "alu32 ARSH d s =
     (if u32 s < 32 then Some (scast (signed_drop_bit (unat (u32 s)) (u32 d)) AND 0xFFFFFFFF) else None)"

definition division :: "alu_op \<Rightarrow> bool" where
  "division op \<longleftrightarrow> op = DIV \<or> op = MOD"

text \<open>Byte order conversion of the low \<open>n\<close> bytes.\<close>

definition htole :: "nat \<Rightarrow> u64 \<Rightarrow> u64" where
  "htole n x = value_of (bytes_of n x)"

definition htobe :: "nat \<Rightarrow> u64 \<Rightarrow> u64" where
  "htobe n x = value_of (rev (bytes_of n x))"

definition swap_bytes :: "(nat \<Rightarrow> u64 \<Rightarrow> u64) \<Rightarrow> u32 \<Rightarrow> u64 \<Rightarrow> u64" where
  "swap_bytes conv i x =
     (if i = 16 then conv 2 x else if i = 32 then conv 4 x else if i = 64 then conv 8 x else x)"

fun jump_taken :: "jmp_op \<Rightarrow> src_kind \<Rightarrow> ebpf_inst \<Rightarrow> (4 word \<Rightarrow> u64) \<Rightarrow> bool" where
  "jump_taken JEQ k inst r = (r (dst inst) = operand k inst r)"
| "jump_taken JGT IMM inst r = (r (dst inst) > ucast (imm inst))"
| "jump_taken JGT REG inst r = (r (dst inst) > r (src inst))"
| "jump_taken JGE IMM inst r = (r (dst inst) \<ge> ucast (imm inst))"
| "jump_taken JGE REG inst r = (r (dst inst) \<ge> r (src inst))"
| "jump_taken JLT IMM inst r = (r (dst inst) < ucast (imm inst))"
| "jump_taken JLT REG inst r = (r (dst inst) < r (src inst))"
| "jump_taken JLE IMM inst r = (r (dst inst) \<le> ucast (imm inst))"
| "jump_taken JLE REG inst r = (r (dst inst) \<le> r (src inst))"
| "jump_taken JSET k inst r = (r (dst inst) AND operand k inst r \<noteq> 0)"
| "jump_taken JNE k inst r = (r (dst inst) \<noteq> operand k inst r)"
| "jump_taken JSGT k inst r = (sint (r (dst inst)) > sint (operand k inst r))"
| "jump_taken JSGE k inst r = (sint (r (dst inst)) \<ge> sint (operand k inst r))"
| "jump_taken JSLT k inst r = (sint (r (dst inst)) < sint (operand k inst r))"
| "jump_taken JSLE k inst r = (sint (r (dst inst)) \<le> sint (operand k inst r))"

section \<open>Memory\<close>

fun size_bytes :: "mem_size \<Rightarrow> nat" where
  "size_bytes W = 4"
| "size_bytes H = 2"
| "size_bytes B = 1"
| "size_bytes DW = 8"

definition bounds_check :: "exec_env \<Rightarrow> u64 \<Rightarrow> nat \<Rightarrow> bool" where
  "bounds_check env addr sz \<longleftrightarrow>
     mem env \<noteq> 0 \<and> addr \<ge> mem env \<and> addr + of_nat sz \<le> mem env + mem_len env \<or>
     addr \<ge> stack env \<and> addr + of_nat sz \<le> stack env + of_nat STACK_SIZE"

definition load_mem :: "memory \<Rightarrow> u64 \<Rightarrow> nat \<Rightarrow> u64" where
  "load_mem h addr sz = value_of (map (\<lambda>i. h (addr + of_nat i)) [0..<sz])"

fun write_bytes :: "memory \<Rightarrow> u64 \<Rightarrow> u8 list \<Rightarrow> memory" where
  "write_bytes h addr [] = h"
| "write_bytes h addr (b # bs) = write_bytes (h(addr := b)) (addr + 1) bs"

definition store_mem :: "memory \<Rightarrow> u64 \<Rightarrow> nat \<Rightarrow> u64 \<Rightarrow> memory" where
  "store_mem h addr sz v = write_bytes h addr (bytes_of sz v)"

section \<open>One instruction\<close>

definition set_reg :: "exec_state \<Rightarrow> 4 word \<Rightarrow> u64 \<Rightarrow> exec_state" where
  "set_reg s r v = s\<lparr>reg := (reg s)(r := v)\<rparr>"

definition exec_alu ::
  "(alu_op \<Rightarrow> u64 \<Rightarrow> u64 \<Rightarrow> u64 option) \<Rightarrow> alu_op \<Rightarrow> src_kind \<Rightarrow> ebpf_inst \<Rightarrow> exec_state \<Rightarrow> outcome" where
  "exec_alu f op k inst s =
     (if division op \<and> k = REG \<and> reg s (src inst) = 0 then Return UINT64_MAX
      else case f op (reg s (dst inst)) (operand k inst (reg s)) of
          None \<Rightarrow> Undefined (if division op then DivisionByZero else ShiftOutOfRange)
        | Some v \<Rightarrow> Next (set_reg s (dst inst) v))"

definition exec_store :: "exec_env \<Rightarrow> mem_size \<Rightarrow> ebpf_inst \<Rightarrow> u64 \<Rightarrow> exec_state \<Rightarrow> outcome" where
  "exec_store env sz inst v s =
     (let addr = reg s (dst inst) + off64 (offset inst) in
      if \<not> bounds_check env addr (size_bytes sz) then Return UINT64_MAX
      else Next (s\<lparr>heap := store_mem (heap s) addr (size_bytes sz) v\<rparr>))"

definition exec_call :: "ubpf_vm \<Rightarrow> ebpf_inst \<Rightarrow> exec_state \<Rightarrow> outcome" where
  "exec_call vm inst s =
     (if sint (imm inst) < 0 \<or> unat (imm inst) \<ge> MAX_EXT_FUNCS then Undefined MissingFunction
      else case ext_funcs vm (unat (imm inst)) of
          None \<Rightarrow> Undefined MissingFunction
        | Some f \<Rightarrow>
            (let (v, h) = f (reg s 1) (reg s 2) (reg s 3) (reg s 4) (reg s 5) (heap s) in
             Next (set_reg (s\<lparr>heap := h\<rparr>) 0 v)))"

text \<open>
  The body of the loop: \<open>s\<close> is the state after \<open>pc\<close> was incremented, \<open>prog\<close> the program that
  the second half of a \<open>lddw\<close> is read from.
\<close>

fun exec_inst :: "ubpf_vm \<Rightarrow> exec_env \<Rightarrow> ebpf_inst list \<Rightarrow> ebpf_inst \<Rightarrow> ebpf_op \<Rightarrow> exec_state \<Rightarrow> outcome" where
  "exec_inst vm env prog inst (ALU op k) s = exec_alu alu32 op k inst s"
| "exec_inst vm env prog inst NEG s =
     Next (set_reg s (dst inst) (- reg s (dst inst) AND 0xFFFFFFFF))"
| "exec_inst vm env prog inst LE s =
     Next (set_reg s (dst inst) (swap_bytes htole (imm inst) (reg s (dst inst))))"
| "exec_inst vm env prog inst BE s =
     Next (set_reg s (dst inst) (swap_bytes htobe (imm inst) (reg s (dst inst))))"
| "exec_inst vm env prog inst (ALU64 op k) s = exec_alu alu64 op k inst s"
| "exec_inst vm env prog inst NEG64 s = Next (set_reg s (dst inst) (- reg s (dst inst)))"
| "exec_inst vm env prog inst (LDX sz) s =
     (let addr = reg s (src inst) + off64 (offset inst) in
      if \<not> bounds_check env addr (size_bytes sz) then Return UINT64_MAX
      else Next (set_reg s (dst inst) (load_mem (heap s) addr (size_bytes sz))))"
| "exec_inst vm env prog inst (ST sz) s = exec_store env sz inst (imm64 (imm inst)) s"
| "exec_inst vm env prog inst (STX sz) s = exec_store env sz inst (reg s (src inst)) s"
| "exec_inst vm env prog inst LDDW s =
     (if unat (pc s) \<ge> length prog then Undefined FetchOutOfRange
      else Next (set_reg (s\<lparr>pc := pc s + 1\<rparr>) (dst inst)
        (ucast (imm inst) OR push_bit 32 (imm64 (imm (prog ! unat (pc s)))))))"
| "exec_inst vm env prog inst JA s = Next (s\<lparr>pc := pc s + offset inst\<rparr>)"
| "exec_inst vm env prog inst (JMP op k) s =
     Next (if jump_taken op k inst (reg s) then s\<lparr>pc := pc s + offset inst\<rparr> else s)"
| "exec_inst vm env prog inst CALL s = exec_call vm inst s"
| "exec_inst vm env prog inst EXIT s = Return (reg s 0)"
| "exec_inst vm env prog inst ZERO s = Next s"
| "exec_inst vm env prog inst (OTHER b) s = Next s"

definition exec_step :: "ubpf_vm \<Rightarrow> exec_env \<Rightarrow> ebpf_inst list \<Rightarrow> exec_state \<Rightarrow> outcome" where
  "exec_step vm env prog s =
     (if unat (pc s) \<ge> length prog then Undefined FetchOutOfRange
      else let inst = prog ! unat (pc s) in
        exec_inst vm env prog inst (opcode inst) (s\<lparr>pc := pc s + 1\<rparr>))"

text \<open>The loop, for at most \<open>n\<close> instructions; \<open>None\<close> when it is still running after them.\<close>

fun exec_loop :: "nat \<Rightarrow> ubpf_vm \<Rightarrow> exec_env \<Rightarrow> ebpf_inst list \<Rightarrow> exec_state \<Rightarrow> (fault + u64) option" where
  "exec_loop 0 vm env prog s = None"
| "exec_loop (Suc n) vm env prog s =
     (case exec_step vm env prog s of
        Next s' \<Rightarrow> exec_loop n vm env prog s'
      | Return v \<Rightarrow> Some (Inr v)
      | Undefined f \<Rightarrow> Some (Inl f))"

text \<open>\<open>r\<close> and \<open>h\<close> are the values of the registers and of memory at the start.\<close>

definition ubpf_exec_with_arg ::
  "nat \<Rightarrow> ubpf_vm \<Rightarrow> u64 \<Rightarrow> exec_env \<Rightarrow> (4 word \<Rightarrow> u64) \<Rightarrow> memory \<Rightarrow> (fault + u64) option" where
  "ubpf_exec_with_arg n vm arg env r h =
     (case insts vm of
        None \<Rightarrow> Some (Inr UINT64_MAX)
      | Some prog \<Rightarrow>
          exec_loop n vm env prog
            \<lparr>pc = 0, reg = r(1 := arg, 10 := stack env + of_nat STACK_SIZE), heap = h\<rparr>)"

definition ubpf_exec ::
  "nat \<Rightarrow> ubpf_vm \<Rightarrow> exec_env \<Rightarrow> (4 word \<Rightarrow> u64) \<Rightarrow> memory \<Rightarrow> (fault + u64) option" where
  "ubpf_exec n vm env r h = ubpf_exec_with_arg n vm (mem env) env r h"

end
