(* ===== verification/UbpfLoad.thy ===== *)
theory UbpfLoad
  imports Ebpf
begin

text \<open>
  Loading a plugin into a virtual machine, from \<^verbatim>\<open>ubpf/vm/ubpf_vm.c\<close>: the registration of the
  functions a plugin may call, the static validation of its code, and the rewriting that puts a
  block of twenty instructions in front of every load and store not based on the stack pointer,
  which lets only addresses of the plugin memory or of the stack pass.
\<close>

section \<open>The virtual machine\<close>

definition MAX_INSTS :: nat where "MAX_INSTS = 65536"
definition MAX_LOAD_STORE :: nat where "MAX_LOAD_STORE = 2 * 2048"
definition ADDED_LOAD_STORE_INSTS :: nat where "ADDED_LOAD_STORE_INSTS = 20"
definition OOB_CALL :: u32 where "OOB_CALL = 0x7f"

text \<open>The arguments say which of the three allocations succeed.\<close>

definition ubpf_create :: "bool \<Rightarrow> bool \<Rightarrow> bool \<Rightarrow> ubpf_vm option" where
  "ubpf_create alloc_vm alloc_funcs alloc_names =
     (if \<not> alloc_vm then None
      else if \<not> alloc_funcs then None
      else if \<not> alloc_names then None
      else Some \<lparr>insts = None, num_insts = 0, ext_funcs = (\<lambda>i. None), ext_func_names = (\<lambda>i. None)\<rparr>)"

definition ubpf_register :: "ubpf_vm \<Rightarrow> nat \<Rightarrow> string \<Rightarrow> ext_func option \<Rightarrow> int \<times> ubpf_vm" where
  "ubpf_register vm idx name fn =
     (if idx \<ge> MAX_EXT_FUNCS then (-1, vm)
      else (0, vm\<lparr>ext_funcs := (ext_funcs vm)(idx := fn),
                  ext_func_names := (ext_func_names vm)(idx := Some name)\<rparr>))"

text \<open>The function returns -1 as an unsigned integer when there is no such name.\<close>

definition ubpf_lookup_registered_function :: "ubpf_vm \<Rightarrow> string \<Rightarrow> u32" where
  "ubpf_lookup_registered_function vm name =
     (case find (\<lambda>i. ext_func_names vm i = Some name) [0..<MAX_EXT_FUNCS] of
        Some i \<Rightarrow> of_nat i
      | None \<Rightarrow> -1)"

section \<open>Validation\<close>

datatype load_error =
    AlreadyLoaded
  | BadCodeLength
  | OutOfMemory
  | TooManyInstructions
  | NoExit
  | InvalidEndian nat
  | TooManyLoadStore
  | CrushesStack nat
  | IncompleteLddw nat
  | InfiniteLoop nat
  | JumpOutOfBounds nat
  | JumpIntoLddw nat
  | InvalidCall nat
  | NonexistentFunction nat
  | DivisionByZeroImm nat
  | UnknownOpcode nat
  | InvalidSource nat
  | InvalidDestination nat

definition is_store :: "ebpf_inst \<Rightarrow> bool" where
  "is_store inst \<longleftrightarrow> (case opcode inst of ST _ \<Rightarrow> True | STX _ \<Rightarrow> True | _ \<Rightarrow> False)"

definition is_load :: "ebpf_inst \<Rightarrow> bool" where
  "is_load inst \<longleftrightarrow> (case opcode inst of LDX _ \<Rightarrow> True | _ \<Rightarrow> False)"

definition is_jump :: "ebpf_inst \<Rightarrow> bool" where
  "is_jump inst \<longleftrightarrow> (case opcode inst of JA \<Rightarrow> True | JMP _ _ \<Rightarrow> True | _ \<Rightarrow> False)"

text \<open>The register a memory access is based on.\<close>

definition base :: "ebpf_inst \<Rightarrow> 4 word" where
  "base inst = (if is_load inst then src inst else dst inst)"

text \<open>An access that the rewriting guards: its base is not the stack pointer.\<close>

definition guarded :: "ebpf_inst \<Rightarrow> bool" where
  "guarded inst \<longleftrightarrow> (is_load inst \<or> is_store inst) \<and> base inst \<noteq> 10"

text \<open>The cases of the switch; \<open>i\<close> is the index of the instruction, \<open>n\<close> the number of accesses so far.\<close>

definition validate_jump :: "ebpf_inst list \<Rightarrow> nat \<Rightarrow> ebpf_inst \<Rightarrow> load_error option" where
  "validate_jump prog i inst =
     (if sint (offset inst) = -1 then Some (InfiniteLoop i)
      else let new_pc = int i + 1 + sint (offset inst) in
        if new_pc < 0 \<or> new_pc \<ge> int (length prog) then Some (JumpOutOfBounds i)
        else if opcode (prog ! nat new_pc) = ZERO then Some (JumpIntoLddw i)
        else None)"

definition validate_access :: "nat \<Rightarrow> nat \<Rightarrow> ebpf_inst \<Rightarrow> load_error option" where
  "validate_access i n inst =
     (if base inst \<noteq> 10 then
        (if n \<ge> MAX_LOAD_STORE then Some TooManyLoadStore else None)
      else if sint (offset inst) > 0 \<or> sint (offset inst) < - int STACK_SIZE
      then Some (CrushesStack i) else None)"

definition validate_alu :: "nat \<Rightarrow> alu_op \<Rightarrow> src_kind \<Rightarrow> ebpf_inst \<Rightarrow> load_error option" where
  "validate_alu i op k inst =
     (if division op \<and> k = IMM \<and> imm inst = 0 then Some (DivisionByZeroImm i) else None)"

definition validate_call :: "ubpf_vm \<Rightarrow> nat \<Rightarrow> ebpf_inst \<Rightarrow> load_error option" where
  "validate_call vm i inst =
     (if sint (imm inst) < 0 \<or> sint (imm inst) \<ge> int MAX_EXT_FUNCS then Some (InvalidCall i)
      else if Option.is_none (ext_funcs vm (unat (imm inst))) then Some (NonexistentFunction i)
      else None)"

fun validate_op ::
  "ubpf_vm \<Rightarrow> ebpf_inst list \<Rightarrow> nat \<Rightarrow> nat \<Rightarrow> ebpf_inst \<Rightarrow> ebpf_op \<Rightarrow> load_error option" where
  "validate_op vm prog i n inst (ALU op k) = validate_alu i op k inst"
| "validate_op vm prog i n inst NEG = None"
| "validate_op vm prog i n inst LE =
     (if imm inst \<noteq> 16 \<and> imm inst \<noteq> 32 \<and> imm inst \<noteq> 64 then Some (InvalidEndian i) else None)"
| "validate_op vm prog i n inst BE =
     (if imm inst \<noteq> 16 \<and> imm inst \<noteq> 32 \<and> imm inst \<noteq> 64 then Some (InvalidEndian i) else None)"
| "validate_op vm prog i n inst (ALU64 op k) = validate_alu i op k inst"
| "validate_op vm prog i n inst NEG64 = None"
| "validate_op vm prog i n inst (LDX sz) = validate_access i n inst"
| "validate_op vm prog i n inst (ST sz) = validate_access i n inst"
| "validate_op vm prog i n inst (STX sz) = validate_access i n inst"
| "validate_op vm prog i n inst LDDW =
     (if i + 1 \<ge> length prog \<or> opcode (prog ! (i + 1)) \<noteq> ZERO then Some (IncompleteLddw i) else None)"
| "validate_op vm prog i n inst JA = validate_jump prog i inst"
| "validate_op vm prog i n inst (JMP op k) = validate_jump prog i inst"
| "validate_op vm prog i n inst CALL = validate_call vm i inst"
| "validate_op vm prog i n inst EXIT = None"
| "validate_op vm prog i n inst ZERO = Some (UnknownOpcode i)"
| "validate_op vm prog i n inst (OTHER b) = Some (UnknownOpcode i)"

definition validate_inst :: "ubpf_vm \<Rightarrow> ebpf_inst list \<Rightarrow> nat \<Rightarrow> nat \<Rightarrow> load_error option" where
  "validate_inst vm prog i n =
     (let inst = prog ! i in
      case validate_op vm prog i n inst (opcode inst) of
        Some e \<Rightarrow> Some e
      | None \<Rightarrow>
          let i = (if opcode inst = LDDW then i + 1 else i) in
          if src inst > 10 then Some (InvalidSource i)
          else if dst inst > 9 \<and> \<not> (is_store inst \<and> dst inst = 10) then Some (InvalidDestination i)
          else None)"

text \<open>
  The loop over the instructions; the second half of a \<open>lddw\<close> is skipped. The result on success
  is the list \<open>rewrite_pcs\<close> of the accesses to guard.
\<close>

function validate_loop :: "ubpf_vm \<Rightarrow> ebpf_inst list \<Rightarrow> nat \<Rightarrow> nat list \<Rightarrow> load_error + nat list" where
  "validate_loop vm prog i rewrite_pcs =
     (if i \<ge> length prog then Inr rewrite_pcs
      else case validate_inst vm prog i (length rewrite_pcs) of
          Some e \<Rightarrow> Inl e
        | None \<Rightarrow>
            validate_loop vm prog (if opcode (prog ! i) = LDDW then i + 2 else i + 1)
              (if guarded (prog ! i) then rewrite_pcs @ [i] else rewrite_pcs))"
  by pat_completeness auto
termination
  by (relation "measure (\<lambda>(vm, prog, i, rewrite_pcs). length prog - i)") auto

definition validate :: "ubpf_vm \<Rightarrow> ebpf_inst list \<Rightarrow> load_error + nat list" where
  "validate vm prog =
     (if length prog \<ge> MAX_INSTS then Inl TooManyInstructions
      else if \<not> list_ex (\<lambda>inst. opcode inst = EXIT) prog then Inl NoExit
      else validate_loop vm prog 0 [])"

section \<open>Rewriting\<close>

abbreviation ebpf :: "ebpf_op \<Rightarrow> 4 word \<Rightarrow> 4 word \<Rightarrow> u16 \<Rightarrow> u32 \<Rightarrow> ebpf_inst" where
  "ebpf op d s off i \<equiv> \<lparr>opcode = op, dst = d, src = s, offset = off, imm = i\<rparr>"

text \<open>The twenty instructions in front of an access based on register \<open>b\<close> with offset \<open>off\<close>.\<close>

definition memcheck :: "u64 \<Rightarrow> u32 \<Rightarrow> 4 word \<Rightarrow> u16 \<Rightarrow> ebpf_inst list" where
  "memcheck memory_ptr memory_size b off =
     (let memory_ptr_top = memory_ptr + ucast memory_size in
      [ebpf LDDW 11 0 0 (ucast (memory_ptr_top AND 0xFFFFFFFF)),
       ebpf ZERO 0 0 0 (ucast (drop_bit 32 memory_ptr_top)),
       ebpf (ALU64 SUB REG) 11 b 0 0,
       ebpf (ALU64 SUB IMM) 11 0 0 (scast off),
       ebpf (JMP JSGE IMM) 11 0 1 0,
       ebpf JA 0 0 1 0,
       ebpf (JMP JLE IMM) 11 0 13 memory_size,
       ebpf (ALU64 MOV REG) 11 b 0 0,
       ebpf (ALU64 ADD IMM) 11 0 0 (scast off),
       ebpf (JMP JLE REG) 11 10 1 0,
       ebpf JA 0 0 2 0,
       ebpf (ALU64 ADD IMM) 11 0 0 (of_nat STACK_SIZE),
       ebpf (JMP JGE REG) 11 10 7 0,
       ebpf (ALU64 MOV REG) 1 b 0 0,
       ebpf (ALU64 ADD IMM) 1 0 0 (scast off),
       ebpf LDDW 2 0 0 (ucast (memory_ptr AND 0xFFFFFFFF)),
       ebpf ZERO 0 0 0 (ucast (drop_bit 32 memory_ptr)),
       ebpf (ALU64 MOV REG) 3 10 0 0,
       ebpf CALL 0 0 0 OOB_CALL,
       ebpf EXIT 0 0 0 0])"

text \<open>The two loops that adapt the offset of a jump, forward and backward.\<close>

fun offset_forward :: "nat list \<Rightarrow> nat \<Rightarrow> int \<Rightarrow> u16 \<Rightarrow> u16" where
  "offset_forward [] i off new_offset = new_offset"
| "offset_forward (p # ps) i off new_offset =
     (if int p < int i + 1 + off then
        offset_forward ps i off
          (if p \<ge> i + 1 \<and> int p < int i + 1 + off
           then new_offset + of_nat ADDED_LOAD_STORE_INSTS else new_offset)
      else new_offset)"

fun offset_backward :: "nat list \<Rightarrow> nat \<Rightarrow> int \<Rightarrow> u16 \<Rightarrow> u16" where
  "offset_backward [] i off new_offset = new_offset"
| "offset_backward (p # ps) i off new_offset =
     (if p < i + 1 then
        offset_backward ps i off
          (if int p \<ge> int i + 1 + off \<and> p < i + 1
           then new_offset - of_nat ADDED_LOAD_STORE_INSTS else new_offset)
      else new_offset)"

definition new_offset :: "nat list \<Rightarrow> nat \<Rightarrow> u16 \<Rightarrow> u16" where
  "new_offset rewrite_pcs i off =
     (if sint off > 0 then offset_forward rewrite_pcs i (sint off) off
      else if sint off < 0 then offset_backward rewrite_pcs i (sint off) off
      else off)"

definition rewrite_inst :: "u64 \<Rightarrow> u32 \<Rightarrow> nat list \<Rightarrow> nat \<Rightarrow> ebpf_inst \<Rightarrow> ebpf_inst list" where
  "rewrite_inst memory_ptr memory_size rewrite_pcs i inst =
     (if is_load inst \<or> is_store inst then
        (if base inst \<noteq> 10 then memcheck memory_ptr memory_size (base inst) (offset inst) else [])
        @ [inst]
      else if is_jump inst then [inst\<lparr>offset := new_offset rewrite_pcs i (offset inst)\<rparr>]
      else [inst])"

definition rewrite_with_memchecks :: "ebpf_inst list \<Rightarrow> u64 \<Rightarrow> u32 \<Rightarrow> nat list \<Rightarrow> ebpf_inst list" where
  "rewrite_with_memchecks prog memory_ptr memory_size rewrite_pcs =
     concat (map (\<lambda>(i, inst). rewrite_inst memory_ptr memory_size rewrite_pcs i inst)
       (enumerate 0 prog))"

section \<open>Loading\<close>

text \<open>
  \<open>code\<close> is the code as instructions and \<open>code_len\<close> its length in bytes; \<open>num_insts\<close> is stored in
  16 bits.
\<close>

definition ubpf_load ::
  "bool \<Rightarrow> ubpf_vm \<Rightarrow> ebpf_inst list \<Rightarrow> nat \<Rightarrow> u64 \<Rightarrow> u32 \<Rightarrow> load_error + ubpf_vm" where
  "ubpf_load alloc vm code code_len memory_ptr memory_size =
     (if insts vm \<noteq> None then Inl AlreadyLoaded
      else if code_len mod 8 \<noteq> 0 then Inl BadCodeLength
      else let prog = take (code_len div 8) code in
        case validate vm prog of
          Inl e \<Rightarrow> Inl e
        | Inr rewrite_pcs \<Rightarrow>
            if \<not> alloc then Inl OutOfMemory
            else if memory_ptr \<noteq> 0 \<and> memory_size \<noteq> 0 then
              Inr (vm\<lparr>insts := Some (rewrite_with_memchecks prog memory_ptr memory_size rewrite_pcs),
                      num_insts := (code_len div 8 + ADDED_LOAD_STORE_INSTS * length rewrite_pcs) mod 65536\<rparr>)
            else Inr (vm\<lparr>insts := Some prog, num_insts := (code_len div 8) mod 65536\<rparr>))"

end
