(* ===== verification/UbpfSafety.thy ===== *)
theory UbpfSafety
  imports UbpfLoad
begin

text \<open>
  What the validation of a plugin guarantees when the interpreter runs it: \<open>valid_prog\<close> collects
  the checks, \<open>pc_ok\<close> is the invariant of the program counter, and \<open>exec_reach\<close> is the relation of
  the states a run goes through.
\<close>

section \<open>What validation establishes\<close>

declare validate_loop.simps [simp del]

lemma guarded_op: "guarded inst \<Longrightarrow> opcode inst \<noteq> ZERO \<and> opcode inst \<noteq> LDDW \<and> \<not> is_jump inst"
  by (cases "opcode inst") (auto simp: guarded_def is_load_def is_store_def is_jump_def)

text \<open>Every instruction but the second halves of \<open>lddw\<close> has passed its checks.\<close>

definition valid_prog :: "ubpf_vm \<Rightarrow> ebpf_inst list \<Rightarrow> bool" where
  "valid_prog vm prog \<longleftrightarrow>
     prog \<noteq> [] \<and> length prog < MAX_INSTS \<and>
     (\<forall>j < length prog.
        if opcode (prog ! j) = ZERO then 0 < j \<and> opcode (prog ! (j - 1)) = LDDW
        else \<exists>n. validate_inst vm prog j n = None)"

lemma validate_loop_spec:
  "validate_loop vm prog i acc = Inr pcs \<Longrightarrow>
   pcs = acc @ filter (\<lambda>j. guarded (prog ! j)) [i..<length prog] \<and>
   (\<forall>j. i \<le> j \<and> j < length prog \<longrightarrow>
      (if opcode (prog ! j) = ZERO then i < j \<and> opcode (prog ! (j - 1)) = LDDW
       else \<exists>n. validate_inst vm prog j n = None))"
proof (induction vm prog i acc rule: validate_loop.induct)
  case (1 vm prog i acc)
  show ?case
  proof (cases "i \<ge> length prog")
    case True
    with "1.prems" show ?thesis by (auto simp: validate_loop.simps[of vm prog i])
  next
    case False
    with "1.prems" have ok: "validate_inst vm prog i (length acc) = None"
      by (simp add: validate_loop.simps[of vm prog i] split: option.splits)
    define i' where "i' = (if opcode (prog ! i) = LDDW then i + 2 else i + 1)"
    define acc' where "acc' = (if guarded (prog ! i) then acc @ [i] else acc)"
    have op: "opcode (prog ! i) \<noteq> ZERO" using ok by (auto simp: validate_inst_def Let_def)
    have lddw: "Suc i < length prog \<and> opcode (prog ! Suc i) = ZERO" if "opcode (prog ! i) = LDDW"
      using ok that by (auto simp: validate_inst_def Let_def split: if_splits)
    have rec: "validate_loop vm prog i' acc' = Inr pcs"
      using "1.prems" False ok by (simp add: validate_loop.simps[of vm prog i] i'_def acc'_def)
    have pcs: "pcs = acc' @ filter (\<lambda>j. guarded (prog ! j)) [i'..<length prog]"
      and rest: "\<And>j. i' \<le> j \<Longrightarrow> j < length prog \<Longrightarrow>
        if opcode (prog ! j) = ZERO then i' < j \<and> opcode (prog ! (j - 1)) = LDDW
        else \<exists>n. validate_inst vm prog j n = None"
      using "1.IH"[OF False ok, folded i'_def acc'_def, OF rec] by blast+
    have up: "[i..<length prog] = (if opcode (prog ! i) = LDDW then [i, Suc i] else [i]) @ [i'..<length prog]"
      using False lddw by (simp add: i'_def upt_conv_Cons)
    have "pcs = acc @ filter (\<lambda>j. guarded (prog ! j)) [i..<length prog]"
      unfolding pcs up acc'_def using lddw by (auto dest: guarded_op)
    moreover have "if opcode (prog ! j) = ZERO then i < j \<and> opcode (prog ! (j - 1)) = LDDW
        else \<exists>n. validate_inst vm prog j n = None" if ij: "i \<le> j" "j < length prog" for j
    proof -
      have "j = i \<or> opcode (prog ! i) = LDDW \<and> j = Suc i \<or> i' \<le> j"
        using ij by (auto simp: i'_def)
      then consider "j = i" | "opcode (prog ! i) = LDDW" "j = Suc i" | "i' \<le> j"
        by blast
      then show ?thesis
      proof cases
        case 3
        then show ?thesis using rest[of j] ij(2) by (auto simp: i'_def split: if_splits)
      qed (use op ok lddw in auto)
    qed
    ultimately show ?thesis by blast
  qed
qed

lemma validate_valid:
  assumes "validate vm prog = Inr pcs"
  shows "valid_prog vm prog" and "pcs = filter (\<lambda>j. guarded (prog ! j)) [0..<length prog]"
  using assms validate_loop_spec[of vm prog 0 "[]" pcs]
  by (auto simp: validate_def valid_prog_def split: if_splits)

section \<open>Execution of validated programs\<close>

text \<open>The program counter is at the start of an instruction, or just behind the program.\<close>

definition pc_ok :: "ebpf_inst list \<Rightarrow> u16 \<Rightarrow> bool" where
  "pc_ok prog p \<longleftrightarrow> unat p \<le> length prog \<and> (unat p < length prog \<longrightarrow> opcode (prog ! unat p) \<noteq> ZERO)"

lemma valid_inst:
  "valid_prog vm prog \<Longrightarrow> j < length prog \<Longrightarrow> opcode (prog ! j) \<noteq> ZERO \<Longrightarrow>
   \<exists>n. validate_op vm prog j n (prog ! j) (opcode (prog ! j)) = None \<and> src (prog ! j) \<le> 10 \<and>
     (dst (prog ! j) \<le> 9 \<or> is_store (prog ! j) \<and> dst (prog ! j) = 10)"
  unfolding valid_prog_def validate_inst_def Let_def
  by (elim conjE allE[of _ j]) (auto split: option.splits if_splits simp: not_less)

lemma unat_pc_Suc: "unat (p :: u16) < 65535 \<Longrightarrow> unat (p + 1) = Suc (unat p)"
  by (simp add: unat_word_ariths)

lemma valid_next:
  assumes "valid_prog vm prog" "unat p < length prog" "opcode (prog ! unat p) \<noteq> ZERO" "opcode (prog ! unat p) \<noteq> LDDW"
  shows "pc_ok prog (p + 1)"
proof -
  have u: "unat (p + 1) = Suc (unat p)"
    using assms(1,2) by (intro unat_pc_Suc) (auto simp: valid_prog_def MAX_INSTS_def)
  have "opcode (prog ! Suc (unat p)) \<noteq> ZERO" if "Suc (unat p) < length prog"
    using assms that by (auto simp: valid_prog_def dest!: spec[of _ "Suc (unat p)"])
  with u assms(2) show ?thesis by (simp add: pc_ok_def)
qed

lemma valid_lddw:
  assumes "valid_prog vm prog" "unat p < length prog" "opcode (prog ! unat p) = LDDW"
  shows "unat (p + 1) < length prog" "opcode (prog ! unat (p + 1)) = ZERO" "pc_ok prog (p + 1 + 1)"
proof -
  obtain n where v: "validate_op vm prog (unat p) n (prog ! unat p) LDDW = None"
    using valid_inst[OF assms(1,2)] assms(3) by auto
  then have z: "Suc (unat p) < length prog" "opcode (prog ! Suc (unat p)) = ZERO"
    by (auto split: if_splits)
  have len: "length prog < 65536" using assms(1) by (simp add: valid_prog_def MAX_INSTS_def)
  have u: "unat (p + 1) = Suc (unat p)" using z len by (intro unat_pc_Suc) simp
  then show "unat (p + 1) < length prog" "opcode (prog ! unat (p + 1)) = ZERO" using z by simp_all
  have u2: "unat (p + 1 + 1) = Suc (Suc (unat p))" using z len u unat_pc_Suc[of "p + 1"] by simp
  have "opcode (prog ! Suc (Suc (unat p))) \<noteq> ZERO" if "Suc (Suc (unat p)) < length prog"
    using assms(1) that z by (auto simp: valid_prog_def dest!: spec[of _ "Suc (Suc (unat p))"])
  with u2 z show "pc_ok prog (p + 1 + 1)" by (simp add: pc_ok_def)
qed

text \<open>The 16-bit addition to the program counter is the jump the validation checked.\<close>

lemma jump_target:
  assumes "0 \<le> int (unat (p :: u16)) + 1 + sint off" "int (unat p) + 1 + sint off < 65536"
  shows "unat (p + 1 + off) = nat (int (unat p) + 1 + sint off)"
proof -
  have "p + 1 + off = word_of_int (int (unat p) + 1 + sint off)"
    by (simp only: of_int_add of_int_1 of_int_sint scast_id of_nat_unat word_of_int_uint of_int_of_nat_eq ucast_id)
  then have "unat (p + 1 + off) = nat (take_bit 16 (int (unat p) + 1 + sint off))"
    by (simp only: unat_eq_nat_uint uint_word_of_int_eq) simp
  also have "take_bit 16 (int (unat p) + 1 + sint off) = int (unat p) + 1 + sint off"
    using assms by (intro take_bit_int_eq_self) auto
  finally show ?thesis .
qed

lemma valid_jump:
  assumes "valid_prog vm prog" "unat p < length prog" "is_jump (prog ! unat p)"
  shows "pc_ok prog (p + 1 + offset (prog ! unat p))"
    and "unat (p + 1 + offset (prog ! unat p)) = nat (int (unat p) + 1 + sint (offset (prog ! unat p)))"
    and "0 \<le> int (unat p) + 1 + sint (offset (prog ! unat p))"
    and "int (unat p) + 1 + sint (offset (prog ! unat p)) < int (length prog)"
proof -
  let ?inst = "prog ! unat p" and ?t = "int (unat p) + 1 + sint (offset (prog ! unat p))"
  have "opcode ?inst \<noteq> ZERO" using assms(3) by (auto simp: is_jump_def)
  with valid_inst[OF assms(1,2)] have "validate_jump prog (unat p) ?inst = None"
    using assms(3) by (auto simp: is_jump_def split: ebpf_op.splits)
  then have t: "0 \<le> ?t" "?t < int (length prog)" "opcode (prog ! nat ?t) \<noteq> ZERO"
    by (auto simp: validate_jump_def Let_def split: if_splits)
  then show "0 \<le> ?t" "?t < int (length prog)" by simp_all
  have "unat (p + 1 + offset ?inst) = nat ?t"
    using t assms(1) by (intro jump_target) (auto simp: valid_prog_def MAX_INSTS_def)
  then show "unat (p + 1 + offset ?inst) = nat ?t" .
  with t show "pc_ok prog (p + 1 + offset ?inst)" by (simp add: pc_ok_def)
qed

lemma set_reg_simps [simp]:
  "pc (set_reg s r v) = pc s" "heap (set_reg s r v) = heap s" "reg (set_reg s r v) = (reg s)(r := v)"
  by (simp_all add: set_reg_def)

lemma exec_alu_pc: "exec_alu f op k inst s = Next s' \<Longrightarrow> pc s' = pc s"
  by (auto simp: exec_alu_def split: if_splits option.splits)

lemma exec_store_pc: "exec_store env sz inst v s = Next s' \<Longrightarrow> pc s' = pc s"
  by (auto simp: exec_store_def Let_def split: if_splits)

lemma exec_call_pc: "exec_call vm inst s = Next s' \<Longrightarrow> pc s' = pc s"
  by (auto simp: exec_call_def Let_def split: if_splits option.splits prod.splits)

lemma exec_inst_pc:
  assumes "exec_inst vm env prog inst op s = Next s'"
  shows "pc s' = pc s \<and> op \<noteq> LDDW \<or> op = LDDW \<and> pc s' = pc s + 1 \<or>
    (op = JA \<or> (\<exists>j k. op = JMP j k)) \<and> pc s' = pc s + offset inst"
  using assms
  by (cases op) (auto simp: exec_alu_pc exec_store_pc exec_call_pc Let_def split: if_splits)

lemma exec_alu_undefined: "exec_alu f op k inst s = Undefined flt \<Longrightarrow> flt \<in> {DivisionByZero, ShiftOutOfRange}"
  by (auto simp: exec_alu_def split: if_splits option.splits)

lemma exec_store_undefined: "exec_store env sz inst v s \<noteq> Undefined flt"
  by (auto simp: exec_store_def Let_def split: if_splits)

lemma exec_call_defined: "validate_call vm i inst = None \<Longrightarrow> exec_call vm inst s \<noteq> Undefined flt"
  using unat_sint[of "imm inst"]
  by (auto simp: exec_call_def validate_call_def Let_def Option.is_none_def split: if_splits option.splits prod.splits)

lemma validate_op_defined:
  assumes "validate_op vm prog i n inst op = None" "op \<noteq> LDDW"
  shows "exec_inst vm env prog inst op s = Undefined flt \<Longrightarrow> flt \<in> {DivisionByZero, ShiftOutOfRange}"
  using assms
  by (cases op) (auto simp: Let_def dest: exec_alu_undefined exec_call_defined[of vm i inst s flt]
      exec_store_undefined[THEN notE] split: if_splits)

text \<open>One step of a validated program.\<close>

lemma exec_step_valid:
  assumes v: "valid_prog vm prog" and ok: "pc_ok prog (pc s)"
  shows "case exec_step vm env prog s of
      Next s' \<Rightarrow> pc_ok prog (pc s')
    | Return v \<Rightarrow> True
    | Undefined f \<Rightarrow> f = FetchOutOfRange \<and> unat (pc s) = length prog \<or> f = DivisionByZero \<or> f = ShiftOutOfRange"
proof (cases "unat (pc s) < length prog")
  case False
  with ok show ?thesis by (simp add: exec_step_def pc_ok_def)
next
  case True
  let ?inst = "prog ! unat (pc s)" and ?s = "s\<lparr>pc := pc s + 1\<rparr>"
  have op: "opcode ?inst \<noteq> ZERO" using ok True by (simp add: pc_ok_def)
  have step: "exec_step vm env prog s = exec_inst vm env prog ?inst (opcode ?inst) ?s"
    using True by (simp add: exec_step_def Let_def)
  show ?thesis
  proof (cases "exec_inst vm env prog ?inst (opcode ?inst) ?s")
    case (Next s')
    from exec_inst_pc[OF this] show ?thesis
      unfolding step Next
      using valid_next[OF v True op] valid_lddw(3)[OF v True] valid_jump(1)[OF v True]
      by (auto simp: is_jump_def)
  next
    case (Undefined f)
    obtain n where "validate_op vm prog (unat (pc s)) n ?inst (opcode ?inst) = None"
      using valid_inst[OF v True op] by blast
    from validate_op_defined[OF this _ Undefined] show ?thesis
      unfolding step Undefined using Undefined valid_lddw(1)[OF v True] by (cases "opcode ?inst = LDDW") auto
  qed (simp add: step)
qed

text \<open>The states the interpreter goes through.\<close>

inductive exec_reach :: "ubpf_vm \<Rightarrow> exec_env \<Rightarrow> ebpf_inst list \<Rightarrow> exec_state \<Rightarrow> exec_state \<Rightarrow> bool"
  for vm env prog s where
  start: "exec_reach vm env prog s s"
| step: "exec_reach vm env prog s t \<Longrightarrow> exec_step vm env prog t = Next u \<Longrightarrow> exec_reach vm env prog s u"

lemma exec_reach_pc_ok:
  "exec_reach vm env prog s t \<Longrightarrow> valid_prog vm prog \<Longrightarrow> pc_ok prog (pc s) \<Longrightarrow> pc_ok prog (pc t)"
proof (induction rule: exec_reach.induct)
  case (step t u)
  with exec_step_valid[of vm prog t env] show ?case by simp
qed simp

lemma valid_start: "valid_prog vm prog \<Longrightarrow> pc_ok prog 0"
  by (auto simp: pc_ok_def valid_prog_def)

end
