(* ===== verification/UbpfRewrite.thy ===== *)
theory UbpfRewrite
  imports UbpfSafety
begin

text \<open>
  The rewriting with memory checks: what a check does, instruction by instruction; where the code
  of an original instruction is found and that the adapted jumps lead there; and that the
  rewritten program simulates the original one as long as its accesses are allowed.
\<close>

section \<open>The memory check\<close>

text \<open>The addresses the check lets pass.\<close>

definition allowed :: "u64 \<Rightarrow> u32 \<Rightarrow> u64 \<Rightarrow> u64 \<Rightarrow> bool" where
  "allowed memory_ptr memory_size r10 a \<longleftrightarrow>
     (let d = memory_ptr + ucast memory_size - a in 0 \<le> sint d \<and> d \<le> ucast memory_size) \<or>
     a \<le> r10 \<and> r10 \<le> a + of_nat STACK_SIZE"

definition block_at :: "ebpf_inst list \<Rightarrow> u16 \<Rightarrow> ebpf_inst list \<Rightarrow> bool" where
  "block_at prog w blk \<longleftrightarrow> length prog < 65536 \<and>
     (\<forall>d < length blk. unat w + d < length prog \<and> prog ! (unat w + d) = blk ! d)"

lemma block_step:
  assumes "block_at prog w blk" "d < length blk" "pc s = w + of_nat d"
  shows "exec_step vm env prog s = exec_inst vm env prog (blk ! d) (opcode (blk ! d)) (s\<lparr>pc := w + of_nat (Suc d)\<rparr>)"
proof -
  have "unat w + d < 65536" using assms by (fastforce simp: block_at_def)
  then have "unat (w + of_nat d) = unat w + d"
    by (simp add: unat_word_ariths unsigned_of_nat take_bit_nat_eq_self)
  then show ?thesis
    using assms by (auto simp: exec_step_def block_at_def Let_def ac_simps)
qed

lemma exec_reach_trans: "exec_reach vm env prog t u \<Longrightarrow> exec_reach vm env prog s t \<Longrightarrow> exec_reach vm env prog s u"
  by (induction rule: exec_reach.induct) (auto intro: exec_reach.step)

lemma exec_reach_left: "exec_step vm env prog s = Next t \<Longrightarrow> exec_reach vm env prog t u \<Longrightarrow> exec_reach vm env prog s u"
  by (meson exec_reach_trans exec_reach.start exec_reach.step)

lemma block_go:
  assumes "block_at prog w blk" "d < length blk"
    and "exec_inst vm env prog (blk ! d) (opcode (blk ! d)) \<lparr>pc = w + of_nat (Suc d), reg = r, heap = h\<rparr> = Next t"
    and "exec_reach vm env prog t u"
  shows "exec_reach vm env prog \<lparr>pc = w + of_nat d, reg = r, heap = h\<rparr> u"
  using block_step[OF assms(1,2), of "\<lparr>pc = w + of_nat d, reg = r, heap = h\<rparr>"] assms(3,4)
  by (auto intro: exec_reach_left)

lemma lddw_imm:
  "ucast (ucast (x AND 0xFFFFFFFF) :: u32) OR push_bit 32 (imm64 (ucast (drop_bit 32 x))) = (x :: u64)"
proof (rule bit_word_eqI)
  fix n assume "n < LENGTH(64)"
  then have n: "n < 64" "min 31 (n - 32) = n - 32" by simp_all
  have m: "(0xFFFFFFFF :: u64) = mask 32" by (simp add: mask_eq_exp_minus_1)
  show "bit (ucast (ucast (x AND 0xFFFFFFFF) :: u32) OR push_bit 32 (imm64 (ucast (drop_bit 32 x)))) n = bit x n"
    unfolding m imm64_def
    using n by (auto simp: bit_simps not_less)
qed

lemma imm64_scast: "imm64 (scast (off :: u16)) = off64 off"
proof (rule bit_word_eqI)
  fix n assume "n < LENGTH(64)"
  then show "bit (imm64 (scast off)) n = bit (off64 off) n"
    by (auto simp: imm64_def off64_def bit_simps min_def)
qed

lemma block_lddw:
  assumes blk: "block_at prog w blk" "Suc d < length blk"
    and i: "blk ! d = ebpf LDDW rdst 0 0 (ucast (x AND 0xFFFFFFFF))" "blk ! Suc d = ebpf ZERO 0 0 0 (ucast (drop_bit 32 x))"
    and u: "exec_reach vm env prog \<lparr>pc = w + of_nat (Suc (Suc d)), reg = r(rdst := x), heap = h\<rparr> u"
  shows "exec_reach vm env prog \<lparr>pc = w + of_nat d, reg = r, heap = h\<rparr> u"
proof -
  have lt: "unat w + Suc d < length prog" "prog ! (unat w + Suc d) = blk ! Suc d" "length prog < 65536"
    using blk by (auto simp: block_at_def)
  then have "unat (w + of_nat (Suc d)) = unat w + Suc d"
    by (simp only: unat_word_ariths unsigned_of_nat) (simp add: take_bit_nat_eq_self)
  with lt i have "exec_inst vm env prog (blk ! d) (opcode (blk ! d)) \<lparr>pc = w + of_nat (Suc d), reg = r, heap = h\<rparr>
    = Next \<lparr>pc = w + of_nat (Suc (Suc d)), reg = r(rdst := x), heap = h\<rparr>"
    using of_nat_Suc[of "Suc d", where 'a = u16]
    by (simp add: lddw_imm set_reg_def add.assoc add.commute[of 1] del: of_nat_Suc)
  from block_go[OF blk(1) _ this u] blk(2) show ?thesis by simp
qed

lemmas exec_simps = exec_alu_def division_def set_reg_def imm64_scast

text \<open>The first four instructions compute the distance to the end of the memory.\<close>

lemma memcheck_distance:
  assumes blk: "block_at prog w (memcheck memory_ptr memory_size b off @ rest)" and b: "b \<noteq> 11"
    and u: "exec_reach vm env prog
      \<lparr>pc = w + 4, reg = r(11 := memory_ptr + ucast memory_size - (r b + off64 off)), heap = h\<rparr> u"
  shows "exec_reach vm env prog \<lparr>pc = w, reg = r, heap = h\<rparr> u"
proof -
  let ?top = "memory_ptr + ucast memory_size"
  note blk' = blk[unfolded memcheck_def Let_def]
  note go = block_go[OF blk', where vm = vm and env = env and h = h]
  note lddw = block_lddw[OF blk', where vm = vm and env = env and h = h]
  have "exec_reach vm env prog \<lparr>pc = w + 3, reg = r(11 := ?top - r b), heap = h\<rparr> u"
    using go[of 3 "r(11 := ?top - r b)"] u by (simp add: exec_simps algebra_simps)
  then have "exec_reach vm env prog \<lparr>pc = w + 2, reg = r(11 := ?top), heap = h\<rparr> u"
    using go[of 2 "r(11 := ?top)"] b by (simp add: exec_simps)
  then show ?thesis
    using lddw[of 0 11 ?top r u] by simp
qed

text \<open>The next three test it.\<close>

lemma memcheck_memory:
  assumes blk: "block_at prog w (memcheck memory_ptr memory_size b off @ rest)"
    and u: "exec_reach vm env prog \<lparr>pc = (if 0 \<le> sint (r 11) \<and> r 11 \<le> ucast memory_size then w + 20 else w + 7),
      reg = r, heap = h\<rparr> u"
  shows "exec_reach vm env prog \<lparr>pc = w + 4, reg = r, heap = h\<rparr> u"
proof -
  note blk' = blk[unfolded memcheck_def Let_def]
  note go = block_go[OF blk', where vm = vm and env = env and h = h]
  have z: "imm64 0 = 0" by (simp add: imm64_def)
  show ?thesis
  proof (cases "0 \<le> sint (r 11)")
    case True
    then have "exec_reach vm env prog \<lparr>pc = w + 6, reg = r, heap = h\<rparr> u"
      using go[of 6 r] u by (simp add: add.commute[of w] split: if_splits)
    then show ?thesis using go[of 4 r] True by (simp add: z add.commute[of w])
  next
    case False
    then have "exec_reach vm env prog \<lparr>pc = w + 5, reg = r, heap = h\<rparr> u"
      using go[of 5 r] u by (simp add: add.commute[of w])
    then show ?thesis using go[of 4 r] False by (simp add: z add.commute[of w])
  qed
qed

text \<open>Then the address is compared with the stack.\<close>

lemma memcheck_stack:
  assumes blk: "block_at prog w (memcheck memory_ptr memory_size b off @ rest)" and b: "b \<noteq> 11"
    and u: "\<And>v. exec_reach vm env prog
      \<lparr>pc = (if r b + off64 off \<le> r 10 \<and> r 10 \<le> r b + off64 off + of_nat STACK_SIZE then w + 20 else w + 13),
       reg = r(11 := v), heap = h\<rparr> (u v)"
  shows "\<exists>v. exec_reach vm env prog \<lparr>pc = w + 7, reg = r, heap = h\<rparr> (u v)"
proof -
  let ?a = "r b + off64 off"
  note blk' = blk[unfolded memcheck_def Let_def]
  note go = block_go[OF blk', where vm = vm and env = env and h = h]
  have z: "imm64 (of_nat STACK_SIZE) = of_nat STACK_SIZE" by (simp add: imm64_def STACK_SIZE_def)
  have "\<exists>v. exec_reach vm env prog \<lparr>pc = w + 9, reg = r(11 := ?a), heap = h\<rparr> (u v)"
  proof (cases "?a \<le> r 10")
    case True
    have "exec_reach vm env prog \<lparr>pc = w + 12, reg = r(11 := ?a + of_nat STACK_SIZE), heap = h\<rparr> (u (?a + of_nat STACK_SIZE))"
      using go[of 12 "r(11 := ?a + of_nat STACK_SIZE)"] u[of "?a + of_nat STACK_SIZE"] True by (simp add: add.commute[of w] split: if_splits)
    then have "exec_reach vm env prog \<lparr>pc = w + 11, reg = r(11 := ?a), heap = h\<rparr> (u (?a + of_nat STACK_SIZE))"
      using go[of 11 "r(11 := ?a)"] by (simp add: exec_simps z add.commute[of w])
    then show ?thesis using go[of 9 "r(11 := ?a)"] True by (auto intro!: exI simp: add.commute[of w])
  next
    case False
    then have "exec_reach vm env prog \<lparr>pc = w + 10, reg = r(11 := ?a), heap = h\<rparr> (u ?a)"
      using go[of 10 "r(11 := ?a)"] u[of ?a] by (simp add: add.commute[of w])
    then show ?thesis using go[of 9 "r(11 := ?a)"] False by (auto intro!: exI simp: add.commute[of w])
  qed
  then obtain v where "exec_reach vm env prog \<lparr>pc = w + 9, reg = r(11 := ?a), heap = h\<rparr> (u v)" by blast
  then have "exec_reach vm env prog \<lparr>pc = w + 8, reg = r(11 := r b), heap = h\<rparr> (u v)"
    using go[of 8 "r(11 := r b)"] by (simp add: exec_simps add.commute[of w])
  then show ?thesis using go[of 7 r] b by (auto intro!: exI simp: exec_simps add.commute[of w])
qed

text \<open>An access inside the allowed ranges gets through the check; only register 11 changes.\<close>

lemma memcheck_pass:
  assumes blk: "block_at prog w (memcheck memory_ptr memory_size b off @ rest)" and b: "b \<noteq> 11"
    and al: "allowed memory_ptr memory_size (r 10) (r b + off64 off)"
  shows "\<exists>v. exec_reach vm env prog \<lparr>pc = w, reg = r, heap = h\<rparr> \<lparr>pc = w + 20, reg = r(11 := v), heap = h\<rparr>"
proof -
  let ?d = "memory_ptr + ucast memory_size - (r b + off64 off)"
  have "\<exists>v. exec_reach vm env prog \<lparr>pc = w + 4, reg = r(11 := ?d), heap = h\<rparr>
      \<lparr>pc = w + 20, reg = r(11 := v), heap = h\<rparr>"
  proof (cases "0 \<le> sint ?d \<and> ?d \<le> ucast memory_size")
    case True
    with memcheck_memory[OF blk, of vm env "r(11 := ?d)" h] exec_reach.start show ?thesis by fastforce
  next
    case False
    with al have "r b + off64 off \<le> r 10 \<and> r 10 \<le> r b + off64 off + of_nat STACK_SIZE"
      by (auto simp: allowed_def Let_def)
    then obtain v where "exec_reach vm env prog \<lparr>pc = w + 7, reg = r(11 := ?d), heap = h\<rparr>
        \<lparr>pc = w + 20, reg = r(11 := v), heap = h\<rparr>"
      using memcheck_stack[OF blk b, of vm env "r(11 := ?d)" h
          "\<lambda>v. \<lparr>pc = w + 20, reg = r(11 := v), heap = h\<rparr>"] b exec_reach.start by auto
    with memcheck_memory[OF blk, of vm env "r(11 := ?d)" h] False show ?thesis by auto
  qed
  with memcheck_distance[OF blk b, of vm env r h] show ?thesis by blast
qed

text \<open>Any other access ends in a call of the error function, with the address as first argument.\<close>

lemma memcheck_error:
  assumes blk: "block_at prog w (memcheck memory_ptr memory_size b off @ rest)" and b: "b \<noteq> 11"
  shows "exec_reach vm env prog \<lparr>pc = w + 13, reg = r, heap = h\<rparr>
    \<lparr>pc = w + 18, reg = r(1 := r b + off64 off, 2 := memory_ptr, 3 := r 10), heap = h\<rparr>"
    (is "exec_reach _ _ _ _ ?u")
proof -
  let ?a = "r b + off64 off"
  note blk' = blk[unfolded memcheck_def Let_def]
  note go = block_go[OF blk', where vm = vm and env = env and h = h]
  note lddw = block_lddw[OF blk', where vm = vm and env = env and h = h]
  have "exec_reach vm env prog \<lparr>pc = w + 17, reg = r(1 := ?a, 2 := memory_ptr), heap = h\<rparr> ?u"
    using go[of 17 "r(1 := ?a, 2 := memory_ptr)"] exec_reach.start by (simp add: exec_simps add.commute[of w])
  then have "exec_reach vm env prog \<lparr>pc = w + 15, reg = r(1 := ?a), heap = h\<rparr> ?u"
    using lddw[of 15 2 memory_ptr "r(1 := ?a)" ?u] by (simp add: add.commute[of w])
  then have "exec_reach vm env prog \<lparr>pc = w + 14, reg = r(1 := r b), heap = h\<rparr> ?u"
    using go[of 14 "r(1 := r b)"] by (simp add: exec_simps add.commute[of w])
  then show ?thesis
    using go[of 13 r] by (simp add: exec_simps add.commute[of w])
qed

lemma memcheck_fail:
  assumes blk: "block_at prog w (memcheck memory_ptr memory_size b off @ rest)" and b: "b \<noteq> 11"
    and al: "\<not> allowed memory_ptr memory_size (r 10) (r b + off64 off)"
  shows "\<exists>v. exec_reach vm env prog \<lparr>pc = w, reg = r, heap = h\<rparr>
    \<lparr>pc = w + 18, reg = r(11 := v, 1 := r b + off64 off, 2 := memory_ptr, 3 := r 10), heap = h\<rparr>"
proof -
  let ?d = "memory_ptr + ucast memory_size - (r b + off64 off)"
  let ?u = "\<lambda>v. \<lparr>pc = w + 18, reg = r(11 := v, 1 := r b + off64 off, 2 := memory_ptr, 3 := r 10), heap = h\<rparr>"
  have no: "\<not> (0 \<le> sint ?d \<and> ?d \<le> ucast memory_size)"
    "\<not> (r b + off64 off \<le> r 10 \<and> r 10 \<le> r b + off64 off + of_nat STACK_SIZE)"
    using al by (auto simp: allowed_def Let_def)
  have "exec_reach vm env prog \<lparr>pc = w + 13, reg = r(11 := v), heap = h\<rparr> (?u v)" for v
    using memcheck_error[OF blk b, of vm env "r(11 := v)" h] b by simp
  then obtain v where "exec_reach vm env prog \<lparr>pc = w + 7, reg = r(11 := ?d), heap = h\<rparr> (?u v)"
    using memcheck_stack[OF blk b, of vm env "r(11 := ?d)" h ?u] no(2) b by auto
  with memcheck_memory[OF blk, of vm env "r(11 := ?d)" h] no(1)
    memcheck_distance[OF blk b, of vm env r h] show ?thesis by auto
qed

section \<open>The layout of the rewritten program\<close>

text \<open>The number of guarded accesses before instruction \<open>k\<close>, and where the code for it starts.\<close>

definition guards :: "ebpf_inst list \<Rightarrow> nat \<Rightarrow> nat" where
  "guards prog k = length (filter (\<lambda>j. guarded (prog ! j)) [0..<k])"

definition pos :: "ebpf_inst list \<Rightarrow> nat \<Rightarrow> nat" where
  "pos prog k = k + ADDED_LOAD_STORE_INSTS * guards prog k"

lemma guards_Suc: "guards prog (Suc k) = guards prog k + (if guarded (prog ! k) then 1 else 0)"
  by (simp add: guards_def)

lemma pos_Suc:
  "pos prog (Suc k) = pos prog k + (if guarded (prog ! k) then Suc ADDED_LOAD_STORE_INSTS else 1)"
  by (simp add: pos_def guards_Suc)

lemma pos_mono: "j \<le> k \<Longrightarrow> pos prog j \<le> pos prog k"
  by (induction k rule: nat_induct_at_least) (auto simp: pos_Suc)

lemma length_memcheck: "length (memcheck memory_ptr memory_size b off) = ADDED_LOAD_STORE_INSTS"
  by (simp add: memcheck_def Let_def ADDED_LOAD_STORE_INSTS_def)

lemma length_rewrite_inst:
  "length (rewrite_inst memory_ptr memory_size pcs i inst) =
     (if guarded inst then Suc ADDED_LOAD_STORE_INSTS else 1)"
  by (simp add: rewrite_inst_def guarded_def length_memcheck)

lemma concat_map_split:
  "k < length xs \<Longrightarrow> concat (map f xs) = concat (map f (take k xs)) @ f (xs ! k) @ concat (map f (drop (Suc k) xs))"
  by (metis (no_types) Cons_nth_drop_Suc append_take_drop_id concat.simps(2) concat_append list.simps(9) map_append)

lemma length_rewrite_take:
  "k \<le> length prog \<Longrightarrow>
   length (concat (map (\<lambda>(i, inst). rewrite_inst memory_ptr memory_size pcs i inst) (take k (enumerate 0 prog))))
     = pos prog k"
proof (induction k)
  case (Suc k)
  then have "take (Suc k) (enumerate 0 prog) = take k (enumerate 0 prog) @ [(k, prog ! k)]"
    by (simp add: take_Suc_conv_app_nth nth_enumerate_eq)
  with Suc show ?case by (simp add: length_rewrite_inst pos_Suc)
qed (simp add: pos_def guards_def)

lemma length_rewrite: "length (rewrite_with_memchecks prog memory_ptr memory_size pcs) = pos prog (length prog)"
  using length_rewrite_take[of "length prog" prog memory_ptr memory_size pcs]
  by (simp add: rewrite_with_memchecks_def)

lemma rewrite_nth:
  assumes k: "k < length prog" and d: "d < length (rewrite_inst memory_ptr memory_size pcs k (prog ! k))"
  shows "rewrite_with_memchecks prog memory_ptr memory_size pcs ! (pos prog k + d) =
    rewrite_inst memory_ptr memory_size pcs k (prog ! k) ! d"
    and "pos prog k + d < pos prog (length prog)"
proof -
  let ?f = "\<lambda>(i, inst). rewrite_inst memory_ptr memory_size pcs i inst"
  have "rewrite_with_memchecks prog memory_ptr memory_size pcs =
      concat (map ?f (take k (enumerate 0 prog))) @ rewrite_inst memory_ptr memory_size pcs k (prog ! k) @
      concat (map ?f (drop (Suc k) (enumerate 0 prog)))"
    unfolding rewrite_with_memchecks_def
    using concat_map_split[of k "enumerate 0 prog" ?f] k by (simp add: nth_enumerate_eq)
  then show "rewrite_with_memchecks prog memory_ptr memory_size pcs ! (pos prog k + d) =
    rewrite_inst memory_ptr memory_size pcs k (prog ! k) ! d"
    using length_rewrite_take[of k prog memory_ptr memory_size pcs] k d by (simp add: nth_append)
  have "pos prog k + d < pos prog (Suc k)"
    using d by (simp add: pos_Suc length_rewrite_inst split: if_splits)
  also have "\<dots> \<le> pos prog (length prog)" using k by (intro pos_mono) simp
  finally show "pos prog k + d < pos prog (length prog)" .
qed

lemma rewrite_block:
  assumes k: "k < length prog" and len: "pos prog (length prog) < 65536"
  shows "block_at (rewrite_with_memchecks prog memory_ptr memory_size pcs) (of_nat (pos prog k))
    (rewrite_inst memory_ptr memory_size pcs k (prog ! k))"
proof -
  have "pos prog k \<le> pos prog (length prog)" using k by (intro pos_mono) simp
  then have "unat (of_nat (pos prog k) :: u16) = pos prog k"
    using len by (simp add: unsigned_of_nat take_bit_nat_eq_self)
  with rewrite_nth[OF k] len show ?thesis by (simp add: block_at_def length_rewrite)
qed

section \<open>Jumps\<close>

definition rewrite_pcs :: "ebpf_inst list \<Rightarrow> nat list" where
  "rewrite_pcs prog = filter (\<lambda>j. guarded (prog ! j)) [0..<length prog]"

lemma offset_forward_eq:
  "sorted ps \<Longrightarrow> offset_forward ps i off new =
     new + of_nat (ADDED_LOAD_STORE_INSTS * length (filter (\<lambda>p. i + 1 \<le> p \<and> int p < int i + 1 + off) ps))"
proof (induction ps arbitrary: new)
  case (Cons p ps)
  show ?case
  proof (cases "int p < int i + 1 + off")
    case True
    with Cons show ?thesis by (simp add: algebra_simps)
  next
    case False
    with Cons.prems have "\<forall>q \<in> set (p # ps). \<not> int q < int i + 1 + off" by auto
    then have "filter (\<lambda>p. i + 1 \<le> p \<and> int p < int i + 1 + off) (p # ps) = []" by (simp add: filter_empty_conv)
    with False show ?thesis by (simp del: filter.simps)
  qed
qed simp

lemma offset_backward_eq:
  "sorted ps \<Longrightarrow> offset_backward ps i off new =
     new - of_nat (ADDED_LOAD_STORE_INSTS * length (filter (\<lambda>p. int i + 1 + off \<le> int p \<and> p < i + 1) ps))"
proof (induction ps arbitrary: new)
  case (Cons p ps)
  show ?case
  proof (cases "p < i + 1")
    case True
    with Cons show ?thesis by (simp add: algebra_simps)
  next
    case False
    with Cons.prems have "\<forall>q \<in> set (p # ps). \<not> q < i + 1" by auto
    then have "filter (\<lambda>p. int i + 1 + off \<le> int p \<and> p < i + 1) (p # ps) = []" by (simp add: filter_empty_conv)
    with False show ?thesis by (simp del: filter.simps)
  qed
qed simp

lemma filter_rewrite_pcs:
  assumes "a \<le> b" "b \<le> length prog"
  shows "guards prog a + length (filter (\<lambda>p. a \<le> p \<and> p < b) (rewrite_pcs prog)) = guards prog b"
proof -
  have "[0..<length prog] = [0..<a] @ [a..<b] @ [b..<length prog]"
    using assms upt_add_eq_append[of 0 a "length prog - a"] upt_add_eq_append[of a b "length prog - b"] by simp
  then have "filter (\<lambda>p. a \<le> p \<and> p < b) (rewrite_pcs prog) = filter (\<lambda>j. guarded (prog ! j)) [a..<b]"
    unfolding rewrite_pcs_def by (auto simp: filter_empty_conv intro!: filter_cong)
  moreover have "[0..<b] = [0..<a] @ [a..<b]" using assms upt_add_eq_append[of 0 a "b - a"] by simp
  ultimately show ?thesis by (simp add: guards_def)
qed

text \<open>The adapted offset leads to the code of the original target.\<close>

lemma new_offset_target:
  assumes j: "i < length prog" "\<not> guarded (prog ! i)"
    and t: "0 \<le> int i + 1 + sint off" "int i + 1 + sint off < int (length prog)"
  shows "of_nat (pos prog i) + 1 + new_offset (rewrite_pcs prog) i off =
    (of_nat (pos prog (nat (int i + 1 + sint off))) :: u16)"
proof -
  define t where "t = nat (int i + 1 + sint off)"
  have tl: "int t = int i + 1 + sint off" "t < length prog" using t by (auto simp: t_def)
  have srt: "sorted (rewrite_pcs prog)" by (simp add: rewrite_pcs_def sorted_wrt_filter)
  have off: "(of_nat t :: u16) = of_nat i + 1 + off"
  proof -
    have "(of_nat t :: u16) = word_of_int (int i + 1 + sint off)" using tl(1) by (metis of_int_of_nat_eq)
    then show ?thesis by (simp only: of_int_add of_int_1 of_int_sint scast_id of_int_of_nat_eq)
  qed
  have g1: "guards prog (i + 1) = guards prog i" using j by (simp add: guards_Suc)
  consider "sint off > 0" | "sint off < 0" | "sint off = 0" by linarith
  then show ?thesis
  proof cases
    case 1
    then have le: "i + 1 \<le> t" using tl by simp
    have "new_offset (rewrite_pcs prog) i off =
        off + of_nat (ADDED_LOAD_STORE_INSTS * length (filter (\<lambda>p. i + 1 \<le> p \<and> p < t) (rewrite_pcs prog)))"
      using 1 offset_forward_eq[OF srt, of i "sint off", folded tl(1)] by (simp add: new_offset_def)
    moreover have "pos prog t = t + ADDED_LOAD_STORE_INSTS * (guards prog (i + 1) +
        length (filter (\<lambda>p. i + 1 \<le> p \<and> p < t) (rewrite_pcs prog)))"
      using filter_rewrite_pcs[OF le, of prog] tl(2) by (simp add: pos_def)
    ultimately show ?thesis
      using off g1 by (simp add: t_def[symmetric] pos_def distrib_left)
  next
    case 2
    then have le: "t \<le> i + 1" using tl by simp
    have "new_offset (rewrite_pcs prog) i off =
        off - of_nat (ADDED_LOAD_STORE_INSTS * length (filter (\<lambda>p. t \<le> p \<and> p < i + 1) (rewrite_pcs prog)))"
      using 2 offset_backward_eq[OF srt, of i "sint off", folded tl(1)] by (simp add: new_offset_def)
    moreover have "pos prog (i + 1) = i + 1 + ADDED_LOAD_STORE_INSTS * (guards prog t +
        length (filter (\<lambda>p. t \<le> p \<and> p < i + 1) (rewrite_pcs prog)))"
      using filter_rewrite_pcs[OF le, of prog] j(1) by (simp add: pos_def)
    ultimately show ?thesis
      using off g1 by (simp add: t_def[symmetric] pos_def distrib_left)
  next
    case 3
    then have "t = i + 1" using tl by simp
    then show ?thesis unfolding t_def[symmetric] using 3 off g1 by (simp add: new_offset_def pos_def)
  qed
qed

section \<open>Simulation\<close>

text \<open>Two states that agree but for the scratch register and the program counter.\<close>

definition agree :: "exec_state \<Rightarrow> exec_state \<Rightarrow> bool" where
  "agree s s' \<longleftrightarrow> heap s' = heap s \<and> (\<forall>x. x \<noteq> 11 \<longrightarrow> reg s' x = reg s x)"

definition sim :: "ebpf_inst list \<Rightarrow> exec_state \<Rightarrow> exec_state \<Rightarrow> bool" where
  "sim prog s s' \<longleftrightarrow> agree s s' \<and> pc s' = of_nat (pos prog (unat (pc s)))"

text \<open>\<open>lockstep p o o'\<close>: both outcomes are the same, up to agreement; the second continues at \<open>p\<close>.\<close>

definition lockstep :: "u16 \<Rightarrow> outcome \<Rightarrow> outcome \<Rightarrow> bool" where
  "lockstep p o1 o2 \<longleftrightarrow>
     (case o1 of
        Next t \<Rightarrow> (\<exists>t'. o2 = Next t' \<and> agree t t' \<and> pc t' = p)
      | Return v \<Rightarrow> o2 = Return v
      | Undefined f \<Rightarrow> o2 = Undefined f)"

lemma agree_operand: "agree s s' \<Longrightarrow> src inst \<noteq> 11 \<Longrightarrow> operand k inst (reg s') = operand k inst (reg s)"
  by (cases k) (auto simp: agree_def)

lemma agree_set_reg: "agree s s' \<Longrightarrow> agree (set_reg s r v) (set_reg s' r v)"
  by (auto simp: agree_def)

lemma lockstep_alu:
  "agree s s' \<Longrightarrow> src inst \<noteq> 11 \<Longrightarrow> dst inst \<noteq> 11 \<Longrightarrow>
   lockstep (pc s') (exec_alu f op k inst s) (exec_alu f op k inst s')"
  using agree_operand[of s s' inst k]
  by (auto simp: lockstep_def exec_alu_def agree_def split: option.splits)

lemma lockstep_store:
  "agree s s' \<Longrightarrow> dst inst \<noteq> 11 \<Longrightarrow>
   lockstep (pc s') (exec_store env sz inst v s) (exec_store env sz inst v s')"
  by (auto simp: lockstep_def exec_store_def agree_def Let_def)

lemma lockstep_call: "agree s s' \<Longrightarrow> lockstep (pc s') (exec_call vm inst s) (exec_call vm inst s')"
proof -
  assume a: "agree s s'"
  have "reg s' 1 = reg s 1" "reg s' 2 = reg s 2" "reg s' 3 = reg s 3" "reg s' 4 = reg s 4" "reg s' 5 = reg s 5"
    "heap s' = heap s"
    using a by (simp_all add: agree_def)
  with a show ?thesis
    by (auto simp: lockstep_def exec_call_def agree_def Let_def split: option.splits prod.splits)
qed

lemma lockstep_reg: "agree s s' \<Longrightarrow> lockstep (pc s') (Next (set_reg s r v)) (Next (set_reg s' r v))"
  by (simp add: lockstep_def agree_set_reg)

lemma lockstep_return: "lockstep p (Return v) (Return v)"
  by (simp add: lockstep_def)

lemma lockstep_next: "agree s s' \<Longrightarrow> lockstep (pc s') (Next s) (Next s')"
  by (simp add: lockstep_def)

lemma lockstep_inst:
  assumes a: "agree s s'" and r: "src inst \<noteq> 11" "dst inst \<noteq> 11"
    and op: "op \<noteq> LDDW" "op \<noteq> JA" "\<And>j k. op \<noteq> JMP j k"
  shows "lockstep (pc s') (exec_inst vm env prog inst op s) (exec_inst vm env prog' inst op s')"
proof -
  have regs: "reg s' (src inst) = reg s (src inst)" "reg s' (dst inst) = reg s (dst inst)" "reg s' 0 = reg s 0"
    "heap s' = heap s"
    using a r by (simp_all add: agree_def)
  show ?thesis
  proof (cases op)
    case (JMP j k)
    then show ?thesis using op(3) by blast
  qed (use op(1,2) in \<open>simp_all add: regs lockstep_alu[OF a r] lockstep_store[OF a r(2)] lockstep_call[OF a]
      lockstep_reg[OF a] lockstep_return lockstep_next[OF a] Let_def\<close>)
qed

lemma agree_jump: "agree s s' \<Longrightarrow> src inst \<noteq> 11 \<Longrightarrow> dst inst \<noteq> 11 \<Longrightarrow>
    jump_taken op k inst' (reg s') = jump_taken op k inst (reg s)" if "inst' = inst\<lparr>offset := x\<rparr>"
  using that agree_operand[of s s' inst k] agree_operand[of s s' inst' k]
  by (cases op; cases k) (auto simp: agree_def)

text \<open>What a step of the original program means for the rewritten one.\<close>

definition simulated ::
  "ubpf_vm \<Rightarrow> exec_env \<Rightarrow> ebpf_inst list \<Rightarrow> ebpf_inst list \<Rightarrow> outcome \<Rightarrow> exec_state \<Rightarrow> bool" where
  "simulated vm env prog prog' res s' \<longleftrightarrow>
     (case res of
        Next t \<Rightarrow> \<exists>t'. exec_reach vm env prog' s' t' \<and> sim prog t t'
      | Return v \<Rightarrow> \<exists>u'. exec_reach vm env prog' s' u' \<and> exec_step vm env prog' u' = Return v
      | Undefined f \<Rightarrow> \<exists>u'. exec_reach vm env prog' s' u' \<and> exec_step vm env prog' u' = Undefined f)"

lemma simulatedI:
  assumes "exec_reach vm env prog' s' u'" "lockstep p res (exec_step vm env prog' u')"
    and "\<And>t. res = Next t \<Longrightarrow> p = of_nat (pos prog (unat (pc t)))"
  shows "simulated vm env prog prog' res s'"
  using assms by (cases res) (auto simp: simulated_def lockstep_def sim_def intro: exec_reach.step)

lemma valid_regs:
  assumes "valid_prog vm prog" "k < length prog" "opcode (prog ! k) \<noteq> ZERO"
  shows "src (prog ! k) \<noteq> 11" "dst (prog ! k) \<noteq> 11" "base (prog ! k) \<noteq> 11"
proof -
  have "\<not> (11 :: 4 word) \<le> 10" "\<not> (11 :: 4 word) \<le> 9" "(11 :: 4 word) \<noteq> 10"
    by (simp_all add: word_le_nat_alt word_unat_eq_iff)
  with valid_inst[OF assms] show "src (prog ! k) \<noteq> 11" "dst (prog ! k) \<noteq> 11" by auto
  then show "base (prog ! k) \<noteq> 11" by (simp add: base_def)
qed

lemma of_nat_pos_Suc:
  "of_nat (pos prog (Suc k)) = (of_nat (pos prog k) :: u16) + (if guarded (prog ! k) then 21 else 1)"
  by (simp add: pos_Suc ADDED_LOAD_STORE_INSTS_def)

lemma sim_guarded:
  assumes v: "valid_prog vm prog" and len: "pos prog (length prog) < 65536"
    and k: "unat (pc s) < length prog" and g: "guarded (prog ! unat (pc s))"
    and al: "allowed memory_ptr memory_size (reg s 10)
      (reg s (base (prog ! unat (pc s))) + off64 (offset (prog ! unat (pc s))))"
    and sim: "sim prog s s'"
  shows "simulated vm env prog (rewrite_with_memchecks prog memory_ptr memory_size (rewrite_pcs prog))
    (exec_step vm env prog s) s'"
proof -
  let ?k = "unat (pc s)" and ?P = "rewrite_with_memchecks prog memory_ptr memory_size (rewrite_pcs prog)"
  let ?inst = "prog ! ?k" and ?w = "of_nat (pos prog (unat (pc s))) :: u16"
  let ?blk = "memcheck memory_ptr memory_size (base ?inst) (offset ?inst) @ [?inst]"
  note op = guarded_op[OF g]
  have nz: "opcode ?inst \<noteq> ZERO" using op by simp
  note regs = valid_regs[OF v k nz]
  have blk: "block_at ?P ?w ?blk"
    using rewrite_block[OF k len, of memory_ptr memory_size "rewrite_pcs prog"] g
    by (simp add: rewrite_inst_def guarded_def)
  have ag: "reg s' 10 = reg s 10" "reg s' (base ?inst) = reg s (base ?inst)" "agree s s'" "pc s' = ?w"
    using sim regs(3) by (auto simp: sim_def agree_def)
  obtain x where reach: "exec_reach vm env ?P s' (s'\<lparr>pc := ?w + 20, reg := (reg s')(11 := x)\<rparr>)"
    using memcheck_pass[OF blk regs(3), of "reg s'" vm env "heap s'"] al ag by (cases s') auto
  let ?u = "s'\<lparr>pc := ?w + 20, reg := (reg s')(11 := x)\<rparr>"
  have step: "exec_step vm env ?P ?u = exec_inst vm env ?P ?inst (opcode ?inst) (?u\<lparr>pc := ?w + of_nat (Suc 20)\<rparr>)"
    using block_step[OF blk, of 20 ?u vm env] by (simp add: length_memcheck ADDED_LOAD_STORE_INSTS_def nth_append)
  have "agree (s\<lparr>pc := pc s + 1\<rparr>) (?u\<lparr>pc := ?w + of_nat (Suc 20)\<rparr>)"
    using ag(3) by (simp add: agree_def)
  from lockstep_inst[OF this regs(1,2), of "opcode ?inst" vm env prog ?P] op
  have lock: "lockstep (?w + 21) (exec_step vm env prog s) (exec_step vm env ?P ?u)"
    unfolding step using k by (simp add: exec_step_def Let_def is_jump_def split: ebpf_op.splits)
  show ?thesis
  proof (rule simulatedI[OF reach lock])
    fix t assume "exec_step vm env prog s = Next t"
    then have "pc t = pc s + 1"
      using exec_inst_pc[of vm env prog ?inst "opcode ?inst" "s\<lparr>pc := pc s + 1\<rparr>" t] k op
      by (auto simp: exec_step_def Let_def is_jump_def)
    moreover have "unat (pc s + 1) = Suc ?k"
      using k v by (intro unat_pc_Suc) (auto simp: valid_prog_def MAX_INSTS_def)
    ultimately show "?w + 21 = of_nat (pos prog (unat (pc t)))"
      using g by (simp add: of_nat_pos_Suc)
  qed
qed

text \<open>An instruction that is not guarded is one instruction of the rewritten program.\<close>

definition moved :: "ebpf_inst list \<Rightarrow> nat \<Rightarrow> ebpf_inst" where
  "moved prog k = (let inst = prog ! k in
     if is_jump inst then inst\<lparr>offset := new_offset (rewrite_pcs prog) k (offset inst)\<rparr> else inst)"

lemma rewrite_unguarded:
  assumes "\<not> guarded (prog ! k)"
  shows "rewrite_inst memory_ptr memory_size (rewrite_pcs prog) k (prog ! k) = [moved prog k]"
  using assms
  by (cases "opcode (prog ! k)")
    (auto simp: rewrite_inst_def guarded_def is_jump_def is_load_def is_store_def moved_def Let_def)

lemma unguarded_step:
  assumes v: "valid_prog vm prog" and len: "pos prog (length prog) < 65536"
    and k: "unat (pc s) < length prog" and g: "\<not> guarded (prog ! unat (pc s))" and sim: "sim prog s s'"
  shows "exec_step vm env (rewrite_with_memchecks prog memory_ptr memory_size (rewrite_pcs prog)) s' =
      exec_inst vm env (rewrite_with_memchecks prog memory_ptr memory_size (rewrite_pcs prog))
        (moved prog (unat (pc s))) (opcode (prog ! unat (pc s)))
        (s'\<lparr>pc := of_nat (pos prog (unat (pc s))) + 1\<rparr>)"
    and "exec_step vm env prog s =
      exec_inst vm env prog (prog ! unat (pc s)) (opcode (prog ! unat (pc s))) (s\<lparr>pc := pc s + 1\<rparr>)"
    and "agree (s\<lparr>pc := pc s + 1\<rparr>) (s'\<lparr>pc := of_nat (pos prog (unat (pc s))) + 1\<rparr>)"
    and "(of_nat (pos prog (unat (pc s))) :: u16) + 1 = of_nat (pos prog (unat (pc s + 1)))"
    and "unat (pc s + 1) = Suc (unat (pc s))"
proof -
  let ?w = "of_nat (pos prog (unat (pc s))) :: u16"
  have blk: "block_at (rewrite_with_memchecks prog memory_ptr memory_size (rewrite_pcs prog)) ?w
      [moved prog (unat (pc s))]"
    using rewrite_block[OF k len, of memory_ptr memory_size "rewrite_pcs prog"] rewrite_unguarded[OF g] by simp
  have "opcode (moved prog (unat (pc s))) = opcode (prog ! unat (pc s))" "pc s' = ?w"
    using sim by (simp_all add: moved_def Let_def sim_def)
  then show "exec_step vm env (rewrite_with_memchecks prog memory_ptr memory_size (rewrite_pcs prog)) s' =
      exec_inst vm env (rewrite_with_memchecks prog memory_ptr memory_size (rewrite_pcs prog))
        (moved prog (unat (pc s))) (opcode (prog ! unat (pc s))) (s'\<lparr>pc := ?w + 1\<rparr>)"
    using block_step[OF blk, of 0 s' vm env] by simp
  show "exec_step vm env prog s =
      exec_inst vm env prog (prog ! unat (pc s)) (opcode (prog ! unat (pc s))) (s\<lparr>pc := pc s + 1\<rparr>)"
    using k by (simp add: exec_step_def Let_def)
  show "agree (s\<lparr>pc := pc s + 1\<rparr>) (s'\<lparr>pc := ?w + 1\<rparr>)" using sim by (auto simp: sim_def agree_def)
  show u1: "unat (pc s + 1) = Suc (unat (pc s))"
    using k v by (intro unat_pc_Suc) (auto simp: valid_prog_def MAX_INSTS_def)
  show "?w + 1 = of_nat (pos prog (unat (pc s + 1)))" using g u1 by (simp add: of_nat_pos_Suc)
qed

lemma simulated_next:
  "res = Next t \<Longrightarrow> exec_step vm env prog' s' = Next t' \<Longrightarrow> sim prog t t' \<Longrightarrow>
   simulated vm env prog prog' res s'"
  by (auto simp: simulated_def intro: exec_reach.intros)

lemma sim_jump:
  assumes v: "valid_prog vm prog" and len: "pos prog (length prog) < 65536"
    and k: "unat (pc s) < length prog" and j: "is_jump (prog ! unat (pc s))" and sim: "sim prog s s'"
  shows "simulated vm env prog (rewrite_with_memchecks prog memory_ptr memory_size (rewrite_pcs prog))
    (exec_step vm env prog s) s'"
proof -
  let ?k = "unat (pc s)" let ?inst = "prog ! ?k" and ?w = "of_nat (pos prog ?k) :: u16"
  have g: "\<not> guarded ?inst" and nz: "opcode ?inst \<noteq> ZERO" using j guarded_op by (auto simp: is_jump_def)
  note regs = valid_regs[OF v k nz]
  note st = unguarded_step[OF v len k g sim]
  have tgt: "?w + 1 + new_offset (rewrite_pcs prog) ?k (offset ?inst) =
      of_nat (pos prog (unat (pc s + 1 + offset ?inst)))"
    using new_offset_target[OF k g valid_jump(3,4)[OF v k j]] valid_jump(2)[OF v k j] by simp
  have mv: "moved prog ?k = ?inst\<lparr>offset := new_offset (rewrite_pcs prog) ?k (offset ?inst)\<rparr>"
    using j by (simp add: moved_def Let_def)
  show ?thesis
  proof (cases "opcode ?inst")
    case JA
    let ?t' = "s'\<lparr>pc := ?w + 1 + new_offset (rewrite_pcs prog) ?k (offset ?inst)\<rparr>"
    have "sim prog (s\<lparr>pc := pc s + 1 + offset ?inst\<rparr>) ?t'" using tgt st(3) by (simp add: sim_def agree_def)
    then show ?thesis by (intro simulated_next) (simp_all add: st(1,2) JA mv)
  next
    case (JMP op c)
    have jt: "jump_taken op c (moved prog ?k) (reg s') = jump_taken op c ?inst (reg s)"
      using agree_jump[OF mv, of "s\<lparr>pc := pc s + 1\<rparr>" "s'\<lparr>pc := ?w + 1\<rparr>" op c] st(3) regs by simp
    let ?t = "if jump_taken op c ?inst (reg s) then s\<lparr>pc := pc s + 1 + offset ?inst\<rparr> else s\<lparr>pc := pc s + 1\<rparr>"
      and ?t' = "if jump_taken op c ?inst (reg s)
        then s'\<lparr>pc := ?w + 1 + new_offset (rewrite_pcs prog) ?k (offset ?inst)\<rparr> else s'\<lparr>pc := ?w + 1\<rparr>"
    have "sim prog ?t ?t'" using tgt st(3,4) by (simp add: sim_def agree_def)
    then show ?thesis by (intro simulated_next[of _ ?t _ _ _ _ ?t']) (simp_all add: st(1,2) JMP jt, simp_all add: mv)
  qed (use j in \<open>auto simp: is_jump_def\<close>)
qed

lemma sim_lddw:
  assumes v: "valid_prog vm prog" and len: "pos prog (length prog) < 65536"
    and k: "unat (pc s) < length prog" and op: "opcode (prog ! unat (pc s)) = LDDW" and sim: "sim prog s s'"
  shows "simulated vm env prog (rewrite_with_memchecks prog memory_ptr memory_size (rewrite_pcs prog))
    (exec_step vm env prog s) s'"
proof -
  let ?k = "unat (pc s)" and ?P = "rewrite_with_memchecks prog memory_ptr memory_size (rewrite_pcs prog)"
  let ?inst = "prog ! ?k" and ?w = "of_nat (pos prog ?k) :: u16"
  have g: "\<not> guarded ?inst" using op guarded_op by auto
  note st = unguarded_step[OF v len k g sim] and ld = valid_lddw[OF v k op]
  have g1: "\<not> guarded (prog ! Suc ?k)" and j1: "\<not> is_jump (prog ! Suc ?k)" "\<not> is_jump ?inst"
    using ld(2) guarded_op op by (auto simp: st(5) is_jump_def)
  have k1: "Suc ?k < length prog" using ld(1) st(5) by simp
  have u2: "unat (pc s + 1 + 1) = Suc (Suc ?k)"
    using k1 v st(5) unat_pc_Suc[of "pc s + 1"] by (simp add: valid_prog_def MAX_INSTS_def)
  have "?P ! pos prog (Suc ?k) = prog ! Suc ?k" "pos prog (Suc ?k) < length ?P"
    using rewrite_nth[OF k1, of 0 memory_ptr memory_size "rewrite_pcs prog"] rewrite_unguarded[OF g1] j1(1)
    by (simp_all add: moved_def length_rewrite)
  moreover have "unat (?w + 1) = pos prog (Suc ?k)"
    using st(4,5) len calculation(2) by (simp add: length_rewrite unsigned_of_nat take_bit_nat_eq_self)
  moreover have "?w + 1 + 1 = of_nat (pos prog (unat (pc s + 1 + 1)))"
    using g1 u2 st(4,5) by (simp add: of_nat_pos_Suc)
  ultimately show ?thesis
    using st(3) op ld(1) j1(2)
    by (intro simulated_next) (auto simp: st(1,2,5) moved_def sim_def agree_def)
qed

lemma sim_plain:
  assumes v: "valid_prog vm prog" and len: "pos prog (length prog) < 65536"
    and k: "unat (pc s) < length prog" and nz: "opcode (prog ! unat (pc s)) \<noteq> ZERO"
    and g: "\<not> guarded (prog ! unat (pc s))" and op: "opcode (prog ! unat (pc s)) \<noteq> LDDW"
    and j: "\<not> is_jump (prog ! unat (pc s))" and sim: "sim prog s s'"
  shows "simulated vm env prog (rewrite_with_memchecks prog memory_ptr memory_size (rewrite_pcs prog))
    (exec_step vm env prog s) s'"
proof -
  let ?k = "unat (pc s)" and ?P = "rewrite_with_memchecks prog memory_ptr memory_size (rewrite_pcs prog)"
  let ?inst = "prog ! ?k" and ?w = "of_nat (pos prog ?k) :: u16"
  note st = unguarded_step[OF v len k g sim] and regs = valid_regs[OF v k nz]
  have mv: "moved prog ?k = ?inst" using j by (simp add: moved_def)
  have lock: "lockstep (?w + 1) (exec_step vm env prog s) (exec_step vm env ?P s')"
    using lockstep_inst[OF st(3) regs(1,2), of "opcode ?inst" vm env prog ?P] j op
    unfolding st(1,2) mv by (simp add: is_jump_def split: ebpf_op.splits)
  show ?thesis
  proof (rule simulatedI[OF exec_reach.start lock])
    fix t assume "exec_step vm env prog s = Next t"
    then have "pc t = pc s + 1"
      using exec_inst_pc[of vm env prog ?inst "opcode ?inst" "s\<lparr>pc := pc s + 1\<rparr>" t] j op
      by (auto simp: st(2) is_jump_def)
    then show "?w + 1 = of_nat (pos prog (unat (pc t)))" using st(4) by simp
  qed
qed

lemma sim_step:
  assumes v: "valid_prog vm prog" and len: "pos prog (length prog) < 65536"
    and k: "unat (pc s) < length prog" and nz: "opcode (prog ! unat (pc s)) \<noteq> ZERO"
    and al: "guarded (prog ! unat (pc s)) \<Longrightarrow> allowed memory_ptr memory_size (reg s 10)
      (reg s (base (prog ! unat (pc s))) + off64 (offset (prog ! unat (pc s))))"
    and sim: "sim prog s s'"
  shows "simulated vm env prog (rewrite_with_memchecks prog memory_ptr memory_size (rewrite_pcs prog))
    (exec_step vm env prog s) s'"
  using sim_guarded[OF v len k _ al sim] sim_jump[OF v len k _ sim] sim_lddw[OF v len k _ sim]
    sim_plain[OF v len k nz _ _ _ sim] by blast

end
