(* ===== verification/UbpfIsolation.thy ===== *)
theory UbpfIsolation
  imports UbpfRewrite
begin

text \<open>
  Runs of rewritten programs as a whole: at every state a run goes through, the program counter is
  at the code of an original instruction or inside the check of a guarded access, and at every
  point of a check the scratch register holds what the check has computed so far. Therefore no
  load or store is executed whose address the check does not admit.
\<close>

section \<open>Inside a check\<close>

text \<open>What is known at instruction \<open>d\<close> of a check; the access itself comes at 20.\<close>

definition check_at :: "u64 \<Rightarrow> u32 \<Rightarrow> 4 word \<Rightarrow> u16 \<Rightarrow> (4 word \<Rightarrow> u64) \<Rightarrow> nat \<Rightarrow> bool" where
  "check_at memory_ptr memory_size b off r d \<longleftrightarrow>
     (let top = memory_ptr + ucast memory_size; a = r b + off64 off in
      d \<le> 20 \<and> d \<noteq> 1 \<and> d \<noteq> 16 \<and> (d = 2 \<longrightarrow> r 11 = top) \<and> (d = 3 \<longrightarrow> r 11 = top - r b) \<and>
      (d \<in> {4, 6} \<longrightarrow> r 11 = top - a) \<and> (d = 6 \<longrightarrow> 0 \<le> sint (r 11)) \<and> (d = 8 \<longrightarrow> r 11 = r b) \<and>
      (d \<in> {9, 11} \<longrightarrow> r 11 = a) \<and> (d \<in> {11, 12} \<longrightarrow> a \<le> r 10) \<and> (d = 12 \<longrightarrow> r 11 = a + of_nat STACK_SIZE) \<and>
      (d = 20 \<longrightarrow> allowed memory_ptr memory_size (r 10) a))"

lemma check_at_0: "check_at memory_ptr memory_size b off r 0"
  by (simp add: check_at_def Let_def)

lemma block_lddw_step:
  assumes blk: "block_at prog w blk" "Suc d < length blk" "pc s = w + of_nat d"
    and i: "blk ! d = ebpf LDDW rdst 0 0 (ucast (x AND 0xFFFFFFFF))" "blk ! Suc d = ebpf ZERO 0 0 0 (ucast (drop_bit 32 x))"
  shows "exec_step vm env prog s = Next (s\<lparr>pc := w + of_nat (Suc (Suc d)), reg := (reg s)(rdst := x)\<rparr>)"
proof -
  have lt: "unat w + Suc d < length prog" "prog ! (unat w + Suc d) = blk ! Suc d" "length prog < 65536"
    using blk by (auto simp: block_at_def)
  then have "unat (w + of_nat (Suc d)) = unat w + Suc d"
    by (simp only: unat_word_ariths unsigned_of_nat) (simp add: take_bit_nat_eq_self)
  then show ?thesis
    using block_step[OF blk(1) _ blk(3), of vm env] blk(2) lt i of_nat_Suc[of "Suc d", where 'a = u16]
    by (simp add: lddw_imm set_reg_def add.assoc add.commute[of 1] del: of_nat_Suc)
qed

lemma less_20: "d < 20 \<Longrightarrow> d \<noteq> 1 \<Longrightarrow> d \<noteq> 16 \<Longrightarrow> d = 0 \<or> d = 2 \<or> d = 3 \<or> d = 4 \<or> d = 5 \<or> d = 6 \<or> d = 7 \<or> d = 8 \<or> d = 9 \<or>
    d = 10 \<or> d = 11 \<or> d = 12 \<or> d = 13 \<or> d = 14 \<or> d = 15 \<or> d = 17 \<or> d = 18 \<or> d = (19 :: nat)"
  by presburger

lemma check_stepI:
  "pc u = w + of_nat d' \<Longrightarrow> check_at memory_ptr memory_size b off (reg u) d' \<Longrightarrow> reg u 10 = r10 \<Longrightarrow>
   \<exists>d'. pc u = w + of_nat d' \<and> check_at memory_ptr memory_size b off (reg u) d' \<and> reg u 10 = r10"
  by blast

lemma check_step_memory:
  assumes blk: "block_at prog w (memcheck memory_ptr memory_size b off @ rest)" and b: "b \<noteq> 11"
    and d: "d = 0 \<or> d = 2 \<or> d = 3 \<or> d = 4 \<or> d = 5 \<or> d = 6" "pc s = w + of_nat d" "check_at memory_ptr memory_size b off (reg s) d"
    and u: "exec_step vm env prog s = Next u"
  shows "\<exists>d'. pc u = w + of_nat d' \<and> check_at memory_ptr memory_size b off (reg u) d' \<and> reg u 10 = reg s 10"
proof -
  note blk' = blk[unfolded memcheck_def Let_def]
  note st = block_step[OF blk', of _ s vm env, unfolded u]
  note c = check_at_def Let_def
  have z: "imm64 0 = 0" by (simp add: imm64_def)
  from d(1) show ?thesis
  proof (elim disjE)
    assume "d = 0"
    then show ?thesis using block_lddw_step[OF blk', of 0 s 11 "memory_ptr + ucast memory_size" vm env, unfolded u] d(2)
      by (intro check_stepI[of _ _ 2]) (simp_all add: c)
  next
    assume "d = 2"
    then show ?thesis using st[of 2] d(2,3) b by (intro check_stepI[of _ _ 3]) (simp_all add: c exec_simps)
  next
    assume "d = 3"
    then show ?thesis using st[of 3] d(2,3) b by (intro check_stepI[of _ _ 4]) (simp_all add: c exec_simps algebra_simps)
  next
    assume "d = 4"
    then show ?thesis using st[of 4] d(2,3) b
      by (cases "0 \<le> sint (reg s 11)", intro check_stepI[of _ _ 6]; (intro check_stepI[of _ _ 5])?) (simp_all add: c z)
  next
    assume "d = 5"
    then show ?thesis using st[of 5] d(2,3) b by (intro check_stepI[of _ _ 7]) (simp_all add: c)
  next
    assume "d = 6"
    then show ?thesis using st[of 6] d(2,3) b
      by (cases "reg s 11 \<le> ucast memory_size", intro check_stepI[of _ _ 20]; (intro check_stepI[of _ _ 7])?) (simp_all add: c allowed_def)
  qed
qed


lemma check_step_stack:
  assumes blk: "block_at prog w (memcheck memory_ptr memory_size b off @ rest)" and b: "b \<noteq> 11"
    and d: "d = 7 \<or> d = 8 \<or> d = 9 \<or> d = 10 \<or> d = 11 \<or> d = 12" "pc s = w + of_nat d" "check_at memory_ptr memory_size b off (reg s) d"
    and u: "exec_step vm env prog s = Next u"
  shows "\<exists>d'. pc u = w + of_nat d' \<and> check_at memory_ptr memory_size b off (reg u) d' \<and> reg u 10 = reg s 10"
proof -
  note blk' = blk[unfolded memcheck_def Let_def]
  note st = block_step[OF blk', of _ s vm env, unfolded u]
  note c = check_at_def Let_def
  have z: "imm64 (of_nat STACK_SIZE) = of_nat STACK_SIZE" by (simp add: imm64_def STACK_SIZE_def)
  from d(1) show ?thesis
  proof (elim disjE)
    assume "d = 7"
    then show ?thesis using st[of 7] d(2,3) b by (intro check_stepI[of _ _ 8]) (simp_all add: c exec_simps)
  next
    assume "d = 8"
    then show ?thesis using st[of 8] d(2,3) b by (intro check_stepI[of _ _ 9]) (simp_all add: c exec_simps)
  next
    assume "d = 9"
    then show ?thesis using st[of 9] d(2,3) b
      by (cases "reg s 11 \<le> reg s 10", intro check_stepI[of _ _ 11]; (intro check_stepI[of _ _ 10])?) (simp_all add: c)
  next
    assume "d = 10"
    then show ?thesis using st[of 10] d(2,3) b by (intro check_stepI[of _ _ 13]) (simp_all add: c)
  next
    assume "d = 11"
    then show ?thesis using st[of 11] d(2,3) b by (intro check_stepI[of _ _ 12]) (simp_all add: c exec_simps z)
  next
    assume "d = 12"
    then show ?thesis using st[of 12] d(2,3) b
      by (cases "reg s 10 \<le> reg s 11", intro check_stepI[of _ _ 20]; (intro check_stepI[of _ _ 13])?) (simp_all add: c allowed_def)
  qed
qed

lemma check_step_error:
  assumes blk: "block_at prog w (memcheck memory_ptr memory_size b off @ rest)"
    and d: "d = 13 \<or> d = 14 \<or> d = 15 \<or> d = 17 \<or> d = 18 \<or> d = 19" "pc s = w + of_nat d"
    and u: "exec_step vm env prog s = Next u"
  shows "\<exists>d'. pc u = w + of_nat d' \<and> check_at memory_ptr memory_size b off (reg u) d' \<and> reg u 10 = reg s 10"
proof -
  note blk' = blk[unfolded memcheck_def Let_def]
  note st = block_step[OF blk', of _ s vm env, unfolded u]
  note c = check_at_def Let_def
  from d(1) show ?thesis
  proof (elim disjE)
    assume "d = 13"
    then show ?thesis using st[of 13] d(2) by (intro check_stepI[of _ _ 14]) (simp_all add: c exec_simps)
  next
    assume "d = 14"
    then show ?thesis using st[of 14] d(2) by (intro check_stepI[of _ _ 15]) (simp_all add: c exec_simps)
  next
    assume "d = 15"
    then show ?thesis using block_lddw_step[OF blk', of 15 s 2 memory_ptr vm env, unfolded u] d(2)
      by (intro check_stepI[of _ _ 17]) (simp_all add: c)
  next
    assume "d = 17"
    then show ?thesis using st[of 17] d(2) by (intro check_stepI[of _ _ 18]) (simp_all add: c exec_simps)
  next
    assume "d = 18"
    then show ?thesis using st[of 18] d(2)
      by (intro check_stepI[of _ _ 19]) (auto simp: c exec_call_def split: if_splits option.splits prod.splits)
  next
    assume "d = 19"
    then show ?thesis using st[of 19] d(2) by simp
  qed
qed

lemma check_step:
  assumes "block_at prog w (memcheck memory_ptr memory_size b off @ rest)" "b \<noteq> 11" "d < 20" "pc s = w + of_nat d"
    "check_at memory_ptr memory_size b off (reg s) d" "exec_step vm env prog s = Next u"
  shows "\<exists>d'. pc u = w + of_nat d' \<and> check_at memory_ptr memory_size b off (reg u) d' \<and> reg u 10 = reg s 10"
proof -
  have "d \<noteq> 1" "d \<noteq> 16" using assms(5) by (simp_all add: check_at_def Let_def)
  from less_20[OF assms(3) this]
  consider "d = 0 \<or> d = 2 \<or> d = 3 \<or> d = 4 \<or> d = 5 \<or> d = 6" | "d = 7 \<or> d = 8 \<or> d = 9 \<or> d = 10 \<or> d = 11 \<or> d = 12"
    | "d = 13 \<or> d = 14 \<or> d = 15 \<or> d = 17 \<or> d = 18 \<or> d = 19" by metis
  then show ?thesis
    using check_step_memory[OF assms(1,2) _ assms(4-6)] check_step_stack[OF assms(1,2) _ assms(4-6)]
      check_step_error[OF assms(1) _ assms(4,6)] by cases
qed

section \<open>Between checks\<close>

lemma exec_inst_r10:
  assumes "exec_inst vm env prog inst op s = Next u" "dst inst \<noteq> 10 \<or> (\<exists>sz. op = ST sz \<or> op = STX sz)"
  shows "reg u 10 = reg s 10"
  using assms
  by (cases op) (auto simp: exec_alu_def exec_store_def exec_call_def Let_def split: if_splits option.splits prod.splits)

text \<open>The code of original instruction \<open>k\<close> starts at \<open>pos prog k\<close>; \<open>k\<close> is never the second half of a wide load.\<close>

definition at_inst :: "ebpf_inst list \<Rightarrow> u16 \<Rightarrow> bool" where
  "at_inst prog w \<longleftrightarrow> (\<exists>p. pc_ok prog p \<and> w = of_nat (pos prog (unat p)))"

lemma valid_dst:
  assumes "valid_prog vm prog" "unat p < length prog" "pc_ok prog p"
  shows "dst (prog ! unat p) \<noteq> 10 \<or> is_store (prog ! unat p)" "opcode (prog ! unat p) \<noteq> ZERO"
proof -
  show nz: "opcode (prog ! unat p) \<noteq> ZERO" using assms(2,3) by (simp add: pc_ok_def)
  have "\<not> (10 :: 4 word) \<le> 9" by (simp add: word_le_nat_alt)
  then show "dst (prog ! unat p) \<noteq> 10 \<or> is_store (prog ! unat p)" using valid_inst[OF assms(1,2) nz] by auto
qed

lemma is_store_op: "is_store inst \<longleftrightarrow> (\<exists>sz. opcode inst = ST sz \<or> opcode inst = STX sz)"
  by (auto simp: is_store_def split: ebpf_op.splits)

lemma unguarded_next:
  assumes v: "valid_prog vm prog" and len: "pos prog (length prog) < 65536"
    and p: "pc_ok prog p" "unat p < length prog" "\<not> guarded (prog ! unat p)" "pc s = of_nat (pos prog (unat p))"
    and u: "exec_step vm env (rewrite_with_memchecks prog memory_ptr memory_size (rewrite_pcs prog)) s = Next u"
  shows "at_inst prog (pc u) \<and> reg u 10 = reg s 10"
proof -
  let ?inst = "prog ! unat p" and ?w = "of_nat (pos prog (unat p)) :: u16"
  let ?P = "rewrite_with_memchecks prog memory_ptr memory_size (rewrite_pcs prog)"
  note d = valid_dst[OF v p(2,1)]
  have sim: "sim prog (s\<lparr>pc := p\<rparr>) s" using p(4) by (simp add: sim_def agree_def)
  note st = unguarded_step[OF v len, of "s\<lparr>pc := p\<rparr>" s, simplified, OF p(2,3) sim]
  have e: "exec_inst vm env ?P (moved prog (unat p)) (opcode ?inst) (s\<lparr>pc := ?w + 1\<rparr>) = Next u" using u st(1)[of env memory_ptr memory_size] by simp
  have "dst (moved prog (unat p)) = dst ?inst" by (simp add: moved_def Let_def)
  then have "reg u 10 = reg s 10" using exec_inst_r10[OF e] d(1) by (auto simp: is_store_op)
  moreover have "at_inst prog (pc u)"
  proof -
    from exec_inst_pc[OF e] consider "pc u = ?w + 1" "opcode ?inst \<noteq> LDDW" | "opcode ?inst = LDDW" "pc u = ?w + 1 + 1"
      | "is_jump ?inst" "pc u = ?w + 1 + offset (moved prog (unat p))" by (auto simp: is_jump_def)
    then show ?thesis
    proof cases
      case 1
      then show ?thesis using valid_next[OF v p(2) d(2)] st(4) by (auto simp: at_inst_def)
    next
      case 2
      note ld = valid_lddw[OF v p(2) 2(1)]
      have "\<not> guarded (prog ! unat (p + 1))" using ld(2) guarded_op by blast
      moreover have "unat (p + 1 + 1) = Suc (unat (p + 1))"
        using ld(1) v by (intro unat_pc_Suc) (auto simp: valid_prog_def MAX_INSTS_def)
      ultimately have "?w + 1 + 1 = of_nat (pos prog (unat (p + 1 + 1)))" using st(4) by (simp add: of_nat_pos_Suc)
      then show ?thesis using 2(2) ld(3) by (auto simp: at_inst_def)
    next
      case 3
      note j = valid_jump[OF v p(2) 3(1)]
      have "pc u = of_nat (pos prog (unat (p + 1 + offset ?inst)))"
        using 3 new_offset_target[OF p(2,3) j(3,4)] j(2) by (simp add: moved_def Let_def)
      then show ?thesis using j(1) by (auto simp: at_inst_def)
    qed
  qed
  ultimately show ?thesis by blast
qed

lemma guarded_next:
  assumes v: "valid_prog vm prog" and p: "pc_ok prog p" "unat p < length prog" "guarded (prog ! unat p)"
    and blk: "block_at P (of_nat (pos prog (unat p))) (memcheck memory_ptr memory_size b off @ [prog ! unat p])"
    and s: "pc s = of_nat (pos prog (unat p)) + 20" and u: "exec_step vm env P s = Next u"
  shows "at_inst prog (pc u) \<and> reg u 10 = reg s 10"
proof -
  let ?inst = "prog ! unat p" and ?w = "of_nat (pos prog (unat p)) :: u16"
  note d = valid_dst[OF v p(2,1)] and op = guarded_op[OF p(3)]
  have e: "exec_inst vm env P ?inst (opcode ?inst) (s\<lparr>pc := ?w + 21\<rparr>) = Next u"
    using block_step[OF blk, of 20 s vm env] s u by (simp add: length_memcheck ADDED_LOAD_STORE_INSTS_def nth_append)
  have "pc u = ?w + 21" using exec_inst_pc[OF e] op by (auto simp: is_jump_def)
  moreover have "unat (p + 1) = Suc (unat p)" using p(2) v by (intro unat_pc_Suc) (auto simp: valid_prog_def MAX_INSTS_def)
  ultimately have "pc u = of_nat (pos prog (unat (p + 1)))" using p(3) by (simp add: of_nat_pos_Suc)
  then have "at_inst prog (pc u)" using valid_next[OF v p(2) d(2)] op by (auto simp: at_inst_def)
  moreover have "reg u 10 = reg s 10" using exec_inst_r10[OF e] d(1) by (auto simp: is_store_op)
  ultimately show ?thesis by blast
qed

section \<open>Whole runs\<close>

lemma is_load_op: "is_load inst \<longleftrightarrow> (\<exists>sz. opcode inst = LDX sz)"
  by (auto simp: is_load_def split: ebpf_op.splits)

lemma validate_op_access:
  "validate_op vm prog i n inst (opcode inst) = None \<Longrightarrow> is_load inst \<or> is_store inst \<Longrightarrow> validate_access i n inst = None"
  by (auto simp: is_load_op is_store_op)

lemma access_offset:
  assumes "validate_access i n inst = None" "base inst = 10"
  shows "- int STACK_SIZE \<le> sint (offset inst)" "sint (offset inst) \<le> 0"
  using assms by (auto simp: validate_access_def split: if_splits)

lemma moved_access: "is_load (moved prog k) \<or> is_store (moved prog k) \<Longrightarrow> moved prog k = prog ! k"
  by (auto simp: moved_def Let_def is_jump_def is_load_op is_store_op split: if_splits)

definition run_inv :: "ebpf_inst list \<Rightarrow> u64 \<Rightarrow> u32 \<Rightarrow> u64 \<Rightarrow> exec_state \<Rightarrow> bool" where
  "run_inv prog memory_ptr memory_size r10 t \<longleftrightarrow> reg t 10 = r10 \<and>
     (at_inst prog (pc t) \<or>
      (\<exists>p d. pc_ok prog p \<and> unat p < length prog \<and> guarded (prog ! unat p) \<and> pc t = of_nat (pos prog (unat p)) + of_nat d \<and>
        check_at memory_ptr memory_size (base (prog ! unat p)) (offset (prog ! unat p)) (reg t) d))"

lemma guarded_block:
  assumes "pos prog (length prog) < 65536" "k < length prog" "guarded (prog ! k)"
  shows "block_at (rewrite_with_memchecks prog memory_ptr memory_size pcs) (of_nat (pos prog k))
    (memcheck memory_ptr memory_size (base (prog ! k)) (offset (prog ! k)) @ [prog ! k])"
  using rewrite_block[OF assms(2,1), of memory_ptr memory_size pcs] assms(3) by (simp add: rewrite_inst_def guarded_def)

lemma run_inv_step:
  assumes v: "valid_prog vm prog" and len: "pos prog (length prog) < 65536" and inv: "run_inv prog memory_ptr memory_size r10 t"
    and u: "exec_step vm env (rewrite_with_memchecks prog memory_ptr memory_size (rewrite_pcs prog)) t = Next u"
  shows "run_inv prog memory_ptr memory_size r10 u"
proof -
  let ?P = "rewrite_with_memchecks prog memory_ptr memory_size (rewrite_pcs prog)"
  have check: "run_inv prog memory_ptr memory_size r10 u"
    if "pc_ok prog p" "unat p < length prog" "guarded (prog ! unat p)" "pc t = of_nat (pos prog (unat p)) + of_nat d"
      "check_at memory_ptr memory_size (base (prog ! unat p)) (offset (prog ! unat p)) (reg t) d" for p d
  proof -
    note blk = guarded_block[OF len that(2,3), of memory_ptr memory_size "rewrite_pcs prog"]
    have b: "base (prog ! unat p) \<noteq> 11" using valid_regs(3)[OF v that(2)] guarded_op[OF that(3)] by simp
    have "d \<le> 20" using that(5) by (simp add: check_at_def Let_def)
    then consider "d < 20" | "d = 20" by linarith
    then show ?thesis
    proof cases
      case 1
      from check_step[OF blk b 1 that(4,5) u] inv that(1-3) show ?thesis by (auto simp: run_inv_def)
    next
      case 2
      then show ?thesis using guarded_next[OF v that(1-3) blk _ u] that(4) inv by (auto simp: run_inv_def)
    qed
  qed
  show ?thesis
  proof (cases "at_inst prog (pc t)")
    case True
    then obtain p where p: "pc_ok prog p" "pc t = of_nat (pos prog (unat p))" by (auto simp: at_inst_def)
    have "unat p < length prog"
    proof (rule ccontr)
      assume "\<not> unat p < length prog"
      then have "unat (pc t) = length ?P" using p len by (simp add: pc_ok_def length_rewrite unsigned_of_nat take_bit_nat_eq_self)
      then show False using u by (simp add: exec_step_def)
    qed
    then show ?thesis
      using check[of p 0] check_at_0 p unguarded_next[OF v len p(1) _ _ p(2) u] inv by (cases "guarded (prog ! unat p)") (auto simp: run_inv_def)
  next
    case False
    with inv check show ?thesis unfolding run_inv_def by blast
  qed
qed

lemma run_inv_reach:
  assumes "exec_reach vm env (rewrite_with_memchecks prog memory_ptr memory_size (rewrite_pcs prog)) s t"
    "valid_prog vm prog" "pos prog (length prog) < 65536" "pc s = 0"
  shows "run_inv prog memory_ptr memory_size (reg s 10) t"
  using assms(1)
proof (induction rule: exec_reach.induct)
  case start
  have "pos prog 0 = 0" by (simp add: pos_def guards_def)
  then have "at_inst prog (pc s)" using valid_start[OF assms(2)] assms(4) unfolding at_inst_def by (intro exI[of _ 0]) simp
  then show ?case by (simp add: run_inv_def)
next
  case (step t u)
  then show ?case using run_inv_step[OF assms(2,3)] by blast
qed

lemma block_nth: "block_at prog w blk \<Longrightarrow> d < length blk \<Longrightarrow> prog ! unat (w + of_nat d) = blk ! d"
proof -
  assume a: "block_at prog w blk" "d < length blk"
  then have "unat w + d < 65536" by (fastforce simp: block_at_def)
  then have "unat (w + of_nat d) = unat w + d"
    by (simp add: unat_word_ariths unsigned_of_nat take_bit_nat_eq_self)
  then show ?thesis using a by (simp add: block_at_def)
qed

lemma memcheck_no_access:
  assumes "d < 20"
  shows "\<not> is_load (memcheck memory_ptr memory_size b off ! d)" "\<not> is_store (memcheck memory_ptr memory_size b off ! d)"
proof -
  have "\<forall>inst \<in> set (memcheck memory_ptr memory_size b off). \<not> is_load inst \<and> \<not> is_store inst"
    by (simp add: memcheck_def Let_def is_load_def is_store_def)
  moreover have "memcheck memory_ptr memory_size b off ! d \<in> set (memcheck memory_ptr memory_size b off)"
    using assms by (intro nth_mem) (simp add: length_memcheck ADDED_LOAD_STORE_INSTS_def)
  ultimately show "\<not> is_load (memcheck memory_ptr memory_size b off ! d)" "\<not> is_store (memcheck memory_ptr memory_size b off ! d)" by auto
qed

text \<open>An access of a run was either checked or is relative to the stack pointer with a validated offset.\<close>

lemma run_access:
  assumes v: "valid_prog vm prog" and len: "pos prog (length prog) < 65536" and inv: "run_inv prog memory_ptr memory_size r10 t"
    and i: "unat (pc t) < length (rewrite_with_memchecks prog memory_ptr memory_size (rewrite_pcs prog))"
      "inst = rewrite_with_memchecks prog memory_ptr memory_size (rewrite_pcs prog) ! unat (pc t)" "is_load inst \<or> is_store inst"
  shows "allowed memory_ptr memory_size r10 (reg t (base inst) + off64 (offset inst)) \<or>
    base inst = 10 \<and> - int STACK_SIZE \<le> sint (offset inst) \<and> sint (offset inst) \<le> 0"
proof -
  let ?P = "rewrite_with_memchecks prog memory_ptr memory_size (rewrite_pcs prog)"
  have check: "allowed memory_ptr memory_size r10 (reg t (base inst) + off64 (offset inst))"
    if p: "unat p < length prog" "guarded (prog ! unat p)" "pc t = of_nat (pos prog (unat p)) + of_nat d"
      "check_at memory_ptr memory_size (base (prog ! unat p)) (offset (prog ! unat p)) (reg t) d" for p :: u16 and d
  proof -
    have d: "d \<le> 20" using p(4) by (simp add: check_at_def Let_def)
    have "inst = (memcheck memory_ptr memory_size (base (prog ! unat p)) (offset (prog ! unat p)) @ [prog ! unat p]) ! d"
      using block_nth[OF guarded_block[OF len p(1,2), of memory_ptr memory_size "rewrite_pcs prog"], of d] d i(2) p(3)
      by (simp add: length_memcheck ADDED_LOAD_STORE_INSTS_def)
    with d i(3) memcheck_no_access[of d memory_ptr memory_size "base (prog ! unat p)" "offset (prog ! unat p)"]
    have "d = 20" "inst = prog ! unat p"
      by (cases "d = 20"; simp add: nth_append length_memcheck ADDED_LOAD_STORE_INSTS_def)+
    then show ?thesis using p(4) inv by (simp add: check_at_def Let_def run_inv_def)
  qed
  show ?thesis
  proof (cases "at_inst prog (pc t)")
    case True
    then obtain p where p: "pc_ok prog p" "pc t = of_nat (pos prog (unat p))" by (auto simp: at_inst_def)
    have k: "unat p < length prog"
    proof (rule ccontr)
      assume "\<not> unat p < length prog"
      then have "unat (pc t) = length ?P" using p len by (simp add: pc_ok_def length_rewrite unsigned_of_nat take_bit_nat_eq_self)
      then show False using i(1) by simp
    qed
    show ?thesis
    proof (cases "guarded (prog ! unat p)")
      case True
      then show ?thesis using check[OF k True, of 0] p(2) check_at_0 by simp
    next
      case False
      have "inst = moved prog (unat p)"
        using block_nth[OF rewrite_block[OF k len, of memory_ptr memory_size "rewrite_pcs prog"], of 0] rewrite_unguarded[OF False] i(2) p(2) by simp
      then have inst: "inst = prog ! unat p" using moved_access i(3) by metis
      have "opcode inst \<noteq> ZERO" using valid_dst(2)[OF v k p(1)] inst by simp
      then obtain n where "validate_op vm prog (unat p) n inst (opcode inst) = None" using valid_inst[OF v k] inst by metis
      from access_offset[OF validate_op_access[OF this i(3)]] show ?thesis using False i(3) by (auto simp: guarded_def inst)
    qed
  next
    case False
    with inv have "\<exists>(p :: u16) d. unat p < length prog \<and> guarded (prog ! unat p) \<and> pc t = of_nat (pos prog (unat p)) + of_nat d \<and>
      check_at memory_ptr memory_size (base (prog ! unat p)) (offset (prog ! unat p)) (reg t) d" by (auto simp: run_inv_def)
    then show ?thesis using check by metis
  qed
qed

section \<open>Addresses\<close>

text \<open>The admitted addresses as ranges of numbers.\<close>

lemma allowed_iff:
  assumes "unat memory_ptr + unat memory_size < 2 ^ 64" and "unat r10 + STACK_SIZE < 2 ^ 64"
  shows "allowed memory_ptr memory_size r10 a \<longleftrightarrow>
    unat memory_ptr \<le> unat a \<and> unat a \<le> unat memory_ptr + unat memory_size \<or>
    unat a \<le> unat r10 \<and> unat r10 \<le> unat a + STACK_SIZE"
proof -
  let ?top = "memory_ptr + ucast memory_size" and ?s = "ucast memory_size :: u64"
  have s: "unat ?s = unat memory_size" "unat memory_size < 2 ^ 32"
    using unsigned_less[of memory_size, where 'a = nat] by (simp_all add: unsigned_ucast_eq take_bit_nat_eq_self)
  have top: "unat ?top = unat memory_ptr + unat memory_size"
    using assms(1) s by (simp add: unat_word_ariths)
  have a: "unat a < 2 ^ 64" using unsigned_less[of a, where 'a = nat] by simp
  have le: "?top - a \<le> ?s \<longleftrightarrow> unat memory_ptr \<le> unat a \<and> unat a \<le> unat memory_ptr + unat memory_size"
    using top s a by (auto simp: word_le_nat_alt unat_sub_if')
  have "0 \<le> sint d" if "d \<le> ?s" for d
  proof -
    have "unat d < 2 ^ 32" using that s unfolding word_le_nat_alt by linarith
    then have "uint d < 2 ^ 32" by (metis of_nat_less_iff of_nat_numeral of_nat_power uint_nat)
    moreover have "signed_take_bit 63 i = i" if "0 \<le> i" "i < 2 ^ 32" for i :: int
      using that by (intro signed_take_bit_int_eq_self) simp_all
    ultimately have "sint d = uint d" by (simp add: sint_uint)
    then show ?thesis by simp
  qed
  moreover have "r10 \<le> a + of_nat STACK_SIZE \<longleftrightarrow> unat r10 \<le> unat a + STACK_SIZE" if "a \<le> r10"
    using that assms(2) by (simp add: word_le_nat_alt unat_word_ariths STACK_SIZE_def)
  ultimately show ?thesis
    using le by (auto simp: allowed_def Let_def word_le_nat_alt)
qed

lemma stack_access:
  assumes "- int STACK_SIZE \<le> sint (off :: u16)" "sint off \<le> 0" "STACK_SIZE \<le> unat (r10 :: u64)"
  shows "unat r10 \<le> unat (r10 + off64 off) + STACK_SIZE" "unat (r10 + off64 off) \<le> unat r10"
proof -
  let ?k = "nat (- sint off)"
  have k: "?k \<le> unat r10" using assms by linarith
  have "off64 off = - word_of_int (- sint off)" by (simp only: off64_def scast_eq wi_hom_neg minus_minus)
  also have "word_of_int (- sint off) = (of_nat ?k :: u64)" using assms(2) by (metis nat_0_le neg_0_le_iff_le of_int_of_nat_eq)
  finally have "r10 + off64 off = r10 - of_nat ?k" by (simp only: diff_conv_add_uminus)
  moreover have "unat (of_nat ?k :: u64) = ?k"
    by (simp only: unsigned_of_nat of_nat_id) (rule take_bit_nat_eq_self, rule le_less_trans[OF k unsigned_less])
  moreover have "unat (r10 - of_nat ?k) = unat r10 - unat (of_nat ?k :: u64)"
    using k calculation(2) by (intro unat_sub) (simp only: word_le_nat_alt)
  ultimately have "unat (r10 + off64 off) = unat r10 - ?k" by (simp only:)
  then show "unat r10 \<le> unat (r10 + off64 off) + STACK_SIZE" "unat (r10 + off64 off) \<le> unat r10"
    using assms k by linarith+
qed

lemma write_bytes_other:
  "\<forall>i < length bs. a \<noteq> addr + of_nat i \<Longrightarrow> write_bytes h addr bs a = h a"
proof (induction bs arbitrary: h addr)
  case (Cons b bs)
  have "a \<noteq> addr" using Cons.prems[rule_format, of 0] by simp
  moreover have "\<forall>i < length bs. a \<noteq> addr + 1 + of_nat i"
  proof (intro allI impI)
    fix i assume "i < length bs"
    with Cons.prems[rule_format, of "Suc i"] show "a \<noteq> addr + 1 + of_nat i" by (simp add: add.assoc)
  qed
  ultimately show ?case using Cons.IH[of "addr + 1"] by simp
qed simp

text \<open>A store changes at most the eight bytes from its address on.\<close>

lemma exec_store_bytes:
  assumes "exec_store env sz inst v s = Next t" and "heap t a \<noteq> heap s a"
  shows "\<exists>i < size_bytes sz. a = reg s (dst inst) + off64 (offset inst) + of_nat i" "size_bytes sz \<le> 8"
proof -
  let ?addr = "reg s (dst inst) + off64 (offset inst)"
  have st: "heap t = store_mem (heap s) ?addr (size_bytes sz) v"
    using assms(1) by (auto simp: exec_store_def Let_def split: if_splits)
  show "\<exists>i < size_bytes sz. a = ?addr + of_nat i"
    using write_bytes_other[of "bytes_of (size_bytes sz) v" a ?addr "heap s"] assms(2)
    by (auto simp: st store_mem_def length_bytes_of)
  show "size_bytes sz \<le> 8" by (cases sz) auto
qed

lemma exec_step_heap:
  assumes "exec_step vm env prog t = Next u" "heap u x \<noteq> heap t x" "inst = prog ! unat (pc t)" "opcode inst \<noteq> CALL"
  shows "is_store inst \<and> (\<exists>i < 8. x = reg t (base inst) + off64 (offset inst) + of_nat i)"
proof -
  have e: "exec_inst vm env prog inst (opcode inst) (t\<lparr>pc := pc t + 1\<rparr>) = Next u"
    using assms(1,3) by (auto simp: exec_step_def Let_def split: if_splits)
  have st: ?thesis if "exec_store env sz inst v (t\<lparr>pc := pc t + 1\<rparr>) = Next u" "opcode inst = ST sz \<or> opcode inst = STX sz" for sz v
  proof -
    have "is_store inst" "base inst = dst inst" using that(2) by (auto simp: is_store_def base_def is_load_def)
    then show ?thesis using exec_store_bytes[OF that(1), of x] assms(2) by (auto dest: less_le_trans)
  qed
  have alu: "exec_alu f op k inst (t\<lparr>pc := pc t + 1\<rparr>) = Next u \<Longrightarrow> heap u = heap t" for f op k
    by (auto simp: exec_alu_def split: if_splits option.splits)
  show ?thesis
  proof (cases "opcode inst")
    case (ST sz)
    then show ?thesis using e st by auto
  next
    case (STX sz)
    then show ?thesis using e st by auto
  qed (use e assms(2,4) alu in \<open>auto simp: Let_def split: if_splits\<close>)
qed

lemma store_range:
  assumes "i < 8" "x = a + of_nat i" "lo \<le> unat (a :: u64)" "unat a \<le> hi" "hi + 8 < 2 ^ 64"
  shows "lo \<le> unat x \<and> unat x < hi + 8"
proof -
  have "unat a + i < 2 ^ 64" using assms by linarith
  then have "unat x = unat a + i" using assms(2) by (simp add: unat_word_ariths unsigned_of_nat take_bit_nat_eq_self)
  then show ?thesis using assms by linarith
qed

lemma isolated_access:
  assumes "valid_prog vm prog" "pos prog (length prog) < 65536" "run_inv prog memory_ptr memory_size r10 t"
    and "unat (pc t) < length (rewrite_with_memchecks prog memory_ptr memory_size (rewrite_pcs prog))"
      "inst = rewrite_with_memchecks prog memory_ptr memory_size (rewrite_pcs prog) ! unat (pc t)" "is_load inst \<or> is_store inst"
    and m: "unat memory_ptr + unat memory_size + 8 < 2 ^ 64" "STACK_SIZE \<le> unat r10" "unat r10 + STACK_SIZE < 2 ^ 64"
    and a: "a = reg t (base inst) + off64 (offset inst)"
  shows "unat memory_ptr \<le> unat a \<and> unat a \<le> unat memory_ptr + unat memory_size \<or>
    unat r10 - STACK_SIZE \<le> unat a \<and> unat a \<le> unat r10"
proof -
  have r: "reg t 10 = r10" using assms(3) by (simp add: run_inv_def)
  from run_access[OF assms(1-6)] show ?thesis
  proof
    assume "allowed memory_ptr memory_size r10 (reg t (base inst) + off64 (offset inst))"
    then show ?thesis using m by (simp only: a allowed_iff) linarith
  next
    assume "base inst = 10 \<and> - int STACK_SIZE \<le> sint (offset inst) \<and> sint (offset inst) \<le> 0"
    then have b: "base inst = 10" "- int STACK_SIZE \<le> sint (offset inst)" "sint (offset inst) \<le> 0" by auto
    show ?thesis using stack_access[OF b(2,3) m(2)] unfolding a b(1) r by linarith
  qed
qed

end
