(* ===== verification/UbpfCorrect.thy ===== *)
theory UbpfCorrect
  imports UbpfIsolation
begin

text \<open>
  The main results about the virtual machine of plugins: validated programs, whole runs of
  rewritten programs, the accesses the checks admit, and the stores of the interpreter.
\<close>

section \<open>Runs\<close>

text \<open>A whole run.\<close>

definition accesses_allowed ::
  "ubpf_vm \<Rightarrow> exec_env \<Rightarrow> ebpf_inst list \<Rightarrow> u64 \<Rightarrow> u32 \<Rightarrow> exec_state \<Rightarrow> bool" where
  "accesses_allowed vm env prog memory_ptr memory_size s \<longleftrightarrow>
     (\<forall>t. exec_reach vm env prog s t \<longrightarrow> unat (pc t) < length prog \<longrightarrow> guarded (prog ! unat (pc t)) \<longrightarrow>
       allowed memory_ptr memory_size (reg t 10)
         (reg t (base (prog ! unat (pc t))) + off64 (offset (prog ! unat (pc t)))))"

lemma reach_loop:
  "exec_reach vm env prog s t \<Longrightarrow> exec_loop n vm env prog t = Some res \<Longrightarrow> \<exists>m. exec_loop m vm env prog s = Some res"
proof (induction arbitrary: n rule: exec_reach.induct)
  case (step t u)
  from step.hyps(2) step.prems have "exec_loop (Suc n) vm env prog t = Some res" by simp
  with step.IH show ?case by blast
qed blast

lemma loop_reach:
  "exec_loop n vm env prog s = Some (Inr v) \<Longrightarrow> \<exists>t. exec_reach vm env prog s t \<and> exec_step vm env prog t = Return v"
proof (induction n arbitrary: s)
  case (Suc n)
  then show ?case
    by (cases "exec_step vm env prog s") (auto intro: exec_reach.start dest!: Suc.IH dest: exec_reach_left)
qed simp

lemma sim_reach:
  assumes v: "valid_prog vm prog" and len: "pos prog (length prog) < 65536" and s: "pc s = 0"
    and al: "accesses_allowed vm env prog memory_ptr memory_size s"
  shows "exec_reach vm env prog s t \<Longrightarrow>
    \<exists>t'. exec_reach vm env (rewrite_with_memchecks prog memory_ptr memory_size (rewrite_pcs prog)) s t' \<and> sim prog t t'"
proof (induction rule: exec_reach.induct)
  case start
  have "sim prog s s" using s by (simp add: sim_def agree_def pos_def guards_def)
  then show ?case using exec_reach.start by blast
next
  case (step t u)
  then obtain t' where t': "exec_reach vm env (rewrite_with_memchecks prog memory_ptr memory_size (rewrite_pcs prog)) s t'"
    "sim prog t t'" by blast
  have ok: "pc_ok prog (pc t)" using exec_reach_pc_ok[OF step.hyps(1) v] valid_start[OF v] s by simp
  have k: "unat (pc t) < length prog" using step.hyps(2) by (auto simp: exec_step_def split: if_splits)
  have "simulated vm env prog (rewrite_with_memchecks prog memory_ptr memory_size (rewrite_pcs prog)) (Next u) t'"
    using sim_step[OF v len k _ _ t'(2), of memory_ptr memory_size env] al step.hyps ok k
    by (auto simp: accesses_allowed_def pc_ok_def)
  then show ?case using t'(1) by (auto simp: simulated_def intro: exec_reach_trans)
qed

lemma sim_result:
  assumes v: "valid_prog vm prog" and len: "pos prog (length prog) < 65536" and s: "pc s = 0"
    and al: "accesses_allowed vm env prog memory_ptr memory_size s"
    and run: "exec_loop n vm env prog s = Some (Inr v')"
  shows "\<exists>m. exec_loop m vm env (rewrite_with_memchecks prog memory_ptr memory_size (rewrite_pcs prog)) s = Some (Inr v')"
proof -
  let ?P = "rewrite_with_memchecks prog memory_ptr memory_size (rewrite_pcs prog)"
  obtain t where t: "exec_reach vm env prog s t" "exec_step vm env prog t = Return v'"
    using loop_reach[OF run] by blast
  obtain t' where t': "exec_reach vm env ?P s t'" "sim prog t t'"
    using sim_reach[OF v len s al t(1)] by blast
  have ok: "pc_ok prog (pc t)" using exec_reach_pc_ok[OF t(1) v] valid_start[OF v] s by simp
  have k: "unat (pc t) < length prog" using t(2) by (auto simp: exec_step_def split: if_splits)
  have "simulated vm env prog ?P (Return v') t'"
    using sim_step[OF v len k _ _ t'(2), of memory_ptr memory_size env] al t ok k
    by (auto simp: accesses_allowed_def pc_ok_def)
  then obtain u' where u': "exec_reach vm env ?P t' u'" "exec_step vm env ?P u' = Return v'"
    by (auto simp: simulated_def)
  then have "exec_loop (Suc 0) vm env ?P u' = Some (Inr v')" by simp
  from reach_loop[OF exec_reach_trans[OF u'(1) t'(1)] this] show ?thesis .
qed

section \<open>Stores\<close>

text \<open>The memory a program may use under the interpreter: its context and its stack.\<close>

definition in_areas :: "exec_env \<Rightarrow> u64 \<Rightarrow> bool" where
  "in_areas env a \<longleftrightarrow>
     mem env \<noteq> 0 \<and> unat (mem env) \<le> unat a \<and> unat a < unat (mem env) + unat (mem_len env) \<or>
     unat (stack env) \<le> unat a \<and> unat a < unat (stack env) + STACK_SIZE"

lemma bounds_check_areas:
  assumes b: "bounds_check env addr n" and i: "i < n" and w: "unat addr + n < 2 ^ 64"
    and areas: "unat (mem env) + unat (mem_len env) < 2 ^ 64" "unat (stack env) + STACK_SIZE < 2 ^ 64"
  shows "in_areas env (addr + of_nat i)"
proof -
  have "unat (of_nat i :: u64) = i" "unat (of_nat n :: u64) = n" "unat (of_nat STACK_SIZE :: u64) = STACK_SIZE"
    using i w areas(2) by (simp_all add: unsigned_of_nat take_bit_nat_eq_self)
  then have "unat (addr + of_nat i) = unat addr + i" "unat (addr + of_nat n) = unat addr + n"
    "unat (mem env + mem_len env) = unat (mem env) + unat (mem_len env)"
    "unat (stack env + of_nat STACK_SIZE) = unat (stack env) + STACK_SIZE"
    using i w areas by (simp_all add: unat_word_ariths)
  with b i show ?thesis by (auto simp: bounds_check_def in_areas_def word_le_nat_alt)
qed

lemma exec_store_areas:
  assumes "exec_store env sz inst v s = Next t" and "heap t a \<noteq> heap s a"
    and "unat (reg s (dst inst) + off64 (offset inst)) + 8 < 2 ^ 64"
    and "unat (mem env) + unat (mem_len env) < 2 ^ 64" "unat (stack env) + STACK_SIZE < 2 ^ 64"
  shows "in_areas env a"
proof -
  have "bounds_check env (reg s (dst inst) + off64 (offset inst)) (size_bytes sz)"
    using assms(1) by (auto simp: exec_store_def Let_def split: if_splits)
  from bounds_check_areas[OF this] exec_store_bytes[OF assms(1,2)] assms(3-5) show ?thesis by auto
qed

section \<open>Jumps\<close>

lemma exec_step_jump:
  assumes "valid_prog vm prog" "exec_step vm env prog t = Next u" "is_jump (prog ! unat (pc t))"
  shows "unat (pc u) < length prog \<or> opcode (prog ! unat (pc t)) \<noteq> JA \<and> pc u = pc t + 1"
proof -
  let ?inst = "prog ! unat (pc t)"
  have k: "unat (pc t) < length prog" using assms(2) by (auto simp: exec_step_def split: if_splits)
  then have e: "exec_inst vm env prog ?inst (opcode ?inst) (t\<lparr>pc := pc t + 1\<rparr>) = Next u"
    using assms(2) by (simp add: exec_step_def Let_def)
  have "pc u = pc t + 1 + offset ?inst \<or> opcode ?inst \<noteq> JA \<and> pc u = pc t + 1"
    using e assms(3) by (cases "opcode ?inst") (auto simp: is_jump_def split: if_splits)
  then show ?thesis using valid_jump(2-4)[OF assms(1) k assms(3)] by auto
qed

section \<open>Checks\<close>

text \<open>The check of an access of a rewritten program, when it passes and when it fails.\<close>

lemma rewrite_len:
  assumes "validate vm prog = Inr pcs" "length prog + ADDED_LOAD_STORE_INSTS * length pcs < 65536"
  shows "valid_prog vm prog" "pos prog (length prog) < 65536" "pcs = rewrite_pcs prog"
  using validate_valid[OF assms(1)] assms(2) by (simp_all add: pos_def guards_def rewrite_pcs_def)

lemma access_reached:
  assumes v: "valid_prog vm prog" "pos prog (length prog) < 65536" and k: "k < length prog" "guarded (prog ! k)" "pc s = of_nat (pos prog k)"
    and al: "allowed memory_ptr memory_size (reg s 10) (reg s (base (prog ! k)) + off64 (offset (prog ! k)))"
  shows "\<exists>v. exec_reach vm env (rewrite_with_memchecks prog memory_ptr memory_size pcs) s
      (s\<lparr>pc := of_nat (pos prog k + 20), reg := (reg s)(11 := v)\<rparr>)"
    "rewrite_with_memchecks prog memory_ptr memory_size pcs ! (pos prog k + 20) = prog ! k"
proof -
  have b: "base (prog ! k) \<noteq> 11" using valid_regs(3)[OF v(1) k(1)] guarded_op[OF k(2)] by simp
  have "rewrite_inst memory_ptr memory_size pcs k (prog ! k) =
      memcheck memory_ptr memory_size (base (prog ! k)) (offset (prog ! k)) @ [prog ! k]"
    using k(2) by (simp add: rewrite_inst_def guarded_def)
  then show "rewrite_with_memchecks prog memory_ptr memory_size pcs ! (pos prog k + 20) = prog ! k"
    using rewrite_nth(1)[OF k(1), of 20 memory_ptr memory_size pcs]
    by (simp add: nth_append length_memcheck ADDED_LOAD_STORE_INSTS_def)
  obtain v where "exec_reach vm env (rewrite_with_memchecks prog memory_ptr memory_size pcs)
      \<lparr>pc = of_nat (pos prog k), reg = reg s, heap = heap s\<rparr>
      \<lparr>pc = of_nat (pos prog k) + 20, reg = (reg s)(11 := v), heap = heap s\<rparr>"
    using memcheck_pass[OF guarded_block[OF v(2) k(1,2), of memory_ptr memory_size pcs] b al] by blast
  then show "\<exists>v. exec_reach vm env (rewrite_with_memchecks prog memory_ptr memory_size pcs) s
      (s\<lparr>pc := of_nat (pos prog k + 20), reg := (reg s)(11 := v)\<rparr>)" using k(3) by (cases s) auto
qed

lemma access_blocked:
  assumes v: "valid_prog vm prog" "pos prog (length prog) < 65536" and k: "k < length prog" "guarded (prog ! k)" "pc s = of_nat (pos prog k)"
    and al: "\<not> allowed memory_ptr memory_size (reg s 10) (reg s (base (prog ! k)) + off64 (offset (prog ! k)))"
    and f: "ext_funcs vm 0x7f = Some f"
      "f (reg s (base (prog ! k)) + off64 (offset (prog ! k))) memory_ptr (reg s 10) (reg s 4) (reg s 5) (heap s) = (v', h')"
  shows "\<exists>u. exec_reach vm env (rewrite_with_memchecks prog memory_ptr memory_size pcs) s u \<and> heap u = h' \<and>
    exec_step vm env (rewrite_with_memchecks prog memory_ptr memory_size pcs) u = Return v'"
proof -
  let ?P = "rewrite_with_memchecks prog memory_ptr memory_size pcs"
  let ?inst = "prog ! k" and ?w = "of_nat (pos prog k) :: u16"
  let ?a = "reg s (base ?inst) + off64 (offset ?inst)"
  have b: "base ?inst \<noteq> 11" using valid_regs(3)[OF v(1) k(1)] guarded_op[OF k(2)] by simp
  note blk = guarded_block[OF v(2) k(1,2), of memory_ptr memory_size pcs]
  obtain v where reach: "exec_reach vm env ?P s
      (s\<lparr>pc := ?w + 18, reg := (reg s)(11 := v, 1 := ?a, 2 := memory_ptr, 3 := reg s 10)\<rparr>)"
    using memcheck_fail[OF blk b al, of vm env "heap s"] k(3) by (cases s) auto
  let ?u = "s\<lparr>pc := ?w + 18, reg := (reg s)(11 := v, 1 := ?a, 2 := memory_ptr, 3 := reg s 10)\<rparr>"
  note blk' = blk[unfolded memcheck_def Let_def]
  have oob: "sint OOB_CALL = 127" "unat OOB_CALL = 127" by (simp_all add: OOB_CALL_def)
  let ?u' = "set_reg (?u\<lparr>pc := ?w + 19, heap := h'\<rparr>) 0 v'"
  have "exec_step vm env ?P ?u = Next ?u'"
    using block_step[OF blk', of 18 ?u vm env] f by (simp add: exec_call_def oob MAX_EXT_FUNCS_def add.commute[of ?w])
  moreover have "exec_step vm env ?P ?u' = Return v'"
    using block_step[OF blk', of 19 ?u' vm env] by simp
  ultimately show ?thesis using exec_reach.step[OF reach] by (intro exI[of _ ?u']) simp
qed

section \<open>Properties\<close>

definition sample_vm :: ubpf_vm where
  "sample_vm = \<lparr>insts = None, num_insts = 0, ext_funcs = (\<lambda>i. if i = 0x7f then Some (\<lambda>a b c d e h. (99, h)) else None),
     ext_func_names = (\<lambda>i. None)\<rparr>"

definition sample_env :: exec_env where
  "sample_env = \<lparr>mem = 0x1000, mem_len = 0x100, stack = 0x8000\<rparr>"

definition sample_prog :: "ebpf_inst list" where
  "sample_prog = [ebpf (LDX DW) 0 1 8 0, ebpf EXIT 0 0 0 0]"

definition sample_state :: "u64 \<Rightarrow> exec_state" where
  "sample_state a = \<lparr>pc = 0, reg = (\<lambda>x. 0)(1 := a, 10 := 0x8800), heap = (\<lambda>x. 0)\<rparr>"

lemma sample_validate: "validate sample_vm sample_prog = Inr [0]"
  by (simp add: validate_def sample_prog_def MAX_INSTS_def validate_loop.simps validate_inst_def Let_def
    validate_access_def base_def is_load_def is_store_def guarded_def MAX_LOAD_STORE_def)

lemma sample_pos: "pos sample_prog (length sample_prog) = 22"
  by (simp add: pos_def guards_def sample_prog_def guarded_def is_load_def is_store_def base_def ADDED_LOAD_STORE_INSTS_def)

text \<open>
  C7. Running a program that passed validation, the interpreter never executes the second half of
  a 64-bit load and never calls a function that is not registered. A jump that is taken leads to
  an instruction of the program, never past its end; only going on from the last instruction
  without a jump does that. What C leaves undefined can only be met by running past the last
  instruction, by a 32-bit division whose divisor is zero in its low half, or by a shift that is
  too large.
\<close>

theorem validated_run_safe:
  assumes "validate vm prog = Inr pcs" and "pc s = 0" and "exec_reach vm env prog s t"
  shows "unat (pc t) \<le> length prog \<and>
    (unat (pc t) < length prog \<longrightarrow> opcode (prog ! unat (pc t)) \<noteq> ZERO) \<and>
    (\<forall>u. exec_step vm env prog t = Next u \<and> is_jump (prog ! unat (pc t)) \<longrightarrow>
       unat (pc u) < length prog \<or> opcode (prog ! unat (pc t)) \<noteq> JA \<and> pc u = pc t + 1) \<and>
    (\<forall>f. exec_step vm env prog t = Undefined f \<longrightarrow>
       f = FetchOutOfRange \<and> unat (pc t) = length prog \<or> f = DivisionByZero \<or> f = ShiftOutOfRange)"
proof -
  note v = validate_valid(1)[OF assms(1)]
  have ok: "pc_ok prog (pc t)"
    using exec_reach_pc_ok[OF assms(3) v] valid_start[OF v] assms(2) by simp
  with exec_step_valid[OF v ok, of env] exec_step_jump[OF v] show ?thesis by (auto simp: pc_ok_def)
qed

theorem validated_run_safe_witness:
  "unat (pc (sample_state 0x1000)) \<le> length sample_prog \<and>
   exec_step sample_vm sample_env sample_prog (sample_state 0x1000) \<noteq> Undefined MissingFunction"
  using validated_run_safe[OF sample_validate _ exec_reach.start, of "sample_state 0x1000" sample_env]
  by (auto simp: sample_state_def)

text \<open>
  C5. The memory checks do not change what a program computes: when all accesses of the original
  program are to allowed addresses and the original program returns a value, the rewritten
  program, started in the same state, returns the same value. The rewritten program must fit
  the 16 bits of the program counter.
\<close>

theorem rewritten_program_same_result:
  assumes "validate vm prog = Inr pcs"
    and "length prog + ADDED_LOAD_STORE_INSTS * length pcs < 65536"
    and "pc s = 0" and "accesses_allowed vm env prog memory_ptr memory_size s"
    and "exec_loop n vm env prog s = Some (Inr v)"
  shows "\<exists>m. exec_loop m vm env (rewrite_with_memchecks prog memory_ptr memory_size pcs) s = Some (Inr v)"
proof -
  note val = validate_valid[OF assms(1)]
  have "pos prog (length prog) < 65536" using assms(2) val(2) by (simp add: pos_def guards_def)
  from sim_result[OF val(1) this assms(3,4,5)] show ?thesis
    unfolding val(2) rewrite_pcs_def .
qed

lemma sample_run: "exec_reach sample_vm sample_env sample_prog (sample_state a) t \<Longrightarrow>
    t = sample_state a \<or> unat (pc t) = 1"
proof (induction rule: exec_reach.induct)
  case (step t u)
  then show ?case
    by (auto simp: exec_step_def Let_def sample_prog_def sample_state_def split: if_splits)
qed simp

lemma sample_allowed: "accesses_allowed sample_vm sample_env sample_prog 0x1000 0x100 (sample_state 0x1000)"
  unfolding accesses_allowed_def
proof (intro allI impI)
  fix t
  assume "exec_reach sample_vm sample_env sample_prog (sample_state 0x1000) t" "guarded (sample_prog ! unat (pc t))"
  from sample_run[OF this(1)] this(2) have "t = sample_state 0x1000"
    by (auto simp: sample_prog_def guarded_def is_load_def is_store_def)
  then show "allowed 0x1000 0x100 (reg t 10)
      (reg t (base (sample_prog ! unat (pc t))) + off64 (offset (sample_prog ! unat (pc t))))"
    by (simp add: sample_state_def sample_prog_def base_def is_load_def off64_def allowed_iff STACK_SIZE_def)
qed

theorem rewritten_program_same_result_witness:
  "\<exists>m. exec_loop m sample_vm sample_env (rewrite_with_memchecks sample_prog 0x1000 0x100 [0]) (sample_state 0x1000)
     = Some (Inr 0)"
proof -
  have "exec_loop (Suc (Suc 0)) sample_vm sample_env sample_prog (sample_state 0x1000) = Some (Inr 0)"
    by (simp add: exec_step_def Let_def sample_prog_def sample_state_def sample_env_def
        bounds_check_def off64_def load_mem_def upt_rec)
  from rewritten_program_same_result[OF sample_validate _ _ sample_allowed this] show ?thesis
    by (simp add: sample_prog_def ADDED_LOAD_STORE_INSTS_def sample_state_def)
qed

text \<open>
  C6. Memory isolation over a whole run: at every moment of a run of the rewritten program from its
  start, a load or store that is about to be executed has its address between the start and the
  end of the plugin memory or in the 2048 bytes below the stack pointer the run started with, the
  two ends included. So no step but the call of a function changes memory outside these areas and
  the eight bytes that follow each of them; the check looks at the address only and admits
  an access of up to eight bytes that starts at the end of an area. The rewritten program must fit
  the 16 bits of the program counter, and the areas do not wrap around the address space.
\<close>

theorem rewritten_run_isolated:
  assumes "validate vm prog = Inr pcs"
    and "length prog + ADDED_LOAD_STORE_INSTS * length pcs < 65536"
    and "P = rewrite_with_memchecks prog memory_ptr memory_size pcs"
    and "pc s = 0" and "exec_reach vm env P s t" and "unat (pc t) < length P"
    and "unat memory_ptr + unat memory_size + 8 < 2 ^ 64"
    and "STACK_SIZE \<le> unat (reg s 10)" and "unat (reg s 10) + STACK_SIZE < 2 ^ 64"
    and "inst = P ! unat (pc t)" and "a = reg t (base inst) + off64 (offset inst)"
  shows "(is_load inst \<or> is_store inst \<longrightarrow>
      unat memory_ptr \<le> unat a \<and> unat a \<le> unat memory_ptr + unat memory_size \<or>
      unat (reg s 10) - STACK_SIZE \<le> unat a \<and> unat a \<le> unat (reg s 10)) \<and>
    (\<forall>u x. exec_step vm env P t = Next u \<and> opcode inst \<noteq> CALL \<and> heap u x \<noteq> heap t x \<longrightarrow>
      unat memory_ptr \<le> unat x \<and> unat x < unat memory_ptr + unat memory_size + 8 \<or>
      unat (reg s 10) - STACK_SIZE \<le> unat x \<and> unat x < unat (reg s 10) + 8)"
proof -
  note r = rewrite_len[OF assms(1,2)]
  have P: "P = rewrite_with_memchecks prog memory_ptr memory_size (rewrite_pcs prog)" using assms(3) r(3) by simp
  note inv = run_inv_reach[OF assms(5)[unfolded P] r(1,2) assms(4)]
  note acc = isolated_access[OF r(1,2) inv assms(6,10)[unfolded P] _ assms(7,8,9,11)]
  have "unat memory_ptr \<le> unat x \<and> unat x < unat memory_ptr + unat memory_size + 8 \<or>
      unat (reg s 10) - STACK_SIZE \<le> unat x \<and> unat x < unat (reg s 10) + 8"
    if "exec_step vm env P t = Next u" "opcode inst \<noteq> CALL" "heap u x \<noteq> heap t x" for u x
  proof -
    from exec_step_heap[OF that(1,3) assms(10) that(2)] obtain i where i: "is_store inst" "i < 8" "x = a + of_nat i"
      using assms(11) by auto
    have "unat (reg s 10) + 8 < 2 ^ 64" using assms(9) by (simp add: STACK_SIZE_def)
    then show ?thesis using acc i store_range[OF i(2,3)] assms(7) by blast
  qed
  with acc show ?thesis by blast
qed

theorem rewritten_run_isolated_witness:
  "\<exists>u. exec_step sample_vm sample_env (rewrite_with_memchecks [ebpf (ST B) 10 0 (- 8) 7, ebpf EXIT 0 0 0 0] 0x1000 0x100 [])
       (sample_state 0) = Next u \<and> heap u 0x87f8 = 7 \<and> heap u 0x9000 = 0"
proof -
  let ?prog = "[ebpf (ST B) 10 0 (- 8) 7, ebpf EXIT 0 0 0 0]"
  let ?P = "rewrite_with_memchecks ?prog 0x1000 0x100 []"
  let ?u = "(sample_state 0)\<lparr>pc := 1, heap := (\<lambda>x. 0)(0x87f8 := 7)\<rparr>"
  have off: "sint (- 8 :: u16) = - 8" by simp
  have val: "validate sample_vm ?prog = Inr []"
    by (simp add: validate_def MAX_INSTS_def validate_loop.simps validate_inst_def Let_def validate_access_def
      base_def is_load_def is_store_def guarded_def STACK_SIZE_def)
  have P: "?P = ?prog"
    by (simp add: rewrite_with_memchecks_def rewrite_inst_def is_load_def is_store_def is_jump_def base_def Let_def)
  have st: "exec_step sample_vm sample_env ?P (sample_state 0) = Next ?u"
    unfolding P by (simp add: exec_step_def Let_def sample_state_def sample_env_def exec_store_def bounds_check_def
        off64_def store_mem_def imm64_def STACK_SIZE_def)
  have "heap ?u 0x9000 = heap (sample_state 0) 0x9000"
    using rewritten_run_isolated[OF val, of ?P "0x1000" "0x100" "sample_state 0" sample_env "sample_state 0"] st
    by (auto simp: P sample_state_def STACK_SIZE_def ADDED_LOAD_STORE_INSTS_def exec_reach.start)
  then show ?thesis using st by (simp add: sample_state_def)
qed

text \<open>
  C28. Exactly which accesses the inserted check lets through: when the address is between the
  start of the plugin memory and its end, both included, or at most 2048 bytes below the stack
  pointer, the check arrives at the access with memory and all registers but the scratch register
  unchanged. Otherwise the error function is called with the address, the start of the memory and
  the stack pointer, and the run ends with its result, memory changed by that function only.
  The end of the memory is included and the size of the access plays no role.
\<close>

theorem memcheck_ranges:
  assumes "validate vm prog = Inr pcs"
    and "length prog + ADDED_LOAD_STORE_INSTS * length pcs < 65536"
    and "k < length prog" and "guarded (prog ! k)" and "pc s = of_nat (pos prog k)"
    and "unat memory_ptr + unat memory_size < 2 ^ 64" and "unat (reg s 10) + STACK_SIZE < 2 ^ 64"
    and "a = reg s (base (prog ! k)) + off64 (offset (prog ! k))"
    and "P = rewrite_with_memchecks prog memory_ptr memory_size pcs"
    and "ext_funcs vm 0x7f = Some f" and "f a memory_ptr (reg s 10) (reg s 4) (reg s 5) (heap s) = (v', h')"
  shows "if unat memory_ptr \<le> unat a \<and> unat a \<le> unat memory_ptr + unat memory_size \<or>
      unat a \<le> unat (reg s 10) \<and> unat (reg s 10) \<le> unat a + STACK_SIZE
    then (\<exists>v. exec_reach vm env P s (s\<lparr>pc := of_nat (pos prog k + 20), reg := (reg s)(11 := v)\<rparr>)) \<and>
      P ! (pos prog k + 20) = prog ! k
    else \<exists>u. exec_reach vm env P s u \<and> heap u = h' \<and> exec_step vm env P u = Return v'"
proof -
  note r = rewrite_len(1,2)[OF assms(1,2)] assms(3-5)
  let ?al = "allowed memory_ptr memory_size (reg s 10) (reg s (base (prog ! k)) + off64 (offset (prog ! k)))"
  note iff = allowed_iff[OF assms(6,7), of a, symmetric, unfolded assms(8)]
  show ?thesis
  proof (cases ?al)
    case True
    then show ?thesis unfolding assms(8,9) iff if_P[OF True] using access_reached[OF r True] by blast
  next
    case False
    then show ?thesis unfolding assms(8,9) iff if_not_P[OF False]
      using access_blocked[OF r False assms(10) assms(11)[unfolded assms(8)]] by blast
  qed
qed

theorem memcheck_ranges_witness:
  "(\<exists>v. exec_reach sample_vm sample_env (rewrite_with_memchecks sample_prog 0x1000 0x100 [0]) (sample_state 0x10f8)
     ((sample_state 0x10f8)\<lparr>pc := 20, reg := (reg (sample_state 0x10f8))(11 := v)\<rparr>)) \<and>
   (\<exists>u. exec_reach sample_vm sample_env (rewrite_with_memchecks sample_prog 0x1000 0x100 [0]) (sample_state 0x5000) u \<and>
     exec_step sample_vm sample_env (rewrite_with_memchecks sample_prog 0x1000 0x100 [0]) u = Return 99)"
proof
  note defs = sample_prog_def sample_vm_def ADDED_LOAD_STORE_INSTS_def guarded_def is_load_def base_def
      sample_state_def pos_def guards_def STACK_SIZE_def off64_def
  show "\<exists>v. exec_reach sample_vm sample_env (rewrite_with_memchecks sample_prog 0x1000 0x100 [0]) (sample_state 0x10f8)
     ((sample_state 0x10f8)\<lparr>pc := 20, reg := (reg (sample_state 0x10f8))(11 := v)\<rparr>)"
    using memcheck_ranges[OF sample_validate, of 0 "sample_state 0x10f8" "0x1000" "0x100" "0x1100" _
      "\<lambda>a b c d e h. (99, h)" 99 "\<lambda>x. 0" sample_env, OF _ _ _ _ _ _ _ refl]
    by (simp add: defs)
  show "\<exists>u. exec_reach sample_vm sample_env (rewrite_with_memchecks sample_prog 0x1000 0x100 [0]) (sample_state 0x5000) u \<and>
     exec_step sample_vm sample_env (rewrite_with_memchecks sample_prog 0x1000 0x100 [0]) u = Return 99"
    using memcheck_ranges[OF sample_validate, of 0 "sample_state 0x5000" "0x1000" "0x100" "0x5008" _
      "\<lambda>a b c d e h. (99, h)" 99 "\<lambda>x. 0" sample_env, OF _ _ _ _ _ _ _ refl]
    by (simp add: defs) blast
qed

text \<open>
  C27. The rewritten program has twenty more instructions for every guarded access, which is what
  \<open>ubpf_load\<close> allocates; the code of original instruction \<open>k\<close> ends at position
  \<open>pos prog (k + 1)\<close> with the instruction itself, a jump with its offset adapted so that it leads
  to the code of the original target.
\<close>

theorem rewrite_layout:
  assumes "validate vm prog = Inr pcs"
  shows "length (rewrite_with_memchecks prog memory_ptr memory_size pcs) =
      length prog + ADDED_LOAD_STORE_INSTS * length pcs \<and>
    (\<forall>k < length prog.
       rewrite_with_memchecks prog memory_ptr memory_size pcs ! (pos prog (Suc k) - 1) = moved prog k \<and>
       (is_jump (prog ! k) \<longrightarrow>
          of_nat (pos prog k) + 1 + offset (moved prog k) =
            (of_nat (pos prog (nat (int k + 1 + sint (offset (prog ! k))))) :: u16)))"
proof (intro conjI allI impI)
  note val = validate_valid[OF assms]
  have pcs: "pcs = rewrite_pcs prog" using val(2) by (simp add: rewrite_pcs_def)
  show "length (rewrite_with_memchecks prog memory_ptr memory_size pcs) =
      length prog + ADDED_LOAD_STORE_INSTS * length pcs"
    using val(2) by (simp add: length_rewrite pos_def guards_def)
  fix k assume k: "k < length prog"
  let ?d = "if guarded (prog ! k) then ADDED_LOAD_STORE_INSTS else 0"
  have "rewrite_inst memory_ptr memory_size pcs k (prog ! k) ! ?d = moved prog k"
    using rewrite_unguarded[of prog k memory_ptr memory_size] guarded_op[of "prog ! k"]
    by (auto simp: pcs rewrite_inst_def guarded_def moved_def nth_append length_memcheck)
  moreover have "pos prog (Suc k) - 1 = pos prog k + ?d" by (simp add: pos_Suc)
  moreover have "?d < length (rewrite_inst memory_ptr memory_size pcs k (prog ! k))"
    by (simp add: length_rewrite_inst)
  ultimately show "rewrite_with_memchecks prog memory_ptr memory_size pcs ! (pos prog (Suc k) - 1) = moved prog k"
    using rewrite_nth(1)[OF k, of ?d memory_ptr memory_size pcs] by simp
  assume j: "is_jump (prog ! k)"
  have u: "unat (of_nat k :: u16) = k"
    using k val(1) by (simp add: valid_prog_def MAX_INSTS_def unsigned_of_nat take_bit_nat_eq_self)
  have g: "\<not> guarded (prog ! k)" using j guarded_op by blast
  show "of_nat (pos prog k) + 1 + offset (moved prog k) =
      (of_nat (pos prog (nat (int k + 1 + sint (offset (prog ! k))))) :: u16)"
    using new_offset_target[OF k g] valid_jump(3,4)[OF val(1), of "of_nat k"] k j u
    by (simp add: moved_def Let_def)
qed

theorem rewrite_layout_witness:
  "length (rewrite_with_memchecks sample_prog 0x1000 0x100 [0]) = 22"
  using rewrite_layout[OF sample_validate, of "0x1000" "0x100"]
  by (simp add: sample_prog_def ADDED_LOAD_STORE_INSTS_def)

text \<open>
  C26. Under the interpreter a store that does not wrap around the address space changes memory
  only inside the context area and the stack; no other instruction but a call changes memory.
\<close>

theorem interpreter_stores_in_bounds:
  assumes "exec_step vm env prog s = Next t" and "opcode (prog ! unat (pc s)) \<noteq> CALL"
    and "unat (reg s (dst (prog ! unat (pc s))) + off64 (offset (prog ! unat (pc s)))) + 8 < 2 ^ 64"
    and "unat (mem env) + unat (mem_len env) < 2 ^ 64" and "unat (stack env) + STACK_SIZE < 2 ^ 64"
  shows "heap t a = heap s a \<or>
    (is_store (prog ! unat (pc s)) \<and> in_areas env a)"
proof -
  let ?inst = "prog ! unat (pc s)" and ?s = "s\<lparr>pc := pc s + 1\<rparr>"
  have step: "exec_inst vm env prog ?inst (opcode ?inst) ?s = Next t"
    using assms(1) by (auto simp: exec_step_def Let_def split: if_splits)
  have ar: "exec_store env sz ?inst v ?s = Next t \<Longrightarrow> heap t a = heap s a \<or> in_areas env a" for sz v
    using exec_store_areas[of env sz ?inst v ?s t a] assms(3-5) by auto
  have alu: "exec_alu f op k ?inst ?s = Next t \<Longrightarrow> heap t = heap s" for f op k
    by (auto simp: exec_alu_def split: if_splits option.splits)
  show ?thesis
    using step assms(2) ar alu
    by (cases "opcode ?inst") (auto simp: is_store_def Let_def split: if_splits)
qed

theorem interpreter_stores_in_bounds_witness:
  "\<exists>t. exec_step sample_vm sample_env [ebpf (ST B) 1 0 0 7] (sample_state 0x1000) = Next t \<and>
     heap t 0x1000 = 7 \<and> heap t 0x2000 = 0"
proof -
  have st: "exec_step sample_vm sample_env [ebpf (ST B) 1 0 0 7] (sample_state 0x1000) =
      Next ((sample_state 0x1000)\<lparr>pc := 1, heap := (\<lambda>x. 0)(0x1000 := 7)\<rparr>)"
    by (simp add: exec_step_def Let_def sample_state_def sample_env_def exec_store_def bounds_check_def
        off64_def store_mem_def imm64_def)
  from interpreter_stores_in_bounds[OF this, of "0x2000"] show ?thesis
    unfolding st by (simp add: sample_state_def sample_env_def off64_def STACK_SIZE_def in_areas_def)
qed

end
