(* ===== verification/TinyMT.thy ===== *)
theory TinyMT
  imports Prelude
begin

text \<open>
  The pseudo-random generator both ends of the erasure code derive coefficients from:
  \<^verbatim>\<open>simple_fec/window_framework/fec_schemes/prng/tinymt32.c\<close> and \<open>get_coefs\<close> of
  \<^verbatim>\<open>online_rlc_gf256/gf256/gf256.h\<close>. The functions that return floating-point numbers are not
  used by the plugin and not modelled.
\<close>

section \<open>The generator\<close>

record tinymt32 =
  status :: "u32 list"
  mat1 :: u32
  mat2 :: u32
  tmat :: u32

definition TINYMT32_MASK :: u32 where "TINYMT32_MASK = 0x7fffffff"

definition MIN_LOOP :: nat where "MIN_LOOP = 8"
definition PRE_LOOP :: nat where "PRE_LOOP = 8"

definition tinymt32_next_state :: "tinymt32 \<Rightarrow> tinymt32" where
  "tinymt32_next_state random =
     (let st = status random;
          y = st ! 3;
          x = (st ! 0 AND TINYMT32_MASK) XOR st ! 1 XOR st ! 2;
          x = x XOR push_bit 1 x;
          y = y XOR (drop_bit 1 y XOR x);
          st = st[0 := st ! 1];
          st = st[1 := st ! 2];
          st = st[2 := x XOR push_bit 10 y];
          st = st[3 := y];
          st = st[1 := st ! 1 XOR ((- (y AND 1)) AND mat1 random)];
          st = st[2 := st ! 2 XOR ((- (y AND 1)) AND mat2 random)]
      in random\<lparr>status := st\<rparr>)"

definition tinymt32_temper :: "tinymt32 \<Rightarrow> u32" where
  "tinymt32_temper random =
     (let st = status random;
          t0 = st ! 3;
          t1 = st ! 0 + drop_bit 8 (st ! 2);
          t0 = t0 XOR t1
      in t0 XOR ((- (t1 AND 1)) AND tmat random))"

definition tinymt32_generate_uint32 :: "tinymt32 \<Rightarrow> u32 \<times> tinymt32" where
  "tinymt32_generate_uint32 random =
     (let random = tinymt32_next_state random in (tinymt32_temper random, random))"

section \<open>Initialisation\<close>

definition ini_func1 :: "u32 \<Rightarrow> u32" where
  "ini_func1 x = (x XOR drop_bit 27 x) * 1664525"

definition ini_func2 :: "u32 \<Rightarrow> u32" where
  "ini_func2 x = (x XOR drop_bit 27 x) * 1566083941"

definition period_certification :: "tinymt32 \<Rightarrow> tinymt32" where
  "period_certification random =
     (let st = status random in
      if st ! 0 AND TINYMT32_MASK = 0 \<and> st ! 1 = 0 \<and> st ! 2 = 0 \<and> st ! 3 = 0
      then random\<lparr>status := st[0 := 84, 1 := 73, 2 := 78, 3 := 89]\<rparr> else random)"

definition init_status :: "u32 list \<Rightarrow> nat \<Rightarrow> u32 list" where
  "init_status st i =
     st[i mod 4 := st ! (i mod 4) XOR
       (of_nat i + 1812433253 * (st ! ((i - 1) mod 4) XOR drop_bit 30 (st ! ((i - 1) mod 4))))]"

definition tinymt32_init :: "tinymt32 \<Rightarrow> u32 \<Rightarrow> tinymt32" where
  "tinymt32_init random seed =
     (let random = random\<lparr>status := foldl init_status [seed, mat1 random, mat2 random, tmat random] [1..<MIN_LOOP]\<rparr>;
          random = period_certification random
      in (tinymt32_next_state ^^ PRE_LOOP) random)"

text \<open>
  The three loops of \<open>tinymt32_init_by_array\<close>: each mixes a number \<open>r\<close> into three words of the
  state, the first two by addition with \<open>ini_func1\<close>, the last by exclusive or with \<open>ini_func2\<close>.
\<close>

definition mix_add :: "u32 \<Rightarrow> u32 list \<times> nat \<Rightarrow> u32 list \<times> nat" where
  "mix_add key = (\<lambda>(st, i).
     let r = ini_func1 (st ! (i mod 4) XOR st ! ((i + 1) mod 4) XOR st ! ((i + 3) mod 4));
         st = st[(i + 1) mod 4 := st ! ((i + 1) mod 4) + r];
         r = r + key + of_nat i;
         st = st[(i + 2) mod 4 := st ! ((i + 2) mod 4) + r];
         st = st[i mod 4 := r]
     in (st, (i + 1) mod 4))"

definition mix_xor :: "u32 list \<times> nat \<Rightarrow> u32 list \<times> nat" where
  "mix_xor = (\<lambda>(st, i).
     let r = ini_func2 (st ! (i mod 4) + st ! ((i + 1) mod 4) + st ! ((i + 3) mod 4));
         st = st[(i + 1) mod 4 := st ! ((i + 1) mod 4) XOR r];
         r = r - of_nat i;
         st = st[(i + 2) mod 4 := st ! ((i + 2) mod 4) XOR r];
         st = st[i mod 4 := r]
     in (st, (i + 1) mod 4))"

definition tinymt32_init_by_array :: "tinymt32 \<Rightarrow> u32 list \<Rightarrow> tinymt32" where
  "tinymt32_init_by_array random init_key =
     (let key_length = length init_key;
          st = [0, mat1 random, mat2 random, tmat random];
          count = (if key_length + 1 > MIN_LOOP then key_length + 1 else MIN_LOOP);
          r = ini_func1 (st ! 0 XOR st ! 1 XOR st ! 3);
          st = st[1 := st ! 1 + r];
          r = r + of_nat key_length;
          st = st[2 := st ! 2 + r];
          st = st[0 := r];
          count = count - 1;
          si = foldl (\<lambda>si key. mix_add key si) (st, 1) (take count init_key);
          si = (mix_add 0 ^^ (count - key_length)) si;
          si = (mix_xor ^^ 4) si;
          random = period_certification (random\<lparr>status := fst si\<rparr>)
      in (tinymt32_next_state ^^ PRE_LOOP) random)"

section \<open>Coefficients\<close>

fun get_coefs_loop :: "nat \<Rightarrow> tinymt32 \<Rightarrow> bytes" where
  "get_coefs_loop 0 prng = []"
| "get_coefs_loop (Suc n) prng =
     (let (v, prng) = tinymt32_generate_uint32 prng;
          c = (ucast v :: u8)
      in (if c = 0 then 1 else c) # get_coefs_loop n prng)"

definition get_coefs :: "tinymt32 \<Rightarrow> u32 \<Rightarrow> nat \<Rightarrow> bytes" where
  "get_coefs prng seed n = get_coefs_loop n (tinymt32_init prng seed)"

text \<open>The parameters both ends use; the state is set by the initialisation.\<close>

definition fec_prng :: tinymt32 where
  "fec_prng = \<lparr>status = [0, 0, 0, 0], mat1 = 0x8f7011ee, mat2 = 0xfc78ff1f, tmat = 0x3793fdff\<rparr>"

section \<open>The state never degenerates\<close>

text \<open>The 127 bits of the state that matter are not all zero.\<close>

definition live :: "tinymt32 \<Rightarrow> bool" where
  "live random \<longleftrightarrow> length (status random) = 4 \<and>
     \<not> (status random ! 0 AND TINYMT32_MASK = 0 \<and> status random ! 1 = 0 \<and>
        status random ! 2 = 0 \<and> status random ! 3 = 0)"

lemma xor_push_1_eq_0:
  fixes x :: "'a::len word"
  assumes x: "x XOR push_bit 1 x = 0"
  shows "x = 0"
proof (rule bit_word_eqI)
  fix n
  have b: "bit (x XOR push_bit 1 x) k = False" for k using x by (simp only: bit_0_eq bot_fun_def bot_bool_def)
  assume "n < LENGTH('a)"
  then show "bit x n = bit 0 n"
  proof (induction n)
    case 0
    from b[of 0] show ?case by (simp only: bit_xor_iff bit_push_bit_iff) simp
  next
    case (Suc n)
    with b[of "Suc n"] show ?case by (simp only: bit_xor_iff bit_push_bit_iff) simp
  qed
qed

lemma xor_drop_1_eq_0:
  fixes x :: "'a::len word"
  assumes x: "x XOR drop_bit 1 x = 0"
  shows "x = 0"
proof (rule bit_word_eqI)
  fix n
  have b: "bit x k = bit x (Suc k)" for k
  proof -
    have "bit (x XOR drop_bit 1 x) k = False" using x by (simp only: bit_0_eq bot_fun_def bot_bool_def)
    then show ?thesis by (simp only: bit_xor_iff bit_drop_bit_eq) (simp add: comp_def)
  qed
  have "bit x n = bit x (n + k)" for k by (induction k) (simp_all flip: b)
  from this[of "LENGTH('a)"] show "bit x n = bit 0 n"
    using bit_imp_le_length[of x "n + LENGTH('a)"] by auto
qed

lemma mask_self: "a AND TINYMT32_MASK = b \<Longrightarrow> b AND TINYMT32_MASK = b"
  by (auto simp: and.assoc)

lemma four_words:
  "[a, b, c, d] ! 0 = a" "[a, b, c, d] ! 1 = b" "[a, b, c, d] ! 2 = c" "[a, b, c, d] ! 3 = d"
  "[a, b, c, d][0 := e] = [e, b, c, d]" "[a, b, c, d][1 := e] = [a, e, c, d]"
  "[a, b, c, d][2 := e] = [a, b, e, d]" "[a, b, c, d][3 := e] = [a, b, c, e]"
  by (simp_all add: eval_nat_numeral)

lemma status_update: "status (random\<lparr>status := st\<rparr>) = st"
  by simp

lemma xor_eq_0_iff: "a XOR b = 0 \<longleftrightarrow> a = b" for a b :: "'a::len word"
  by (metis xor.assoc xor.left_neutral xor_self_eq)

lemma next_state_live: "live random \<Longrightarrow> live (tinymt32_next_state random)"
proof -
  assume lv: "live random"
  then obtain a b c d where st: "status random = [a, b, c, d]"
    by (auto simp: live_def numeral_eq_Suc length_Suc_conv)
  let ?x0 = "(a AND TINYMT32_MASK) XOR b XOR c"
  let ?x = "?x0 XOR push_bit 1 ?x0"
  let ?y = "d XOR (drop_bit 1 d XOR ?x)"
  have next_st: "status (tinymt32_next_state random) =
      [b, c XOR ((- (?y AND 1)) AND mat1 random), (?x XOR push_bit 10 ?y) XOR ((- (?y AND 1)) AND mat2 random), ?y]"
    by (simp only: tinymt32_next_state_def st Let_def four_words status_update)
  have False if z: "b AND TINYMT32_MASK = 0" "c XOR ((- (?y AND 1)) AND mat1 random) = 0"
      "(?x XOR push_bit 10 ?y) XOR ((- (?y AND 1)) AND mat2 random) = 0" "?y = 0"
  proof -
    from z(2,3) have c: "c = 0" and x: "?x = 0" unfolding z(4) by simp_all
    from xor_push_1_eq_0[OF x] have "(a AND TINYMT32_MASK) XOR b = 0" by (simp add: c)
    then have b: "a AND TINYMT32_MASK = b" by (simp add: xor_eq_0_iff)
    from mask_self[OF b] z(1) have "b = 0" by simp
    moreover from z(4)[unfolded x] have "d XOR drop_bit 1 d = 0" by (simp only: xor.right_neutral)
    then have "d = 0" by (rule xor_drop_1_eq_0)
    ultimately show False using lv b c by (simp add: live_def st)
  qed
  then show ?thesis unfolding live_def next_st by auto
qed

lemma funpow_next_state_live: "live random \<Longrightarrow> live ((tinymt32_next_state ^^ n) random)"
  by (induction n) (simp_all add: next_state_live)

lemma certified_live: "length (status random) = 4 \<Longrightarrow> live (period_certification random)"
  by (auto simp: period_certification_def live_def TINYMT32_MASK_def Let_def)

lemma length_init_status: "length (foldl init_status st is) = length st"
  by (induction "is" arbitrary: st) (simp_all add: init_status_def)

lemma init_live: "live (tinymt32_init random seed)"
  unfolding tinymt32_init_def Let_def
  by (intro funpow_next_state_live certified_live) (simp add: length_init_status)

lemma coefs_length: "length (get_coefs_loop n prng) = n"
  by (induction n arbitrary: prng) (simp_all add: Let_def split: prod.split)

lemma coefs_nonzero: "0 \<notin> set (get_coefs_loop n prng)"
  by (induction n arbitrary: prng) (auto simp: Let_def split: prod.splits if_splits)

section \<open>Properties\<close>

text \<open>
  C15. The coefficients of a repair symbol depend on the seed and the generator parameters only,
  there are as many as asked for and none is zero; the generator behind them is never in the
  all-zero state, from which it could not leave, whatever the seed.
\<close>

theorem get_coefs_correct:
  "length (get_coefs prng seed n) = n \<and> 0 \<notin> set (get_coefs prng seed n) \<and>
   get_coefs (prng\<lparr>status := st\<rparr>) seed n = get_coefs prng seed n \<and>
   live ((tinymt32_next_state ^^ k) (tinymt32_init prng seed))"
proof (intro conjI)
  show "length (get_coefs prng seed n) = n" by (simp add: get_coefs_def coefs_length)
  show "0 \<notin> set (get_coefs prng seed n)" by (simp add: get_coefs_def coefs_nonzero)
  show "get_coefs (prng\<lparr>status := st\<rparr>) seed n = get_coefs prng seed n"
    by (simp add: get_coefs_def tinymt32_init_def)
  show "live ((tinymt32_next_state ^^ k) (tinymt32_init prng seed))"
    by (rule funpow_next_state_live[OF init_live])
qed

end
