(* ===== verification/GF256.thy ===== *)
theory GF256
  imports Prelude
begin

text \<open>
  The field with 256 elements of the erasure code and its operations on buffers:
  \<^verbatim>\<open>picoquic/gf256/gf256.c\<close>, \<^verbatim>\<open>picoquic/gf256/gf256.h\<close>, and in the plugin
  \<^verbatim>\<open>simple_fec/window_framework/fec_schemes/online_rlc_gf256/gf256\<close> the files
  \<^verbatim>\<open>swif_symbol.h\<close> and \<^verbatim>\<open>generated_table_code.c\<close>.

  Bytes with exclusive or and \<open>gf256_mul_formula\<close> are a field whose inverses are the generated
  table: the type \<open>gf\<close> is an instance of the class \<open>field\<close>, so the algebra of the library
  applies to equations over bytes. The external library that does the arithmetic on whole
  buffers is a parameter; its contract is a locale, interpreted on the code that the sources use
  when they are built without it.
\<close>

section \<open>Multiplication\<close>

fun gf256_mul_loop :: "nat \<Rightarrow> u8 \<Rightarrow> u8 \<Rightarrow> u8 \<Rightarrow> u8" where
  "gf256_mul_loop 0 a b p = p"
| "gf256_mul_loop (Suc n) a b p =
     (let p = (if b mod 2 = 1 then p XOR a else p);
          b = drop_bit 1 b;
          carry = (a AND 0x80 \<noteq> 0);
          a = push_bit 1 a;
          a = (if carry then a XOR 0x1d else a)
      in gf256_mul_loop n a b p)"

definition gf256_mul_formula :: "u8 \<Rightarrow> u8 \<Rightarrow> u8" where
  "gf256_mul_formula a b = gf256_mul_loop 8 a b 0"

section \<open>Tables\<close>

text \<open>\<open>assign_mul\<close> and \<open>assign_inv\<close>: the tables the plugin fills when it creates a code.\<close>

definition assign_mul :: "u8 list list" where
  "assign_mul = map (\<lambda>i. map (\<lambda>j. gf256_mul_formula (of_nat i) (of_nat j)) [0..<256]) [0..<256]"

definition assign_inv :: "u8 list" where
  "assign_inv =
    [
     0, 1, 142, 244, 71, 167, 122, 186, 173, 157, 221, 152, 61, 170, 93, 150,
     216, 114, 192, 88, 224, 62, 76, 102, 144, 222, 85, 128, 160, 131, 75, 42,
     108, 237, 57, 81, 96, 86, 44, 138, 112, 208, 31, 74, 38, 139, 51, 110,
     72, 137, 111, 46, 164, 195, 64, 94, 80, 34, 207, 169, 171, 12, 21, 225,
     54, 95, 248, 213, 146, 78, 166, 4, 48, 136, 43, 30, 22, 103, 69, 147,
     56, 35, 104, 140, 129, 26, 37, 97, 19, 193, 203, 99, 151, 14, 55, 65,
     36, 87, 202, 91, 185, 196, 23, 77, 82, 141, 239, 179, 32, 236, 47, 50,
     40, 209, 17, 217, 233, 251, 218, 121, 219, 119, 6, 187, 132, 205, 254, 252,
     27, 84, 161, 29, 124, 204, 228, 176, 73, 49, 39, 45, 83, 105, 2, 245,
     24, 223, 68, 79, 155, 188, 15, 92, 11, 220, 189, 148, 172, 9, 199, 162,
     28, 130, 159, 198, 52, 194, 70, 5, 206, 59, 13, 60, 156, 8, 190, 183,
     135, 229, 238, 107, 235, 242, 191, 175, 197, 100, 7, 123, 149, 154, 174, 182,
     18, 89, 165, 53, 101, 184, 163, 158, 210, 247, 98, 90, 133, 125, 168, 58,
     41, 113, 200, 246, 249, 67, 215, 214, 16, 115, 118, 120, 153, 10, 25, 145,
     20, 63, 230, 240, 134, 177, 226, 241, 250, 116, 243, 180, 109, 33, 178, 106,
     227, 231, 181, 234, 3, 143, 211, 201, 66, 212, 232, 117, 127, 255, 126, 253]"

text \<open>A read of the multiplication table.\<close>

definition gf256_mul :: "u8 \<Rightarrow> u8 \<Rightarrow> u8 list list \<Rightarrow> u8" where
  "gf256_mul a b mul = mul ! unat a ! unat b"

section \<open>Operations on buffers\<close>

text \<open>
  A buffer argument is the memory from the pointer to the end of the object; \<open>None\<close> is an access
  outside. \<open>gflib\<close> is the external library \<^verbatim>\<open>moepgf\<close>, whose two operations multiply a region by a
  constant and add a multiple of a region; a build without the library has \<open>None\<close> here.
\<close>

record gf_library =
  maddrc :: "bytes \<Rightarrow> bytes \<Rightarrow> u8 \<Rightarrow> nat \<Rightarrow> bytes option"
  mulrc :: "bytes \<Rightarrow> u8 \<Rightarrow> nat \<Rightarrow> bytes option"

function symbol_add_loop :: "nat \<Rightarrow> nat \<Rightarrow> bytes \<Rightarrow> bytes \<Rightarrow> bytes option" where
  "symbol_add_loop i n data1 data2 =
     (if i < n then do {
        a \<leftarrow> rd data1 i;
        b \<leftarrow> rd data2 i;
        symbol_add_loop (i + 1) n (data1[i := a XOR b]) data2
      } else Some data1)"
  by pat_completeness auto
termination by (relation "measure (\<lambda>(i, n, data1, data2). n - i)") auto

definition symbol_add_slow_safe :: "bytes \<Rightarrow> bytes \<Rightarrow> nat \<Rightarrow> bytes option" where
  "symbol_add_slow_safe symbol1 symbol2 symbol_size = symbol_add_loop 0 symbol_size symbol1 symbol2"

function symbol_add_words :: "nat \<Rightarrow> nat \<Rightarrow> bytes \<Rightarrow> bytes \<Rightarrow> bytes option" where
  "symbol_add_words i n data1 data2 =
     (if i < n then do {
        a \<leftarrow> load64 data1 i;
        b \<leftarrow> load64 data2 i;
        symbol_add_words (i + 1) n (store64 data1 i (a XOR b)) data2
      } else Some data1)"
  by pat_completeness auto
termination by (relation "measure (\<lambda>(i, n, data1, data2). n - i)") auto

definition symbol_add_fast_safe :: "bytes \<Rightarrow> bytes \<Rightarrow> nat \<Rightarrow> bytes option" where
  "symbol_add_fast_safe symbol1 symbol2 symbol_size =
     (let max_64_idx = symbol_size div 8 in do {
        data1 \<leftarrow> symbol_add_words 0 max_64_idx symbol1 symbol2;
        symbol_add_loop (max_64_idx * 8) symbol_size data1 symbol2
      })"

definition ALIGNMENT :: nat where "ALIGNMENT = 32"

definition align :: "nat \<Rightarrow> nat" where
  "align val = (val + ALIGNMENT - 1) div ALIGNMENT * ALIGNMENT"

definition align_below :: "nat \<Rightarrow> nat" where
  "align_below val =
     (let retval = align val in
      if retval > 0 \<and> retval \<noteq> val then retval - ALIGNMENT else retval)"

definition picoquic_gf256_symbol_add :: "gf_library option \<Rightarrow> bytes \<Rightarrow> bytes \<Rightarrow> nat \<Rightarrow> bytes option" where
  "picoquic_gf256_symbol_add lib symbol1 symbol2 symbol_size =
     (case lib of
        None \<Rightarrow> symbol_add_fast_safe symbol1 symbol2 symbol_size
      | Some gflib \<Rightarrow>
          let aligned_below_size = align_below symbol_size;
              remaining = symbol_size - aligned_below_size
          in do {
            symbol1 \<leftarrow>
              (if aligned_below_size > 0 then maddrc gflib symbol1 symbol2 1 aligned_below_size else Some symbol1);
            (if remaining > 0 then
               map_option (\<lambda>s. take aligned_below_size symbol1 @ s)
                 (symbol_add_fast_safe (drop aligned_below_size symbol1) (drop aligned_below_size symbol2) remaining)
             else Some symbol1)
          })"

function symbol_add_scaled_loop ::
  "nat \<Rightarrow> nat \<Rightarrow> bytes \<Rightarrow> u8 \<Rightarrow> bytes \<Rightarrow> u8 list list \<Rightarrow> bytes option" where
  "symbol_add_scaled_loop i n data1 coef data2 mul =
     (if i < n then do {
        a \<leftarrow> rd data1 i;
        b \<leftarrow> rd data2 i;
        symbol_add_scaled_loop (i + 1) n (data1[i := a XOR gf256_mul coef b mul]) coef data2 mul
      } else Some data1)"
  by pat_completeness auto
termination by (relation "measure (\<lambda>(i, n, data1, coef, data2, mul). n - i)") auto

definition picoquic_gf256_symbol_add_scaled ::
  "gf_library option \<Rightarrow> bytes \<Rightarrow> u8 \<Rightarrow> bytes \<Rightarrow> nat \<Rightarrow> u8 list list \<Rightarrow> bytes option" where
  "picoquic_gf256_symbol_add_scaled lib symbol1 coef symbol2 symbol_size mul =
     (case lib of
        None \<Rightarrow> symbol_add_scaled_loop 0 symbol_size symbol1 coef symbol2 mul
      | Some gflib \<Rightarrow> maddrc gflib symbol1 symbol2 coef symbol_size)"

function symbol_mul_loop :: "nat \<Rightarrow> nat \<Rightarrow> bytes \<Rightarrow> u8 \<Rightarrow> u8 list list \<Rightarrow> bytes option" where
  "symbol_mul_loop i n symbol1 coef mul =
     (if i < n then do {
        a \<leftarrow> rd symbol1 i;
        symbol_mul_loop (i + 1) n (symbol1[i := gf256_mul coef a mul]) coef mul
      } else Some symbol1)"
  by pat_completeness auto
termination by (relation "measure (\<lambda>(i, n, symbol1, coef, mul). n - i)") auto

definition picoquic_gf256_symbol_mul ::
  "gf_library option \<Rightarrow> bytes \<Rightarrow> u8 \<Rightarrow> nat \<Rightarrow> u8 list list \<Rightarrow> bytes option" where
  "picoquic_gf256_symbol_mul lib symbol1 coef symbol_size mul =
     (case lib of
        None \<Rightarrow> symbol_mul_loop 0 symbol_size symbol1 coef mul
      | Some gflib \<Rightarrow> mulrc gflib symbol1 coef symbol_size)"

function symbol_is_zero_words :: "nat \<Rightarrow> nat \<Rightarrow> bytes \<Rightarrow> bool option" where
  "symbol_is_zero_words i n symbol =
     (if i < n then do {
        a \<leftarrow> load64 symbol i;
        (if a \<noteq> 0 then Some False else symbol_is_zero_words (i + 1) n symbol)
      } else Some True)"
  by pat_completeness auto
termination by (relation "measure (\<lambda>(i, n, symbol). n - i)") auto

function symbol_is_zero_loop :: "nat \<Rightarrow> nat \<Rightarrow> bytes \<Rightarrow> bool option" where
  "symbol_is_zero_loop i n symbol =
     (if i < n then do {
        a \<leftarrow> rd symbol i;
        (if a \<noteq> 0 then Some False else symbol_is_zero_loop (i + 1) n symbol)
      } else Some True)"
  by pat_completeness auto
termination by (relation "measure (\<lambda>(i, n, symbol). n - i)") auto

definition picoquic_gf256_symbol_is_zero :: "bytes \<Rightarrow> nat \<Rightarrow> bool option" where
  "picoquic_gf256_symbol_is_zero symbol symbol_size = do {
     z \<leftarrow> symbol_is_zero_words 0 (symbol_size div 8) symbol;
     (if z then symbol_is_zero_loop (symbol_size div 8 * 8) symbol_size symbol else Some False)
   }"

text \<open>
  The plugin's own versions in \<^verbatim>\<open>swif_symbol.h\<close>; its build uses the operations of the host.
\<close>

definition SYMBOL_FAST_MODE :: bool where "SYMBOL_FAST_MODE = False"
definition SYMBOL_USE_NATIVE_LIBRARY :: bool where "SYMBOL_USE_NATIVE_LIBRARY = True"

definition symbol_add_scaled :: "gf_library option \<Rightarrow> bytes \<Rightarrow> u8 \<Rightarrow> bytes \<Rightarrow> nat \<Rightarrow> u8 list list \<Rightarrow> bytes option" where
  "symbol_add_scaled lib symbol1 coef symbol2 symbol_size mul =
     (if SYMBOL_USE_NATIVE_LIBRARY then picoquic_gf256_symbol_add_scaled lib symbol1 coef symbol2 symbol_size mul
      else symbol_add_scaled_loop 0 symbol_size symbol1 coef symbol2 mul)"

definition symbol_add :: "gf_library option \<Rightarrow> bytes \<Rightarrow> bytes \<Rightarrow> nat \<Rightarrow> bytes option" where
  "symbol_add lib symbol1 symbol2 symbol_size =
     (if SYMBOL_USE_NATIVE_LIBRARY then picoquic_gf256_symbol_add lib symbol1 symbol2 symbol_size
      else if SYMBOL_FAST_MODE then symbol_add_fast_safe symbol1 symbol2 symbol_size
      else symbol_add_slow_safe symbol1 symbol2 symbol_size)"

definition symbol_mul :: "gf_library option \<Rightarrow> bytes \<Rightarrow> u8 \<Rightarrow> nat \<Rightarrow> u8 list list \<Rightarrow> bytes option" where
  "symbol_mul lib symbol1 coef symbol_size mul =
     (if SYMBOL_USE_NATIVE_LIBRARY then picoquic_gf256_symbol_mul lib symbol1 coef symbol_size mul
      else symbol_mul_loop 0 symbol_size symbol1 coef mul)"

lemma symbol_native [simp]:
  "symbol_add_scaled = picoquic_gf256_symbol_add_scaled" "symbol_add = picoquic_gf256_symbol_add"
  "symbol_mul = picoquic_gf256_symbol_mul"
  by (simp_all add: fun_eq_iff symbol_add_scaled_def symbol_add_def symbol_mul_def SYMBOL_USE_NATIVE_LIBRARY_def)

declare symbol_add_loop.simps [simp del] symbol_add_words.simps [simp del]
  symbol_add_scaled_loop.simps [simp del] symbol_mul_loop.simps [simp del]
  symbol_is_zero_words.simps [simp del] symbol_is_zero_loop.simps [simp del]

section \<open>Algebra of the multiplication\<close>

definition xtime :: "u8 \<Rightarrow> u8" where
  "xtime a = (if a AND 0x80 \<noteq> 0 then push_bit 1 a XOR 0x1d else push_bit 1 a)"

lemma and_80: "a AND 0x80 \<noteq> 0 \<longleftrightarrow> bit a 7" for a :: u8
  using and_exp_eq_0_iff_not_bit[of a 7] by simp

lemma mod_2_bit: "b mod 2 = 1 \<longleftrightarrow> bit b 0" for b :: u8
  by (simp add: bit_0 odd_iff_mod_2_eq_one)

lemma xor_self_left [simp]: "x XOR (x XOR y) = y" for x y :: "'a::len word"
  by (simp flip: xor.assoc)

lemmas xor_ac = xor.assoc xor.commute xor.left_commute

lemma xtime_xor: "xtime (a XOR b) = xtime a XOR xtime b"
  by (simp add: xtime_def and_80 bit_xor_iff push_bit_xor xor_ac)

lemma xtime_0 [simp]: "xtime 0 = 0"
  by (simp add: xtime_def)

lemma mul_loop_acc: "gf256_mul_loop n a b p = p XOR gf256_mul_loop n a b 0"
proof (induction n arbitrary: a b p)
  case (Suc n)
  show ?case
    by (simp only: gf256_mul_loop.simps Let_def Suc.IH[of _ _ "if b mod 2 = 1 then p XOR a else p"]
      Suc.IH[of _ _ "if b mod 2 = 1 then 0 XOR a else 0"]) (simp add: xor.assoc)
qed simp

lemma mul_loop_Suc: "gf256_mul_loop (Suc n) a b 0 = (if bit b 0 then a else 0) XOR gf256_mul_loop n (xtime a) (drop_bit 1 b) 0"
  by (simp add: Let_def mul_loop_acc[of n _ _ a] xtime_def mod_2_bit)

lemma mul_loop_xor_left:
  "gf256_mul_loop n (a XOR a') b 0 = gf256_mul_loop n a b 0 XOR gf256_mul_loop n a' b 0"
proof (induction n arbitrary: a a' b)
  case (Suc n)
  show ?case unfolding mul_loop_Suc xtime_xor Suc.IH by (simp add: xor_ac)
qed simp

lemma mul_loop_xor_right:
  "gf256_mul_loop n a (b XOR b') 0 = gf256_mul_loop n a b 0 XOR gf256_mul_loop n a b' 0"
proof (induction n arbitrary: a b b')
  case (Suc n)
  show ?case unfolding mul_loop_Suc drop_bit_xor Suc.IH by (simp add: bit_xor_iff xor_ac)
qed simp

lemma mul_xor_left: "gf256_mul_formula (a XOR a') b = gf256_mul_formula a b XOR gf256_mul_formula a' b"
  by (simp add: gf256_mul_formula_def mul_loop_xor_left)

lemma mul_xor_right: "gf256_mul_formula a (b XOR b') = gf256_mul_formula a b XOR gf256_mul_formula a b'"
  by (simp add: gf256_mul_formula_def mul_loop_xor_right)

text \<open>Two linear functions that agree on the bits agree.\<close>

lemma linear_eqI:
  fixes f g :: "u8 \<Rightarrow> u8"
  assumes f: "\<And>x y. f (x XOR y) = f x XOR f y" and g: "\<And>x y. g (x XOR y) = g x XOR g y"
    and basis: "\<And>i. i < 8 \<Longrightarrow> f (push_bit i 1) = g (push_bit i 1)"
  shows "f x = g x"
proof -
  have z: "f 0 = g 0" using f[of 0 0] g[of 0 0] by simp
  have "f (take_bit n x) = g (take_bit n x)" if "n \<le> 8" for n
    using that
  proof (induction n)
    case (Suc n)
    have "take_bit (Suc n) x = take_bit n x XOR (if bit x n then push_bit n 1 else 0)"
      by (rule bit_eqI) (auto simp: bit_simps less_Suc_eq)
    with Suc z f g basis[of n] show ?case by (simp split: if_splits)
  qed (simp add: z)
  from this[of 8] show ?thesis by (simp add: take_bit_word_eq_self)
qed

lemma mul_loop_push: "i < n \<Longrightarrow> n \<le> 8 \<Longrightarrow> gf256_mul_loop n a (push_bit i 1) 0 = (xtime ^^ i) a"
proof (induction n arbitrary: i a)
  case (Suc n)
  show ?case
  proof (cases i)
    case 0
    have "gf256_mul_loop m b 0 0 = 0" for m b by (induction m arbitrary: b) (simp_all add: Let_def)
    with 0 show ?thesis unfolding mul_loop_Suc by simp
  next
    case (Suc j)
    have "drop_bit 1 (push_bit (Suc j) 1 :: u8) = push_bit j 1"
      using Suc Suc.prems by (intro bit_eqI) (auto simp: bit_simps)
    moreover have "\<not> bit (push_bit (Suc j) 1 :: u8) 0" by (simp add: bit_simps)
    ultimately show ?thesis
      using Suc Suc.prems Suc.IH[of j "xtime a"] unfolding mul_loop_Suc by (simp add: funpow_swap1)
  qed
qed simp

lemma mul_push: "i < 8 \<Longrightarrow> gf256_mul_formula a (push_bit i 1) = (xtime ^^ i) a"
  using mul_loop_push[of i 8 a] by (simp add: gf256_mul_formula_def)

lemma xtime_funpow_xor: "(xtime ^^ n) (a XOR b) = (xtime ^^ n) a XOR (xtime ^^ n) b"
  by (induction n) (simp_all add: xtime_xor)

lemma xtime_push: "i < 7 \<Longrightarrow> xtime (push_bit i 1) = push_bit (Suc i) 1"
  by (simp add: xtime_def and_80 bit_exp_iff push_bit_eq_mult)

lemma mul_loop_numeral: "gf256_mul_loop (numeral k) a b p =
    gf256_mul_loop (pred_numeral k) (xtime a) (drop_bit 1 b) (if b mod 2 = 1 then p XOR a else p)"
  by (simp add: numeral_eq_Suc xtime_def Let_def)

lemma mul_loop_1: "gf256_mul_loop (Suc 0) a b p = (if b mod 2 = 1 then p XOR a else p)"
  by simp

lemmas mul_eval = gf256_mul_formula_def mul_loop_numeral mul_loop_1 xtime_def

lemma less_8: "(i :: nat) < 8 \<Longrightarrow> i = 0 \<or> i = 1 \<or> i = 2 \<or> i = 3 \<or> i = 4 \<or> i = 5 \<or> i = 6 \<or> i = 7"
  by presburger

lemma funpow_8: "(f ^^ 8) x = f (f (f (f (f (f (f (f x)))))))" for f :: "'a \<Rightarrow> 'a"
  by (simp add: numeral_eq_Suc)

lemma mul_29: "gf256_mul_formula a 29 = (xtime ^^ 8) a"
proof (rule linear_eqI[where f = "\<lambda>a. gf256_mul_formula a 29"])
  fix i :: nat
  assume "i < 8"
  from less_8[OF this] show "gf256_mul_formula (push_bit i 1) 29 = (xtime ^^ 8) (push_bit i 1)"
    by (elim disjE) (simp_all add: mul_eval funpow_8)
qed (simp_all add: mul_xor_left xtime_funpow_xor)

lemma mul_1_left: "gf256_mul_formula 1 b = b"
proof (rule linear_eqI[where g = "\<lambda>b. b"])
  fix i :: nat
  assume i: "i < 8"
  then have "(xtime ^^ i) 1 = push_bit i 1"
  proof (induction i)
    case (Suc i)
    then show ?case using xtime_push[of i] by simp
  qed simp
  with mul_push[OF i, of 1] show "gf256_mul_formula 1 (push_bit i 1) = push_bit i 1" by simp
qed (simp_all add: mul_xor_right)

lemma mul_xtime_left: "gf256_mul_formula (xtime a) b = xtime (gf256_mul_formula a b)"
proof (rule linear_eqI[where f = "\<lambda>b. gf256_mul_formula (xtime a) b"])
  fix i :: nat
  assume "i < 8"
  then show "gf256_mul_formula (xtime a) (push_bit i 1) = xtime (gf256_mul_formula a (push_bit i 1))"
    using mul_push[of i a] mul_push[of i "xtime a"] by (simp add: funpow_swap1)
qed (simp_all add: mul_xor_right xtime_xor)

lemma mul_xtime_right: "gf256_mul_formula a (xtime b) = xtime (gf256_mul_formula a b)"
proof (rule linear_eqI[where f = "\<lambda>b. gf256_mul_formula a (xtime b)"])
  fix i :: nat
  assume i: "i < 8"
  show "gf256_mul_formula a (xtime (push_bit i 1)) = xtime (gf256_mul_formula a (push_bit i 1))"
  proof (cases "i = 7")
    case True
    have "xtime 128 = 29" by (simp add: xtime_def)
    with True show ?thesis using mul_push[of 7 a] mul_29[of a] by (simp add: funpow_8 eval_nat_numeral)
  next
    case False
    with i have "i < 7" by simp
    with xtime_push[OF this] mul_push[of "Suc i" a] mul_push[OF i, of a] show ?thesis by simp
  qed
qed (simp_all add: mul_xor_right xtime_xor)

lemma mul_funpow_left: "gf256_mul_formula ((xtime ^^ n) a) b = (xtime ^^ n) (gf256_mul_formula a b)"
  by (induction n) (simp_all add: mul_xtime_left)

lemma mul_funpow_right: "gf256_mul_formula a ((xtime ^^ n) b) = (xtime ^^ n) (gf256_mul_formula a b)"
  by (induction n) (simp_all add: mul_xtime_right)

lemma mul_1_right: "gf256_mul_formula a 1 = a"
  using mul_push[of 0 a] by simp

lemma mul_comm: "gf256_mul_formula a b = gf256_mul_formula b a"
proof (rule linear_eqI[where f = "\<lambda>b. gf256_mul_formula a b"])
  fix i :: nat
  assume i: "i < 8"
  have p: "push_bit i 1 = (xtime ^^ i) 1" using mul_push[OF i, of 1] mul_1_left[of "push_bit i 1"] by simp
  show "gf256_mul_formula a (push_bit i 1) = gf256_mul_formula (push_bit i 1) a"
    unfolding p mul_funpow_left mul_funpow_right mul_1_left mul_1_right ..
qed (simp_all add: mul_xor_left mul_xor_right)

lemma mul_assoc: "gf256_mul_formula (gf256_mul_formula a b) c = gf256_mul_formula a (gf256_mul_formula b c)"
proof (rule linear_eqI[where f = "\<lambda>c. gf256_mul_formula (gf256_mul_formula a b) c"])
  fix i :: nat
  assume i: "i < 8"
  then show "gf256_mul_formula (gf256_mul_formula a b) (push_bit i 1) =
      gf256_mul_formula a (gf256_mul_formula b (push_bit i 1))"
    using mul_push[OF i, of b] mul_push[OF i, of "gf256_mul_formula a b"] by (simp add: mul_funpow_right)
qed (simp_all add: mul_xor_right)


section \<open>Inverses\<close>

text \<open>The loop on natural numbers, on which the table is checked.\<close>

definition xtime_nat :: "nat \<Rightarrow> nat" where
  "xtime_nat a = (if 128 \<le> a then (2 * a - 256) XOR 29 else 2 * a)"

fun mul_nat :: "nat \<Rightarrow> nat \<Rightarrow> nat \<Rightarrow> nat \<Rightarrow> nat" where
  "mul_nat 0 a b p = p"
| "mul_nat (Suc n) a b p = mul_nat n (xtime_nat a) (b div 2) (if odd b then p XOR a else p)"

lemma mul_nat_numeral: "mul_nat (numeral k) a b p =
    mul_nat (pred_numeral k) (xtime_nat a) (b div 2) (if odd b then p XOR a else p)"
  by (simp add: numeral_eq_Suc)

lemma mul_nat_1: "mul_nat 1 a b p = (if odd b then p XOR a else p)"
  by simp

lemma unat_xtime: "unat (xtime a) = xtime_nat (unat a)"
proof -
  have "bit a 7 \<longleftrightarrow> odd (unat a div 128)"
    using bit_unsigned_iff[of a 7, where 'a = nat] by (simp add: bit_iff_odd)
  also have "\<dots> \<longleftrightarrow> 128 \<le> unat a"
  proof (cases "128 \<le> unat a")
    case True
    then have "unat a div 128 = 1" using unat_u8_less[of a] by (intro div_nat_eqI) (simp_all del: unat_u8_less)
    with True show ?thesis by simp
  qed simp
  finally have b: "bit a 7 \<longleftrightarrow> 128 \<le> unat a" .
  have "unat (push_bit 1 a) = 2 * unat a mod 256"
    by (simp add: push_bit_eq_mult unat_word_ariths mult.commute)
  also have "\<dots> = (if 128 \<le> unat a then 2 * unat a - 256 else 2 * unat a)"
    using unat_u8_less[of a] by (simp add: le_mod_geq del: unat_u8_less)
  finally show ?thesis by (simp add: xtime_def and_80 b xtime_nat_def unsigned_xor_eq)
qed

lemma unat_mul_loop: "unat (gf256_mul_loop n a b p) = mul_nat n (unat a) (unat b) (unat p)"
proof (induction n arbitrary: a b p)
  case (Suc n)
  have "odd (unat b) \<longleftrightarrow> bit b 0" using bit_unsigned_iff[of b 0, where 'a = nat] by (simp add: bit_0)
  moreover have "unat (drop_bit 1 b) = unat b div 2" by (simp only: unat_drop_bit_eq) (simp add: drop_bit_eq_div)
  ultimately show ?case
    using Suc.IH[of "xtime a" "drop_bit 1 b"]
    by (simp only: gf256_mul_loop.simps mul_nat.simps Let_def mod_2_bit flip: xtime_def)
      (simp add: unsigned_xor_eq unat_xtime)
qed simp

lemma assign_inv_check: "list_all2 (\<lambda>a b. mul_nat 8 b a 0 = 1) [1..<256] (map unat (tl assign_inv))"
  by (simp add: assign_inv_def upt_rec) (simp add: mul_nat_numeral mul_nat_1 xtime_nat_def numeral_3_eq_3[symmetric]
    One_nat_def[symmetric] del: One_nat_def)

lemma length_assign_inv: "length assign_inv = 256"
  by (simp add: assign_inv_def)

lemma mul_assign_inv: "a \<noteq> 0 \<Longrightarrow> gf256_mul_formula (assign_inv ! unat a) a = 1"
proof -
  assume "a \<noteq> 0"
  then have "0 < unat a" by (simp add: unat_gt_0)
  with unat_u8_less[of a] list_all2_nthD2[OF assign_inv_check, of "unat a - 1"]
  have "mul_nat 8 (unat (assign_inv ! unat a)) (unat a) 0 = 1"
    by (simp add: length_assign_inv nth_tl del: unat_u8_less)
  then have "unat (gf256_mul_formula (assign_inv ! unat a) a) = unat (1 :: u8)"
    by (simp add: gf256_mul_formula_def unat_mul_loop)
  then show ?thesis by (simp only: word_unat_eq_iff)
qed

section \<open>The field\<close>

typedef gf = "UNIV :: u8 set" morphisms of_gf to_gf
  by simp

setup_lifting type_definition_gf

instantiation gf :: field
begin

lift_definition zero_gf :: gf is 0 .
lift_definition one_gf :: gf is 1 .
lift_definition plus_gf :: "gf \<Rightarrow> gf \<Rightarrow> gf" is "\<lambda>a b. a XOR b" .
lift_definition minus_gf :: "gf \<Rightarrow> gf \<Rightarrow> gf" is "\<lambda>a b. a XOR b" .
lift_definition uminus_gf :: "gf \<Rightarrow> gf" is "\<lambda>a. a" .
lift_definition times_gf :: "gf \<Rightarrow> gf \<Rightarrow> gf" is gf256_mul_formula .
lift_definition inverse_gf :: "gf \<Rightarrow> gf" is "\<lambda>a. assign_inv ! unat a" .
lift_definition divide_gf :: "gf \<Rightarrow> gf \<Rightarrow> gf" is "\<lambda>a b. gf256_mul_formula a (assign_inv ! unat b)" .

instance
proof
  fix a b c :: gf
  show "a + b + c = a + (b + c)" by transfer (simp add: xor.assoc)
  show "a + b = b + a" by transfer (simp add: xor.commute)
  show "0 + a = a" "a - b = a + - b" "- a + a = 0" "(0 :: gf) \<noteq> 1" by (transfer, simp)+
  show "a * b * c = a * (b * c)" by transfer (rule mul_assoc)
  show "a * b = b * a" by transfer (rule mul_comm)
  show "1 * a = a" by transfer (rule mul_1_left)
  show "(a + b) * c = a * c + b * c" by transfer (rule mul_xor_left)
  show "a div b = a * inverse b" by transfer simp
  show "inverse (0 :: gf) = 0" by transfer (simp add: assign_inv_def)
  show "inverse a * a = 1" if "a \<noteq> 0" using that by transfer (rule mul_assign_inv)
qed

end

lemma gf_add_self [simp]: "a + a = (0 :: gf)"
  by transfer simp

lemma to_gf_eq_iff [simp]: "to_gf a = to_gf b \<longleftrightarrow> a = b"
  by (metis of_gf_inverse to_gf_inverse UNIV_I)

end
