(* ===== verification/Equation.thy ===== *)
theory Equation
  imports GF256
begin

text \<open>
  Linear equations over symbols: \<^verbatim>\<open>symbol.h\<close> and \<^verbatim>\<open>equation.h\<close> of the plugin's
  \<^verbatim>\<open>online_rlc_gf256/headers\<close>.

  Identifiers are naturals below \<open>2 ^ 32\<close> with the wrap-around of \<open>uint32_t\<close> written out, the
  number of protected symbols is stored in 16 bits. The length of the list \<open>coefs\<close> is the field
  \<open>_coefs_allocated_size\<close> of the code, the length of \<open>repair_payload\<close> the size of that allocation.
  Operations return \<open>None\<close> when they would access memory outside of an allocation; the outcome
  of an allocation is an argument. \<open>lib\<close> is the library for buffer arithmetic.
\<close>

section \<open>Symbols and equations\<close>

definition SYMBOL_ID_NONE :: nat where "SYMBOL_ID_NONE = 0xffffffff"

record window_repair_symbol =
  fss :: bytes
  first_id :: nat
  n_protected_symbols :: nat
  is_fb_fec :: bool
  payload_length :: nat
  repair_payload :: bytes

record equation =
  pivot :: nat
  last_non_zero_id :: nat
  constant_term :: window_repair_symbol
  n_coefs :: nat
  coefs :: bytes

abbreviation eq_first :: "equation \<Rightarrow> nat" where "eq_first eq \<equiv> first_id (constant_term eq)"
abbreviation eq_count :: "equation \<Rightarrow> nat" where "eq_count eq \<equiv> n_protected_symbols (constant_term eq)"
abbreviation eq_payload :: "equation \<Rightarrow> bytes" where "eq_payload eq \<equiv> repair_payload (constant_term eq)"
abbreviation eq_length :: "equation \<Rightarrow> nat" where "eq_length eq \<equiv> payload_length (constant_term eq)"

definition repair_symbol_last_id :: "window_repair_symbol \<Rightarrow> nat" where
  "repair_symbol_last_id rs =
     (if n_protected_symbols rs = 0 then SYMBOL_ID_NONE
      else u32_sub (u32_add (first_id rs) (n_protected_symbols rs)) 1)"

definition equation_includes_id :: "equation \<Rightarrow> nat \<Rightarrow> bool" where
  "equation_includes_id eq symbol_id \<longleftrightarrow>
     symbol_id \<ge> eq_first eq \<and> symbol_id \<le> repair_symbol_last_id (constant_term eq)"

definition equation_get_min_symbol_id :: "equation \<Rightarrow> nat" where
  "equation_get_min_symbol_id eq = pivot eq"

definition equation_get_max_symbol_id :: "equation \<Rightarrow> nat" where
  "equation_get_max_symbol_id eq = last_non_zero_id eq"

definition equation_count_allocated_coef :: "equation \<Rightarrow> nat" where
  "equation_count_allocated_coef eq = (if pivot eq = SYMBOL_ID_NONE then 0 else eq_count eq)"

definition equation_get_coef :: "equation \<Rightarrow> nat \<Rightarrow> u8 option" where
  "equation_get_coef eq i =
     (if i < eq_first eq \<or> repair_symbol_last_id (constant_term eq) < i then Some 0
      else rd (coefs eq) (u32_sub i (eq_first eq)))"

section \<open>The first and the last coefficient\<close>

text \<open>The index of the first non-zero coefficient from \<open>j\<close> on and before \<open>e\<close>, if there is one.\<close>

function scan_nonzero :: "bytes \<Rightarrow> nat \<Rightarrow> nat \<Rightarrow> nat option option" where
  "scan_nonzero cs j e =
     (if j < e then do {
        c \<leftarrow> rd cs j;
        (if c \<noteq> 0 then Some (Some j) else scan_nonzero cs (j + 1) e)
      } else Some None)"
  by pat_completeness auto
termination by (relation "measure (\<lambda>(cs, j, e). e - j)") auto

text \<open>The search by 64-bit words.\<close>

function scan_words :: "bytes \<Rightarrow> nat \<Rightarrow> nat \<Rightarrow> nat option option" where
  "scan_words cs i n =
     (if i < n then do {
        w \<leftarrow> load64 cs i;
        r \<leftarrow> (if w \<noteq> 0 then scan_nonzero cs (i * 8) ((i + 1) * 8) else Some None);
        (case r of Some j \<Rightarrow> Some (Some j) | None \<Rightarrow> scan_words cs (i + 1) n)
      } else Some None)"
  by pat_completeness auto
termination by (relation "measure (\<lambda>(cs, i, n). n - i)") auto

definition full_symbol_adjust_min_coef :: "equation \<Rightarrow> (bool \<times> equation) option" where
  "full_symbol_adjust_min_coef eq =
     (let n = eq_count eq; m = n div 8 in do {
        r \<leftarrow> scan_words (coefs eq) 0 m;
        r \<leftarrow> (case r of
            Some j \<Rightarrow> Some (Some j)
          | None \<Rightarrow> scan_nonzero (coefs eq) (m * 8) (min ((m + 1) * 8) n));
        Some (case r of
            Some j \<Rightarrow> (True, eq\<lparr>pivot := u32_add j (eq_first eq)\<rparr>)
          | None \<Rightarrow> (False, eq\<lparr>pivot := SYMBOL_ID_NONE\<rparr>))
      })"

function adjust_max_loop :: "equation \<Rightarrow> nat \<Rightarrow> (bool \<times> equation) option" where
  "adjust_max_loop eq j =
     (if j < equation_count_allocated_coef eq then
        let i = u32_sub (repair_symbol_last_id (constant_term eq)) j in do {
          c \<leftarrow> equation_get_coef eq i;
          (if c \<noteq> 0 then Some (True, eq\<lparr>last_non_zero_id := i\<rparr>) else adjust_max_loop eq (j + 1))
        }
      else Some (False, eq))"
  by pat_completeness auto
termination by (relation "measure (\<lambda>(eq, j). equation_count_allocated_coef eq - j)") auto

definition full_symbol_adjust_max_coef :: "equation \<Rightarrow> (bool \<times> equation) option" where
  "full_symbol_adjust_max_coef eq = adjust_max_loop (eq\<lparr>last_non_zero_id := SYMBOL_ID_NONE\<rparr>) 0"

definition equation_adjust_non_zero_bounds :: "equation \<Rightarrow> (bool \<times> equation) option" where
  "equation_adjust_non_zero_bounds eq =
     (if eq_first eq = SYMBOL_ID_NONE
      then Some (False, eq\<lparr>pivot := SYMBOL_ID_NONE, last_non_zero_id := SYMBOL_ID_NONE\<rparr>)
      else do {
        (result1, eq) \<leftarrow> full_symbol_adjust_min_coef eq;
        (result2, eq) \<leftarrow> full_symbol_adjust_max_coef eq;
        Some (result1, eq)
      })"

definition equation_is_zero :: "equation \<Rightarrow> bool" where
  "equation_is_zero eq \<longleftrightarrow> equation_get_min_symbol_id eq = SYMBOL_ID_NONE"

definition equation_has_one_id :: "equation \<Rightarrow> bool" where
  "equation_has_one_id eq \<longleftrightarrow>
     \<not> equation_is_zero eq \<and> equation_get_min_symbol_id eq = equation_get_max_symbol_id eq"

section \<open>Creation\<close>

definition equation_get_coef_index :: "equation \<Rightarrow> nat \<Rightarrow> nat" where
  "equation_get_coef_index eq i = u32_sub i (eq_first eq)"

text \<open>The two allocations are the structure and the coefficients; the result \<open>Some None\<close> is the null pointer.\<close>

definition equation_alloc_with_given_data ::
  "bool \<Rightarrow> bool \<Rightarrow> window_repair_symbol \<Rightarrow> equation option option" where
  "equation_alloc_with_given_data alloc_eq alloc_coefs rs =
     (let n = (if first_id rs = SYMBOL_ID_NONE then 1 else n_protected_symbols rs) in
      if \<not> alloc_eq \<or> \<not> alloc_coefs then Some None
      else do {
        (_, eq) \<leftarrow> equation_adjust_non_zero_bounds
          \<lparr>pivot = 0, last_non_zero_id = 0, constant_term = rs, n_coefs = n, coefs = replicate (align n) 0\<rparr>;
        Some (Some eq)
      })"

text \<open>\<open>uninit\<close> is the repair symbol on the stack, whose other fields are not initialised.\<close>

definition equation_alloc ::
  "bool \<Rightarrow> bool \<Rightarrow> bool \<Rightarrow> window_repair_symbol \<Rightarrow> nat \<Rightarrow> nat \<Rightarrow> nat \<Rightarrow> equation option option" where
  "equation_alloc alloc_data alloc_eq alloc_coefs uninit first_id_id last_symbol_id symbol_size =
     (let safe_symbol_size = (if symbol_size = 0 then 1 else symbol_size) in
      if \<not> alloc_data then Some None
      else equation_alloc_with_given_data alloc_eq alloc_coefs
        (uninit\<lparr>first_id := first_id_id,
          n_protected_symbols := u32_sub (u32_add last_symbol_id 1) first_id_id mod 2 ^ 16,
          repair_payload := replicate (align safe_symbol_size) 0\<rparr>))"

text \<open>The code does not test the result of the allocation: the null pointer is a fault.\<close>

definition equation_create_from_source ::
  "bool \<Rightarrow> bool \<Rightarrow> bool \<Rightarrow> window_repair_symbol \<Rightarrow> nat \<Rightarrow> bytes \<Rightarrow> nat \<Rightarrow> equation option" where
  "equation_create_from_source alloc_data alloc_eq alloc_coefs uninit symbol_id symbol_data symbol_size = do {
     eq \<leftarrow> equation_alloc alloc_data alloc_eq alloc_coefs uninit symbol_id symbol_id symbol_size;
     eq \<leftarrow> eq;
     let coef_index = equation_get_coef_index eq symbol_id;
     cs \<leftarrow> memset_at (coefs eq) coef_index 1 1;
     (_, eq) \<leftarrow> equation_adjust_non_zero_bounds (eq\<lparr>coefs := cs\<rparr>);
     payload \<leftarrow> memcpy_at (eq_payload eq) 0 symbol_data 0 symbol_size;
     Some (eq\<lparr>constant_term := (constant_term eq)\<lparr>repair_payload := payload, payload_length := symbol_size mod 2 ^ 16\<rparr>\<rparr>)
   }"

definition equation_create_from_source_zerocopy ::
  "bool \<Rightarrow> bool \<Rightarrow> nat \<Rightarrow> bytes \<Rightarrow> nat \<Rightarrow> equation option" where
  "equation_create_from_source_zerocopy alloc_eq alloc_coefs symbol_id symbol_data symbol_size = do {
     eq \<leftarrow> equation_alloc_with_given_data alloc_eq alloc_coefs
       \<lparr>fss = [0, 0, 0, 0], first_id = symbol_id, n_protected_symbols = 1, is_fb_fec = False, payload_length = symbol_size mod 2 ^ 16,
        repair_payload = symbol_data\<rparr>;
     eq \<leftarrow> eq;
     let coef_index = equation_get_coef_index eq symbol_id;
     cs \<leftarrow> memset_at (coefs eq) coef_index 1 1;
     (_, eq) \<leftarrow> equation_adjust_non_zero_bounds (eq\<lparr>coefs := cs\<rparr>);
     Some (eq\<lparr>constant_term := (constant_term eq)\<lparr>payload_length := symbol_size mod 2 ^ 16\<rparr>\<rparr>)
   }"

section \<open>Arithmetic\<close>

definition equation_clear_unused_coefs :: "equation \<Rightarrow> equation option" where
  "equation_clear_unused_coefs eq =
     (if equation_is_zero eq then Some eq
      else let start_index = u32_sub (u32_add (last_non_zero_id eq) 1) (eq_first eq) in
        if start_index > length (coefs eq) then None
        else map_option (\<lambda>cs. eq\<lparr>coefs := cs\<rparr>)
          (memset_at (coefs eq) start_index 0 (length (coefs eq) - start_index)))"

definition add_coefs :: "gf_library option \<Rightarrow> equation \<Rightarrow> equation \<Rightarrow> nat \<Rightarrow> nat \<Rightarrow> equation option" where
  "add_coefs lib eq1 eq2 from to =
     (let from = max from (eq_first eq2);
          to = min to (repair_symbol_last_id (constant_term eq2));
          off1 = u32_sub from (eq_first eq1);
          off2 = u32_sub from (eq_first eq2)
      in if off1 > length (coefs eq1) \<or> off2 > length (coefs eq2) then None
         else map_option (\<lambda>s. eq1\<lparr>coefs := take off1 (coefs eq1) @ s\<rparr>)
           (symbol_add lib (drop off1 (coefs eq1)) (drop off2 (coefs eq2))
             (min (u32_sub (u32_add to 1) from) (eq_count eq1))))"

definition equation_multiply :: "gf_library option \<Rightarrow> equation \<Rightarrow> u8 \<Rightarrow> u8 list list \<Rightarrow> equation option" where
  "equation_multiply lib eq coef mul_table = do {
     cs \<leftarrow> symbol_mul lib (coefs eq) coef (align (eq_count eq)) mul_table;
     payload \<leftarrow> symbol_mul lib (eq_payload eq) coef (align (eq_length eq)) mul_table;
     Some (eq\<lparr>coefs := cs, constant_term := (constant_term eq)\<lparr>repair_payload := payload\<rparr>\<rparr>)
   }"

definition full_symbol_add_base :: "gf_library option \<Rightarrow> equation \<Rightarrow> equation \<Rightarrow> (equation \<times> equation) option" where
  "full_symbol_add_base lib eq1 eq2 =
     (let eq1 = (if pivot eq1 = SYMBOL_ID_NONE \<and> pivot eq2 = SYMBOL_ID_NONE
                 then eq1\<lparr>pivot := SYMBOL_ID_NONE, last_non_zero_id := SYMBOL_ID_NONE\<rparr> else eq1)
      in do {
        eq2 \<leftarrow> (if last_non_zero_id eq1 > last_non_zero_id eq2 then equation_clear_unused_coefs eq2 else Some eq2);
        eq1 \<leftarrow> add_coefs lib eq1 eq2 (pivot eq2) (last_non_zero_id eq2);
        (_, eq1) \<leftarrow> equation_adjust_non_zero_bounds eq1;
        payload \<leftarrow> symbol_add lib (eq_payload eq1) (eq_payload eq2) (align (eq_length eq2));
        Some (eq1\<lparr>constant_term := (constant_term eq1)\<lparr>repair_payload := payload\<rparr>\<rparr>, eq2)
      })"

text \<open>
  The parts of \<open>equation_add\<close>: a larger coefficient buffer, the new range of identifiers, and a
  larger constant term. The first and the third may fail to allocate.
\<close>

definition grow_coefs :: "equation \<Rightarrow> nat \<Rightarrow> equation option" where
  "grow_coefs eq width =
     (let new_size = align (max (length (coefs eq)) width);
          idx = equation_get_coef_index eq (pivot eq)
      in do {
        new_coefs \<leftarrow> memcpy_at (replicate new_size 0) idx (coefs eq) idx
          (u32_sub (u32_add (last_non_zero_id eq) 1) (pivot eq));
        Some (eq\<lparr>coefs := new_coefs, n_coefs := width\<rparr>)
      })"

definition shift_coefs :: "equation \<Rightarrow> nat \<Rightarrow> nat \<Rightarrow> equation option" where
  "shift_coefs eq first_coef_index last_coef_index =
     (let new_n_nonzero_symbols =
            u32_sub (u32_add (repair_symbol_last_id (constant_term eq)) 1) first_coef_index
      in do {
        cs \<leftarrow> memcpy_at (coefs eq) 0 (coefs eq) (u32_sub first_coef_index (eq_first eq)) new_n_nonzero_symbols;
        cs \<leftarrow> (if new_n_nonzero_symbols < n_coefs eq
          then memset_at cs new_n_nonzero_symbols 0 (n_coefs eq - new_n_nonzero_symbols) else Some cs);
        (_, eq) \<leftarrow> equation_adjust_non_zero_bounds
          (eq\<lparr>coefs := cs,
            constant_term := (constant_term eq)\<lparr>first_id := first_coef_index,
              n_protected_symbols := u32_sub (u32_add last_coef_index 1) first_coef_index mod 2 ^ 16\<rparr>\<rparr>);
        Some eq
      })"

definition grow_payload :: "equation \<Rightarrow> nat \<Rightarrow> equation option" where
  "grow_payload eq data_length =
     (if eq_length eq > length (eq_payload eq) then None
      else Some (eq\<lparr>constant_term := (constant_term eq)
        \<lparr>repair_payload := take (eq_length eq) (eq_payload eq) @ replicate (data_length - eq_length eq) 0,
         payload_length := data_length\<rparr>\<rparr>))"

definition equation_add ::
  "gf_library option \<Rightarrow> bool \<times> bool \<Rightarrow> equation \<Rightarrow> equation \<Rightarrow> (int \<times> equation \<times> equation) option" where
  "equation_add lib alloc eq1 eq2 =
     (if equation_is_zero eq1 \<and> equation_is_zero eq2 then Some (0, eq1, eq2)
      else if equation_is_zero eq2 then Some (0, eq1, eq2)
      else
        let first_coef_index = min (pivot eq1) (pivot eq2);
            last_coef_index = max (last_non_zero_id eq1) (last_non_zero_id eq2);
            width = u32_sub (u32_add last_coef_index 1) first_coef_index;
            data_length = max (eq_length eq1) (eq_length eq2)
        in if n_coefs eq1 < width \<and> \<not> fst alloc then Some (-1, eq1, eq2)
        else do {
          eq1 \<leftarrow> (if n_coefs eq1 < width then grow_coefs eq1 width else Some eq1);
          eq1 \<leftarrow> (if eq_first eq1 \<le> first_coef_index \<and>
                    repair_symbol_last_id (constant_term eq1) < last_coef_index
            then shift_coefs eq1 first_coef_index last_coef_index else Some eq1);
          (if data_length > eq_length eq1 \<and> \<not> snd alloc then Some (-1, eq1, eq2)
           else do {
             eq1 \<leftarrow> (if data_length > eq_length eq1 then grow_payload eq1 data_length else Some eq1);
             (eq1, eq2) \<leftarrow> full_symbol_add_base lib eq1 eq2;
             Some (0, eq1, eq2)
           })
        })"

declare scan_nonzero.simps [simp del] scan_words.simps [simp del] adjust_max_loop.simps [simp del]

end
