(* ===== verification/LinSystem.thy ===== *)
theory LinSystem
  imports Equation
begin

text \<open>
  The system of equations of the decoder and its elimination steps:
  \<^verbatim>\<open>online_rlc_gf256/headers/system.h\<close>. The array of equations is a list of optional equations,
  \<open>None\<close> being the null pointer; \<open>None\<close> as result of an operation is an access outside of an
  object. The outcomes of the allocations inside \<open>equation_add\<close> are given by a function of the
  loop counter. Equations are not shared: one that is added belongs to the system.
\<close>

section \<open>The system\<close>

definition ENTRY_INDEX_NONE :: nat where "ENTRY_INDEX_NONE = 0xffffffff"
definition SYSTEM_INITIAL_SIZE :: nat where "SYSTEM_INITIAL_SIZE = 2000"

record system =
  max_equations :: nat
  n_equations :: int
  first_id_id :: nat
  last_symbol_id :: nat
  equations :: "equation option list"

text \<open>The tables and the library of the code the system is used with.\<close>

record gf_tables =
  gf_lib :: "gf_library option"
  inv_table :: "u8 list"
  mul_table :: "u8 list list"

definition system_alloc :: "bool \<Rightarrow> bool \<Rightarrow> system option" where
  "system_alloc alloc_system alloc_equations =
     (if \<not> alloc_system \<or> \<not> alloc_equations then None
      else Some \<lparr>max_equations = SYSTEM_INITIAL_SIZE, n_equations = 0,
        first_id_id = SYMBOL_ID_NONE, last_symbol_id = SYMBOL_ID_NONE,
        equations = replicate SYSTEM_INITIAL_SIZE None\<rparr>)"

text \<open>
  \<open>system_resize\<close> passes the system itself to \<open>realloc\<close>, not its array: when that succeeds, the
  system it writes to afterwards has been freed.
\<close>

definition system_resize :: "bool \<Rightarrow> system \<Rightarrow> nat \<Rightarrow> (int \<times> system) option" where
  "system_resize alloc sys new_max_equations =
     (if new_max_equations > max_equations sys
      then (if alloc then None else Some (-1, sys\<lparr>equations := []\<rparr>))
      else Some (0, sys\<lparr>max_equations := new_max_equations\<rparr>))"

text \<open>
  The test whether an identifier is in the array. \<open>max_equations + first_id_id\<close> is computed with
  32 bits.
\<close>

definition in_system :: "system \<Rightarrow> nat \<Rightarrow> bool" where
  "in_system sys i \<longleftrightarrow> i \<ge> first_id_id sys \<and> i < u32_add (max_equations sys) (first_id_id sys)"

definition system_get_pivot_for_id :: "system \<Rightarrow> nat \<Rightarrow> equation option option" where
  "system_get_pivot_for_id sys i =
     (if in_system sys i then rd (equations sys) (u32_sub i (first_id_id sys)) else Some None)"

definition system_remove_pivot_for_id :: "system \<Rightarrow> nat \<Rightarrow> (equation option \<times> system) option" where
  "system_remove_pivot_for_id sys i =
     (if in_system sys i then do {
        e \<leftarrow> rd (equations sys) (u32_sub i (first_id_id sys));
        Some (case e of
            None \<Rightarrow> (None, sys)
          | Some ret \<Rightarrow> (Some ret, sys\<lparr>equations := (equations sys)[u32_sub i (first_id_id sys) := None]\<rparr>))
      } else Some (None, sys))"

definition inv_coef :: "gf_tables \<Rightarrow> u8 \<Rightarrow> u8" where
  "inv_coef gf c = inv_table gf ! unat c"

definition system_get_normalized_pivot_for_id ::
  "gf_tables \<Rightarrow> system \<Rightarrow> nat \<Rightarrow> (equation option \<times> system) option" where
  "system_get_normalized_pivot_for_id gf sys i = do {
     e \<leftarrow> system_get_pivot_for_id sys i;
     (case e of
        None \<Rightarrow> Some (None, sys)
      | Some eq \<Rightarrow> do {
          pivot_coef \<leftarrow> equation_get_coef eq (pivot eq);
          (if pivot_coef \<noteq> 1 then do {
             eq \<leftarrow> equation_multiply (gf_lib gf) eq (inv_coef gf pivot_coef) (mul_table gf);
             Some (Some eq, sys\<lparr>equations := (equations sys)[u32_sub i (first_id_id sys) := Some eq]\<rparr>)
           } else Some (Some eq, sys))
        })
   }"

section \<open>Reducing an equation\<close>

text \<open>
  The loop over the identifiers of the equation; \<open>last_non_zero_id\<close> and the system change in it.
  An identifier that wraps around after \<open>2 ^ 32 - 1\<close> makes the loop start again at 0.
\<close>

partial_function (option) reduce_loop ::
  "gf_tables \<Rightarrow> (nat \<Rightarrow> bool \<times> bool) \<Rightarrow> system \<Rightarrow> equation \<Rightarrow> nat \<Rightarrow> (int \<times> system \<times> equation) option" where
  "reduce_loop gf alloc sys eq i =
     (if i \<le> last_non_zero_id eq \<and> \<not> equation_is_zero eq then do {
        coef \<leftarrow> equation_get_coef eq i;
        pivot_equation \<leftarrow> (if coef \<noteq> 0 then system_get_pivot_for_id sys i else Some None);
        (case pivot_equation of
           None \<Rightarrow> reduce_loop gf alloc sys eq (u32_add i 1)
         | Some peq \<Rightarrow> do {
             pc \<leftarrow> equation_get_coef peq (pivot peq);
             eq \<leftarrow> equation_multiply (gf_lib gf) eq (gf256_mul pc (inv_coef gf coef) (mul_table gf)) (mul_table gf);
             (err, eq, peq) \<leftarrow> equation_add (gf_lib gf) (alloc i) eq peq;
             let sys = sys\<lparr>equations := (equations sys)[u32_sub i (first_id_id sys) := Some peq]\<rparr>;
             (if err \<noteq> 0 then Some (err, sys, eq) else reduce_loop gf alloc sys eq (u32_add i 1))
           })
      } else Some (0, sys, eq))"

definition reduce_equation ::
  "gf_tables \<Rightarrow> (nat \<Rightarrow> bool \<times> bool) \<Rightarrow> system \<Rightarrow> equation \<Rightarrow> (int \<times> system \<times> equation) option" where
  "reduce_equation gf alloc sys eq = do {
     (_, eq) \<leftarrow> equation_adjust_non_zero_bounds eq;
     (if pivot eq = SYMBOL_ID_NONE then Some (0, sys, eq) else reduce_loop gf alloc sys eq (pivot eq))
   }"

definition system_set_bounds :: "system \<Rightarrow> nat \<Rightarrow> nat \<Rightarrow> bool \<times> system" where
  "system_set_bounds sys first lst =
     (if u32_sub (u32_add lst 1) first > max_equations sys then (False, sys)
      else if first_id_id sys < first then (False, sys)
      else let sys = sys\<lparr>first_id_id := first\<rparr> in
        if lst < last_symbol_id sys \<and> last_symbol_id sys \<noteq> SYMBOL_ID_NONE then (False, sys)
        else (True, sys\<lparr>last_symbol_id := lst\<rparr>))"

section \<open>Adding an equation\<close>

text \<open>The number of equations in a range of the array; it is read element by element.\<close>

definition count_equations :: "equation option list \<Rightarrow> nat \<Rightarrow> nat \<Rightarrow> nat option" where
  "count_equations es i e =
     (if i < e \<and> e > length es then None
      else Some (length (filter (\<lambda>x. x \<noteq> None) (take (e - i) (drop i es)))))"

definition extend_last :: "system \<Rightarrow> equation \<Rightarrow> system" where
  "extend_last sys eq =
     sys\<lparr>last_symbol_id := (if last_symbol_id sys = SYMBOL_ID_NONE then last_non_zero_id eq
        else max (last_non_zero_id eq) (last_symbol_id sys))\<rparr>"

text \<open>
  The result is the index of the equation, the equation it replaced, and the system. In the first
  branch the array is moved to make room in front; a move by more than the size of the array
  would be a \<open>memmove\<close> of a negative size.
\<close>

definition system_add :: "system \<Rightarrow> equation \<Rightarrow> (nat \<times> equation option \<times> system) option" where
  "system_add sys eq =
     (if equation_is_zero eq then Some (ENTRY_INDEX_NONE, None, sys)
      else
        let sys = (if first_id_id sys = SYMBOL_ID_NONE then sys\<lparr>first_id_id := pivot eq\<rparr> else sys);
            new_i0 = pivot eq;
            set_i0 = first_id_id sys
        in if new_i0 < set_i0 then
          let shift = set_i0 - new_i0 in
          if shift > max_equations sys then None
          else do {
            n_removed \<leftarrow> count_equations (equations sys) (max_equations sys - shift)
              (u32_sub (u32_add (last_symbol_id sys) 1) (first_id_id sys));
            let es = replicate shift None @ take (max_equations sys - shift) (equations sys);
            _ \<leftarrow> rd es 0;
            Some (0, None, extend_last
              (sys\<lparr>equations := es[0 := Some eq], n_equations := n_equations sys - int n_removed + 1,
                first_id_id := min set_i0 new_i0\<rparr>) eq)
          }
        else
          let idx_pos = new_i0 - set_i0 in
          if idx_pos < max_equations sys then do {
            old \<leftarrow> rd (equations sys) idx_pos;
            Some (idx_pos, old, extend_last
              (sys\<lparr>equations := (equations sys)[idx_pos := Some eq],
                n_equations := (if old \<noteq> None then n_equations sys - 1 else n_equations sys) + 1\<rparr>) eq)
          }
          else Some (ENTRY_INDEX_NONE, None, sys))"

text \<open>
  The elimination of the new pivot from the equation at index \<open>i\<close>; \<open>decoded\<close> says whether an
  equation with a single identifier came out. The error of the addition is ignored.
\<close>

definition eliminate_at ::
  "gf_tables \<Rightarrow> bool \<times> bool \<Rightarrow> nat \<Rightarrow> equation \<Rightarrow> equation \<Rightarrow> (bool \<times> equation \<times> equation) option" where
  "eliminate_at gf alloc first e eq = do {
     coef \<leftarrow> equation_get_coef e first;
     (if coef = 0 then Some (False, e, eq)
      else do {
        pivot_coef \<leftarrow> equation_get_coef eq (pivot eq);
        eq \<leftarrow> equation_multiply (gf_lib gf) eq (gf256_mul (inv_coef gf pivot_coef) coef (mul_table gf)) (mul_table gf);
        let has_one_id_before_add = equation_has_one_id e;
        (err, e, eq) \<leftarrow> equation_add (gf_lib gf) alloc e eq;
        let is_decoded = (\<not> has_one_id_before_add \<and> equation_has_one_id e);
        (if is_decoded then do {
           c \<leftarrow> equation_get_coef e (equation_get_min_symbol_id e);
           e \<leftarrow> (if c \<noteq> 1 then equation_multiply (gf_lib gf) e (inv_coef gf c) (mul_table gf) else Some e);
           Some (True, e, eq)
         } else Some (False, e, eq))
      })
   }"

function pivot_loop ::
  "gf_tables \<Rightarrow> (nat \<Rightarrow> bool \<times> bool) \<Rightarrow> nat \<Rightarrow> nat \<Rightarrow> int \<Rightarrow> system \<Rightarrow> equation \<Rightarrow> bool \<Rightarrow> (system \<times> equation \<times> bool) option" where
  "pivot_loop gf alloc first i n_non_null sys eq decoded =
     (if i < max_equations sys \<and> n_non_null < n_equations sys then do {
        e \<leftarrow> rd (equations sys) i;
        (case e of
           None \<Rightarrow> pivot_loop gf alloc first (i + 1) n_non_null sys eq decoded
         | Some e \<Rightarrow> do {
             (d, e, eq) \<leftarrow> eliminate_at gf (alloc i) first e eq;
             pivot_loop gf alloc first (i + 1) (n_non_null + 1)
               (sys\<lparr>equations := (equations sys)[i := Some e]\<rparr>) eq (decoded \<or> d)
           })
      } else Some (sys, eq, decoded))"
  by pat_completeness auto
termination
  by (relation "measure (\<lambda>(gf, alloc, first, i, n_non_null, sys, eq, decoded). max_equations sys - i)") auto

text \<open>The result is the index, whether a symbol was decoded, the equation that was replaced, and the system.\<close>

definition system_add_as_pivot ::
  "gf_tables \<Rightarrow> (nat \<Rightarrow> bool \<times> bool) \<Rightarrow> system \<Rightarrow> equation \<Rightarrow> (nat \<times> bool \<times> equation option \<times> system) option" where
  "system_add_as_pivot gf alloc sys eq = do {
     (_, eq) \<leftarrow> equation_adjust_non_zero_bounds eq;
     (if pivot eq = SYMBOL_ID_NONE then Some (0, False, None, sys)
      else do {
        (sys, eq, decoded) \<leftarrow> pivot_loop gf alloc (pivot eq) 0 0 sys eq False;
        (idx, removed, sys) \<leftarrow> system_add sys eq;
        Some (idx, decoded, removed, sys)
      })
   }"

section \<open>Adding with elimination\<close>

record elimination_result =
  res_err :: int
  res_decoded :: bool
  res_removed :: "equation option"
  res_used :: bool

definition system_add_with_elimination ::
  "gf_tables \<Rightarrow> (nat \<Rightarrow> bool \<times> bool) \<Rightarrow> (nat \<Rightarrow> bool \<times> bool) \<Rightarrow> system \<Rightarrow> equation \<Rightarrow>
   (elimination_result \<times> system) option" where
  "system_add_with_elimination gf alloc1 alloc2 sys eq = do {
     (e, sys, eq) \<leftarrow> reduce_equation gf alloc1 sys eq;
     (if e = 0 \<and> \<not> equation_is_zero eq then do {
        (idx, dec, rem, sys) \<leftarrow> system_add_as_pivot gf alloc2 sys eq;
        (if idx = ENTRY_INDEX_NONE \<or> idx \<ge> max_equations sys
         then Some (\<lparr>res_err = 0, res_decoded = dec, res_removed = rem, res_used = False\<rparr>, sys)
         else do {
           stored \<leftarrow> rd (equations sys) idx;
           stored_symbol \<leftarrow> stored;
           Some (\<lparr>res_err = 0, res_decoded = dec \<or> equation_has_one_id stored_symbol, res_removed = rem, res_used = True\<rparr>, sys)
         })
      }
      else Some (\<lparr>res_err = e, res_decoded = False, res_removed = None, res_used = False\<rparr>, sys))
   }"

section \<open>Removing equations\<close>

text \<open>
  The system that starts at a later identifier. A move by more than the size of the array does
  not happen, the first test excludes it.
\<close>

definition re_adjust_system_to :: "system \<Rightarrow> nat \<Rightarrow> system" where
  "re_adjust_system_to sys i =
     (let n_equations_offset = u32_sub i (first_id_id sys);
          empty = sys\<lparr>equations := replicate (max_equations sys) None, n_equations := 0,
            first_id_id := SYMBOL_ID_NONE, last_symbol_id := SYMBOL_ID_NONE\<rparr>
      in if n_equations_offset = 0 then sys
      else if n_equations_offset > max_equations sys \<or> i > last_symbol_id sys then empty
      else
        let es = drop n_equations_offset (equations sys) @ replicate n_equations_offset None;
            found = n_equations sys > 0 \<and> list_ex (\<lambda>e. e \<noteq> None) es
        in if found then sys\<lparr>equations := es, first_id_id := i\<rparr> else empty)"

text \<open>The loop over the identifiers up to \<open>i\<close>; the number of removed equations is counted.\<close>

partial_function (option) remove_loop :: "system \<Rightarrow> nat \<Rightarrow> nat \<Rightarrow> nat \<Rightarrow> (nat \<times> system) option" where
  "remove_loop sys current i n =
     (if current \<le> i then do {
        (r, sys) \<leftarrow> system_remove_pivot_for_id sys current;
        remove_loop sys (u32_add current 1) i (if r \<noteq> None then n + 1 else n)
      } else Some (n, sys))"

definition remove_all_pivots_until :: "system \<Rightarrow> nat \<Rightarrow> system option" where
  "remove_all_pivots_until sys i = do {
     (n, sys) \<leftarrow> remove_loop sys (first_id_id sys) i 0;
     let sys = sys\<lparr>n_equations := n_equations sys - int n\<rparr>;
     Some (if n = 0 then sys else re_adjust_system_to sys (u32_add i 1))
   }"

declare pivot_loop.simps [simp del]

end
