(* ===== verification/GF256Correct.thy ===== *)
theory GF256Correct
  imports GF256
begin

text \<open>
  Correctness of the buffer operations of \<open>GF256\<close>: the variants that work on 64-bit words or
  call the external library compute what the byte loops compute. \<open>gf_region\<close> is the contract of
  the library.
\<close>

section \<open>Words and bytes\<close>

lemma value_of_bit: "bit (value_of bs) k \<Longrightarrow> k < 8 * length bs"
proof (induction bs arbitrary: k)
  case (Cons b bs)
  from Cons.prems have "k < 8 \<or> 8 \<le> k \<and> bit (value_of bs) (k - 8)"
    by (auto simp: bit_or_iff bit_ucast_iff bit_push_bit_iff dest: bit_imp_le_length)
  with Cons.IH[of "k - 8"] show ?case by auto
qed simp

lemma bytes_of_value_of: "length bs \<le> 8 \<Longrightarrow> bytes_of (length bs) (value_of bs) = bs"
proof (induction bs)
  case (Cons b bs)
  have "ucast (ucast b OR push_bit 8 (value_of bs) :: u64) = b"
    by (rule bit_eqI) (auto simp: bit_simps)
  moreover have "drop_bit 8 (ucast b OR push_bit 8 (value_of bs) :: u64) = value_of bs"
  proof (rule bit_eqI)
    fix k
    have "bit (value_of bs) k \<Longrightarrow> k + 8 < 64" using value_of_bit[of bs k] Cons.prems by simp
    then show "bit (drop_bit 8 (ucast b OR push_bit 8 (value_of bs) :: u64)) k = bit (value_of bs) k"
      by (auto simp: bit_simps dest: bit_imp_le_length)
  qed
  ultimately show ?case using Cons by simp
qed simp

lemma value_of_xor:
  "length bs = length cs \<Longrightarrow> value_of bs XOR value_of cs = value_of (map2 (XOR) bs cs)"
proof (induction bs cs rule: list_induct2)
  case (Cons b bs c cs)
  then show ?case
    by (intro bit_eqI) (auto simp: bit_simps simp flip: Cons.IH dest: bit_imp_le_length)
qed simp

lemma store64_xor:
  assumes "8 * i + 8 \<le> length d1" "8 * i + 8 \<le> length d2"
  shows "store64 d1 i (value_of (take 8 (drop (8 * i) d1)) XOR value_of (take 8 (drop (8 * i) d2))) =
    map_range (8 * i) (8 * i + 8) (\<lambda>k x. x XOR d2 ! k) d1"
proof -
  let ?bs = "map2 (XOR) (take 8 (drop (8 * i) d1)) (take 8 (drop (8 * i) d2))"
  have l: "length ?bs = 8" using assms by simp
  have "value_of (take 8 (drop (8 * i) d1)) XOR value_of (take 8 (drop (8 * i) d2)) = value_of ?bs"
    using assms by (intro value_of_xor) simp
  moreover have "bytes_of 8 (value_of ?bs) = ?bs" using bytes_of_value_of[of ?bs] l by simp
  ultimately have "store64 d1 i (value_of (take 8 (drop (8 * i) d1)) XOR value_of (take 8 (drop (8 * i) d2)))
      = overlay d1 (8 * i) ?bs" by (simp add: store64_def)
  also have "\<dots> = map_range (8 * i) (8 * i + 8) (\<lambda>k x. x XOR d2 ! k) d1"
    using assms l by (intro nth_equalityI) (auto simp: overlay_def nth_append)
  finally show ?thesis .
qed

section \<open>The loops\<close>

lemma symbol_add_loop_eq: "n \<le> length d1 \<Longrightarrow> n \<le> length d2 \<Longrightarrow>
    symbol_add_loop i n d1 d2 = Some (map_range i n (\<lambda>k x. x XOR d2 ! k) d1)"
proof (induction i n d1 d2 rule: symbol_add_loop.induct)
  case (1 i n d1 d2)
  then show ?case
    using map_range_step[of i n d1 "\<lambda>k x. x XOR d2 ! k"] by (subst symbol_add_loop.simps) auto
qed

lemma symbol_add_words_eq: "8 * n \<le> length d1 \<Longrightarrow> 8 * n \<le> length d2 \<Longrightarrow>
    symbol_add_words i n d1 d2 = Some (map_range (8 * i) (8 * n) (\<lambda>k x. x XOR d2 ! k) d1)"
proof (induction i n d1 d2 rule: symbol_add_words.induct)
  case (1 i n d1 d2)
  show ?case
  proof (cases "i < n")
    case True
    with 1 have len: "8 * i + 8 \<le> length d1" "8 * i + 8 \<le> length d2" "8 * i + 8 \<le> 8 * n" by auto
    let ?d = "map_range (8 * i) (8 * i + 8) (\<lambda>k x. x XOR d2 ! k) d1"
    have "symbol_add_words i n d1 d2 = symbol_add_words (i + 1) n ?d d2"
      using True len by (subst symbol_add_words.simps) (simp add: load64_def store64_xor)
    also have "\<dots> = Some (map_range (8 * (i + 1)) (8 * n) (\<lambda>k x. x XOR d2 ! k) ?d)"
      using "1.IH"[OF True, of "value_of (take 8 (drop (8 * i) d1))" "value_of (take 8 (drop (8 * i) d2))"]
        "1.prems" len by (simp add: load64_def store64_xor)
    also have "\<dots> = Some (map_range (8 * i) (8 * n) (\<lambda>k x. x XOR d2 ! k) d1)"
      using map_range_join[of "8 * i" "8 * i + 8" "8 * n"] len by (simp add: algebra_simps)
    finally show ?thesis .
  qed (simp add: symbol_add_words.simps)
qed

lemma symbol_add_slow_eq: "n \<le> length s1 \<Longrightarrow> n \<le> length s2 \<Longrightarrow>
    symbol_add_slow_safe s1 s2 n = Some (map_range 0 n (\<lambda>k x. x XOR s2 ! k) s1)"
  by (simp add: symbol_add_slow_safe_def symbol_add_loop_eq)

lemma symbol_add_fast_eq: "n \<le> length s1 \<Longrightarrow> n \<le> length s2 \<Longrightarrow>
    symbol_add_fast_safe s1 s2 n = Some (map_range 0 n (\<lambda>k x. x XOR s2 ! k) s1)"
proof -
  assume n: "n \<le> length s1" "n \<le> length s2"
  have "8 * (n div 8) \<le> n" by simp
  with n map_range_join[of 0 "8 * (n div 8)" n "\<lambda>k x. x XOR s2 ! k" s1] show ?thesis
    by (simp add: symbol_add_fast_safe_def symbol_add_words_eq symbol_add_loop_eq mult.commute)
qed

lemma gf256_mul_table: "gf256_mul a b assign_mul = gf256_mul_formula a b"
  by (simp add: gf256_mul_def assign_mul_def)

lemma symbol_add_scaled_loop_eq: "n \<le> length d1 \<Longrightarrow> n \<le> length d2 \<Longrightarrow>
    symbol_add_scaled_loop i n d1 c d2 assign_mul =
      Some (map_range i n (\<lambda>k x. x XOR gf256_mul_formula c (d2 ! k)) d1)"
proof (induction i n d1 c d2 "assign_mul" rule: symbol_add_scaled_loop.induct)
  case (1 i n d1 c d2)
  then show ?case
    using map_range_step[of i n d1 "\<lambda>k x. x XOR gf256_mul_formula c (d2 ! k)"]
    by (subst symbol_add_scaled_loop.simps) (auto simp: gf256_mul_table)
qed

lemma symbol_mul_loop_eq: "n \<le> length s \<Longrightarrow>
    symbol_mul_loop i n s c assign_mul = Some (map_range i n (\<lambda>k. gf256_mul_formula c) s)"
proof (induction i n s c "assign_mul" rule: symbol_mul_loop.induct)
  case (1 i n s c)
  then show ?case
    using map_range_step[of i n s "\<lambda>k. gf256_mul_formula c"]
    by (subst symbol_mul_loop.simps) (auto simp: gf256_mul_table)
qed

section \<open>The library\<close>

lemma align_le: "n \<le> align n"
  unfolding align_def ALIGNMENT_def by linarith

lemma align_mono: "m \<le> n \<Longrightarrow> align m \<le> align n"
  by (simp add: align_def ALIGNMENT_def div_le_mono)

lemma align_align [simp]: "align (align n) = align n"
  by (simp add: align_def ALIGNMENT_def)

lemma align_below_le: "align_below n \<le> n"
  unfolding align_below_def align_def ALIGNMENT_def Let_def by (auto split: if_splits)

text \<open>The contract of the two operations of the external library.\<close>

locale gf_region =
  fixes maddrc :: "bytes \<Rightarrow> bytes \<Rightarrow> u8 \<Rightarrow> nat \<Rightarrow> bytes option"
    and mulrc :: "bytes \<Rightarrow> u8 \<Rightarrow> nat \<Rightarrow> bytes option"
  assumes maddrc: "n \<le> length s1 \<Longrightarrow> n \<le> length s2 \<Longrightarrow>
      maddrc s1 s2 c n = Some (map_range 0 n (\<lambda>k x. x XOR gf256_mul_formula c (s2 ! k)) s1)"
    and mulrc: "n \<le> length s \<Longrightarrow> mulrc s c n = Some (map_range 0 n (\<lambda>k. gf256_mul_formula c) s)"
begin

lemma maddrc_1: "n \<le> length s1 \<Longrightarrow> n \<le> length s2 \<Longrightarrow>
    maddrc s1 s2 1 n = Some (map_range 0 n (\<lambda>k x. x XOR s2 ! k) s1)"
  by (simp add: maddrc mul_1_left)

text \<open>A region added in two parts, the first by the library.\<close>

lemma add_in_parts:
  assumes "m \<le> n" "n \<le> length s1" "n \<le> length s2"
  shows "(do {
      s \<leftarrow> (if m > 0 then maddrc s1 s2 1 m else Some s1);
      (if n - m > 0 then
         map_option (\<lambda>t. take m s @ t) (symbol_add_fast_safe (drop m s) (drop m s2) (n - m))
       else Some s) }) = Some (map_range 0 n (\<lambda>k x. x XOR s2 ! k) s1)"
proof -
  let ?s = "map_range 0 m (\<lambda>k x. x XOR s2 ! k) s1"
  have first: "(if m > 0 then maddrc s1 s2 1 m else Some s1) = Some ?s"
    using assms by (simp add: maddrc_1)
  have "take m ?s @ map_range 0 (n - m) (\<lambda>k x. x XOR drop m s2 ! k) (drop m ?s) =
      map_range 0 n (\<lambda>k x. x XOR s2 ! k) s1"
    using assms by (intro nth_equalityI) (auto simp: nth_append min_def)
  then show ?thesis
    unfolding first using assms by (cases "m = n") (simp_all add: symbol_add_fast_eq)
qed

end

text \<open>The loops of a build without the library meet the contract.\<close>

interpretation native: gf_region
  "\<lambda>s1 s2 c n. symbol_add_scaled_loop 0 n s1 c s2 assign_mul"
  "\<lambda>s c n. symbol_mul_loop 0 n s c assign_mul"
  by unfold_locales (simp_all add: symbol_add_scaled_loop_eq symbol_mul_loop_eq)

definition native_library :: gf_library where
  "native_library = \<lparr>maddrc = (\<lambda>s1 s2 c n. symbol_add_scaled_loop 0 n s1 c s2 assign_mul),
     mulrc = (\<lambda>s c n. symbol_mul_loop 0 n s c assign_mul)\<rparr>"

text \<open>A build: without the library, or with one that meets the contract.\<close>

definition library_ok :: "gf_library option \<Rightarrow> bool" where
  "library_ok lib \<longleftrightarrow> (case lib of None \<Rightarrow> True | Some g \<Rightarrow> gf_region (maddrc g) (mulrc g))"

lemma library_ok_None [simp]: "library_ok None"
  by (simp add: library_ok_def)

lemma native_library_ok: "library_ok (Some native_library)"
  by (simp add: library_ok_def native_library_def native.gf_region_axioms)

lemma symbol_add_eq:
  assumes "library_ok lib" "n \<le> length s1" "n \<le> length s2"
  shows "picoquic_gf256_symbol_add lib s1 s2 n = Some (map_range 0 n (\<lambda>k x. x XOR s2 ! k) s1)"
proof (cases lib)
  case (Some g)
  with assms(1) have "gf_region (maddrc g) (mulrc g)" by (simp add: library_ok_def)
  from gf_region.add_in_parts[OF this align_below_le assms(2,3)] Some show ?thesis
    by (simp add: picoquic_gf256_symbol_add_def Let_def)
qed (use assms in \<open>simp add: picoquic_gf256_symbol_add_def symbol_add_fast_eq\<close>)

lemma symbol_add_scaled_eq:
  assumes "library_ok lib" "n \<le> length s1" "n \<le> length s2"
  shows "picoquic_gf256_symbol_add_scaled lib s1 c s2 n assign_mul =
    Some (map_range 0 n (\<lambda>k x. x XOR gf256_mul_formula c (s2 ! k)) s1)"
  using assms by (cases lib)
    (auto simp: picoquic_gf256_symbol_add_scaled_def symbol_add_scaled_loop_eq library_ok_def gf_region.maddrc)

lemma symbol_mul_eq:
  assumes "library_ok lib" "n \<le> length s"
  shows "picoquic_gf256_symbol_mul lib s c n assign_mul = Some (map_range 0 n (\<lambda>k. gf256_mul_formula c) s)"
  using assms by (cases lib)
    (auto simp: picoquic_gf256_symbol_mul_def symbol_mul_loop_eq library_ok_def gf_region.mulrc)

section \<open>Properties\<close>

text \<open>
  C13. Adding one symbol to another gives the same bytes whether it is done byte by byte, by 64-bit
  words with a byte-wise rest, or by the external library on the aligned part and by words on
  the rest; the bytes after the symbol are unchanged.
\<close>

theorem symbol_add_variants_agree:
  assumes "library_ok lib" "n \<le> length s1" "n \<le> length s2"
  shows "picoquic_gf256_symbol_add lib s1 s2 n = symbol_add_slow_safe s1 s2 n \<and>
    symbol_add_fast_safe s1 s2 n = symbol_add_slow_safe s1 s2 n \<and>
    (\<exists>s. symbol_add_slow_safe s1 s2 n = Some s \<and> length s = length s1 \<and> drop n s = drop n s1 \<and>
      (\<forall>k < n. s ! k = s1 ! k XOR s2 ! k))"
  using assms by (auto simp: symbol_add_eq symbol_add_slow_eq symbol_add_fast_eq intro!: nth_equalityI)

theorem symbol_add_variants_agree_witness:
  "picoquic_gf256_symbol_add (Some native_library) (replicate 41 3) (replicate 45 5) 41 =
     symbol_add_slow_safe (replicate 41 3) (replicate 45 5) 41"
  using symbol_add_variants_agree[OF native_library_ok, of 41 "replicate 41 3" "replicate 45 5"] by simp

text \<open>
  C12. Bytes with exclusive or as addition and \<open>gf256_mul_formula\<close> as multiplication are a field:
  the multiplication is commutative and associative, has 1 as neutral element, distributes over
  addition, and the generated table \<open>assign_inv\<close> holds the inverse of every byte but 0; a read of
  the generated multiplication table is the formula.
\<close>

theorem gf256_field:
  "gf256_mul_formula a b = gf256_mul_formula b a \<and>
   gf256_mul_formula (gf256_mul_formula a b) c = gf256_mul_formula a (gf256_mul_formula b c) \<and>
   gf256_mul_formula 1 a = a \<and>
   gf256_mul_formula a (b XOR c) = gf256_mul_formula a b XOR gf256_mul_formula a c \<and>
   (a = 0 \<or> gf256_mul_formula (assign_inv ! unat a) a = 1) \<and>
   gf256_mul a b assign_mul = gf256_mul_formula a b"
  by (intro conjI mul_comm mul_assoc mul_1_left mul_xor_right gf256_mul_table)
    (use mul_assign_inv[of a] in blast)

end
