(* ===== verification/EquationCorrect.thy ===== *)
theory EquationCorrect
  imports Equation GF256Correct
begin

text \<open>
  Correctness of \<open>Equation\<close>. An equation is seen as its coefficient function \<open>cf\<close> and its constant
  term \<open>dat\<close> over the field \<open>gf\<close>. Under the well-formedness invariant \<open>wf_eq\<close> no operation
  accesses memory outside of an allocation, \<open>equation_multiply\<close> is multiplication by a scalar and
  \<open>equation_add\<close> is addition, whatever buffers it has to grow.
\<close>

named_theorems eq_simps \<open>well-formed equations\<close>

section \<open>Abstraction and invariant\<close>

definition cf :: "equation \<Rightarrow> nat \<Rightarrow> gf" where
  "cf eq i = (if eq_first eq \<le> i \<and> i < eq_first eq + eq_count eq then to_gf (coefs eq ! (i - eq_first eq)) else 0)"

definition dat :: "equation \<Rightarrow> nat \<Rightarrow> gf" where
  "dat eq k = to_gf (eq_payload eq ! k)"

text \<open>All identifiers are in the window from \<open>lo\<close> to \<open>hi\<close>, which is smaller than 16 bits.\<close>

definition window :: "nat \<Rightarrow> nat \<Rightarrow> bool" where
  "window lo hi \<longleftrightarrow> hi < 2 ^ 32 \<and> hi - lo < 2 ^ 16"

definition wf_eq :: "nat \<Rightarrow> nat \<Rightarrow> nat \<Rightarrow> equation \<Rightarrow> bool" where
  "wf_eq lo hi len eq \<longleftrightarrow> window lo hi \<and> lo \<le> eq_first eq \<and> 0 < eq_count eq \<and>
     eq_first eq + eq_count eq \<le> hi \<and> eq_count eq \<le> n_coefs eq \<and>
     align (n_coefs eq) \<le> length (coefs eq) \<and> eq_length eq = len \<and> align len \<le> length (eq_payload eq)"

text \<open>The two identifiers stored in the equation are those of its first and last coefficient.\<close>

definition bounds_ok :: "equation \<Rightarrow> bool" where
  "bounds_ok eq \<longleftrightarrow>
     (if equation_is_zero eq then last_non_zero_id eq = SYMBOL_ID_NONE \<and> (\<forall>i. cf eq i = 0)
      else cf eq (pivot eq) \<noteq> 0 \<and> cf eq (last_non_zero_id eq) \<noteq> 0 \<and>
        (\<forall>i. cf eq i \<noteq> 0 \<longrightarrow> pivot eq \<le> i \<and> i \<le> last_non_zero_id eq))"

lemma to_gf_0_iff [simp]: "to_gf a = 0 \<longleftrightarrow> a = 0"
  by (simp add: zero_gf_def)

lemma to_gf_0 [simp]: "to_gf 0 = 0"
  by simp

lemma cf_range: "cf eq i \<noteq> 0 \<Longrightarrow> eq_first eq \<le> i \<and> i < eq_first eq + eq_count eq"
  by (auto simp: cf_def split: if_splits)

lemma wf_last [eq_simps]: "wf_eq lo hi len eq \<Longrightarrow>
    repair_symbol_last_id (constant_term eq) = eq_first eq + eq_count eq - 1"
  by (simp add: wf_eq_def window_def repair_symbol_last_id_def wrap_simps)

lemma wf_coefs: "wf_eq lo hi len eq \<Longrightarrow> align (eq_count eq) \<le> length (coefs eq)"
  by (auto simp: wf_eq_def intro: order.trans[OF align_mono])

lemma wf_coefs': "wf_eq lo hi len eq \<Longrightarrow> eq_count eq \<le> length (coefs eq)"
  using wf_coefs align_le order.trans by blast

lemma equation_get_coef_eq:
  assumes "wf_eq lo hi len eq"
  shows "equation_get_coef eq i = Some (of_gf (cf eq i))"
proof (cases "eq_first eq \<le> i \<and> i < eq_first eq + eq_count eq")
  case True
  moreover from True assms have "u32_sub i (eq_first eq) = i - eq_first eq"
    by (intro u32_sub_le) (auto simp: wf_eq_def window_def)
  ultimately show ?thesis
    using assms wf_coefs'[OF assms] by (auto simp: equation_get_coef_def wf_last cf_def to_gf_inverse)
next
  case False
  with assms have "equation_get_coef eq i = Some 0"
    by (auto simp: equation_get_coef_def wf_last wf_eq_def)
  with False show ?thesis by (auto simp: cf_def zero_gf.rep_eq)
qed

section \<open>The first and the last coefficient\<close>

definition first_nz :: "bytes \<Rightarrow> nat \<Rightarrow> nat \<Rightarrow> nat option \<Rightarrow> bool" where
  "first_nz cs j e r \<longleftrightarrow> (case r of
     None \<Rightarrow> \<forall>k. j \<le> k \<and> k < e \<longrightarrow> cs ! k = 0
   | Some m \<Rightarrow> j \<le> m \<and> m < e \<and> cs ! m \<noteq> 0 \<and> (\<forall>k. j \<le> k \<and> k < m \<longrightarrow> cs ! k = 0))"

lemma first_nz_join: "first_nz cs i j None \<Longrightarrow> first_nz cs j e r \<Longrightarrow> i \<le> j \<Longrightarrow> j \<le> e \<Longrightarrow> first_nz cs i e r"
  by (auto simp: first_nz_def split: option.splits) (meson linorder_not_less)+

lemma first_nz_widen: "first_nz cs i j (Some m) \<Longrightarrow> j \<le> e \<Longrightarrow> first_nz cs i e (Some m)"
  by (auto simp: first_nz_def)

lemma scan_nonzero_eq: "e \<le> length cs \<Longrightarrow> \<exists>r. scan_nonzero cs j e = Some r \<and> first_nz cs j e r"
proof (induction cs j e rule: scan_nonzero.induct)
  case (1 cs j e)
  show ?case
  proof (cases "j < e \<and> cs ! j = 0")
    case True
    with 1 obtain r where r: "scan_nonzero cs (j + 1) e = Some r" "first_nz cs (j + 1) e r" by auto
    from True have "first_nz cs j (j + 1) None" by (auto simp: first_nz_def le_less_Suc_eq)
    from first_nz_join[OF this r(2)] r(1) True "1.prems" show ?thesis by (subst scan_nonzero.simps) auto
  next
    case False
    with "1.prems" show ?thesis by (subst scan_nonzero.simps) (auto simp: first_nz_def)
  qed
qed

lemma value_of_0: "length bs = 8 \<Longrightarrow> value_of bs = 0 \<Longrightarrow> k < 8 \<Longrightarrow> bs ! k = 0"
proof -
  assume l: "length bs = 8" and v: "value_of bs = 0" and k: "k < 8"
  have z: "bytes_of n 0 = replicate n 0" for n by (induction n) simp_all
  from bytes_of_value_of[of bs] l v have "bs = bytes_of 8 0" by simp
  with k z show ?thesis by simp
qed

lemma scan_words_eq: "8 * n \<le> length cs \<Longrightarrow> i \<le> n \<Longrightarrow> \<exists>r. scan_words cs i n = Some r \<and> first_nz cs (8 * i) (8 * n) r"
proof (induction cs i n rule: scan_words.induct)
  case (1 cs i n)
  show ?case
  proof (cases "i < n")
    case True
    let ?w = "value_of (take 8 (drop (8 * i) cs))"
    have l: "load64 cs i = Some ?w" using True "1.prems" by (simp add: load64_def)
    obtain r where r: "(if ?w \<noteq> 0 then scan_nonzero cs (i * 8) ((i + 1) * 8) else Some None) = Some r"
      "first_nz cs (8 * i) (8 * (i + 1)) r"
    proof (cases "?w = 0")
      case w: True
      have "cs ! k = 0" if "8 * i \<le> k" "k < 8 * (i + 1)" for k
        using value_of_0[OF _ w, of "k - 8 * i"] that True "1.prems" by simp
      with w that[of None] show thesis by (simp add: first_nz_def)
    next
      case False
      with scan_nonzero_eq[of "8 * (i + 1)" cs "8 * i"] True "1.prems" that show thesis
        by (auto simp: mult.commute)
    qed
    show ?thesis
    proof (cases r)
      case (Some m)
      with r l True first_nz_widen[of cs "8 * i" "8 * (i + 1)" m "8 * n"] show ?thesis
        by (subst scan_words.simps) simp
    next
      case None
      from "1.IH"[OF True l r(1) None] True "1.prems"
      obtain r' where r': "scan_words cs (i + 1) n = Some r'" "first_nz cs (8 * (i + 1)) (8 * n) r'" by auto
      from first_nz_join[OF r(2)[unfolded None] r'(2)] True have "first_nz cs (8 * i) (8 * n) r'" by simp
      with r' r(1) None l True show ?thesis by (subst scan_words.simps) simp
    qed
  next
    case False
    with "1.prems" show ?thesis by (subst scan_words.simps) (auto simp: first_nz_def)
  qed
qed

lemma adjust_min_eq:
  assumes "eq_count eq \<le> length (coefs eq)"
  shows "\<exists>r. first_nz (coefs eq) 0 (eq_count eq) r \<and>
    full_symbol_adjust_min_coef eq = Some (case r of
        Some j \<Rightarrow> (True, eq\<lparr>pivot := u32_add j (eq_first eq)\<rparr>)
      | None \<Rightarrow> (False, eq\<lparr>pivot := SYMBOL_ID_NONE\<rparr>))"
proof -
  let ?n = "eq_count eq" and ?cs = "coefs eq"
  let ?m = "?n div 8"
  have m: "8 * ?m \<le> ?n" by simp
  have m': "?n \<le> (?m + 1) * 8" using dividend_less_times_div[of 8 ?n] by simp
  with assms have "8 * ?m \<le> length ?cs" by linarith
  then obtain r where r: "scan_words ?cs 0 ?m = Some r" "first_nz ?cs 0 (8 * ?m) r"
    using scan_words_eq[of ?m ?cs 0] by auto
  show ?thesis
  proof (cases r)
    case (Some j)
    with r first_nz_widen[of ?cs 0 "8 * ?m" j ?n] m show ?thesis
      by (intro exI[of _ r]) (simp add: full_symbol_adjust_min_coef_def Let_def)
  next
    case None
    obtain r' where r': "scan_nonzero ?cs (8 * ?m) ?n = Some r'" "first_nz ?cs (8 * ?m) ?n r'"
      using scan_nonzero_eq assms by blast
    from first_nz_join[OF r(2)[unfolded None] r'(2)] m have "first_nz ?cs 0 ?n r'" by simp
    with r r' None m m' show ?thesis
      by (intro exI[of _ r']) (simp add: full_symbol_adjust_min_coef_def Let_def mult.commute min_absorb2)
  qed
qed

definition last_nz :: "bytes \<Rightarrow> nat \<Rightarrow> nat option \<Rightarrow> bool" where
  "last_nz cs e r \<longleftrightarrow> (case r of
     None \<Rightarrow> \<forall>k < e. cs ! k = 0
   | Some m \<Rightarrow> m < e \<and> cs ! m \<noteq> 0 \<and> (\<forall>k. m < k \<and> k < e \<longrightarrow> cs ! k = 0))"

lemma adjust_max_loop_eq:
  assumes wf: "wf_eq lo hi len eq" and p: "pivot eq \<noteq> SYMBOL_ID_NONE"
  shows "m \<le> eq_count eq \<Longrightarrow> \<exists>r. last_nz (coefs eq) m r \<and>
    adjust_max_loop eq (eq_count eq - m) = Some (case r of
        Some i \<Rightarrow> (True, eq\<lparr>last_non_zero_id := eq_first eq + i\<rparr>)
      | None \<Rightarrow> (False, eq))"
proof (induction m)
  case 0
  show ?case
    using p by (subst adjust_max_loop.simps, intro exI[of _ None]) (auto simp: last_nz_def equation_count_allocated_coef_def)
next
  case (Suc m)
  have id: "u32_sub (repair_symbol_last_id (constant_term eq)) (eq_count eq - Suc m) = eq_first eq + m"
  proof -
    have "eq_count eq - Suc m \<le> eq_first eq + eq_count eq - 1" "eq_first eq + eq_count eq - 1 < 2 ^ 32"
      using wf by (auto simp: wf_eq_def window_def)
    from u32_sub_le[OF this] Suc.prems wf show ?thesis by (simp add: wf_last)
  qed
  have c: "equation_get_coef eq (eq_first eq + m) = Some (coefs eq ! m)"
    using Suc.prems equation_get_coef_eq[OF wf, of "eq_first eq + m"] by (simp add: cf_def to_gf_inverse)
  have "eq_count eq - Suc m + 1 = eq_count eq - m" using Suc.prems by simp
  then have step: "adjust_max_loop eq (eq_count eq - Suc m) = (if coefs eq ! m \<noteq> 0
      then Some (True, eq\<lparr>last_non_zero_id := eq_first eq + m\<rparr>) else adjust_max_loop eq (eq_count eq - m))"
    using Suc.prems p by (subst adjust_max_loop.simps) (simp add: equation_count_allocated_coef_def id c Let_def)
  show ?case
  proof (cases "coefs eq ! m = 0")
    case False
    with step show ?thesis by (intro exI[of _ "Some m"]) (auto simp: last_nz_def)
  next
    case True
    from Suc obtain r where r: "last_nz (coefs eq) m r" "adjust_max_loop eq (eq_count eq - m) = Some (case r of
        Some i \<Rightarrow> (True, eq\<lparr>last_non_zero_id := eq_first eq + i\<rparr>) | None \<Rightarrow> (False, eq))" by auto
    from r(1) True have "last_nz (coefs eq) (Suc m) r"
      by (auto simp: last_nz_def less_Suc_eq split: option.splits)
    with r(2) step True show ?thesis by auto
  qed
qed

text \<open>After the adjustment the two identifiers are right and nothing else has changed.\<close>

lemma wf_eq_update [simp]: "wf_eq lo hi len (eq\<lparr>pivot := a, last_non_zero_id := b\<rparr>) = wf_eq lo hi len eq"
  "wf_eq lo hi len (eq\<lparr>pivot := a\<rparr>) = wf_eq lo hi len eq"
  "wf_eq lo hi len (eq\<lparr>last_non_zero_id := b\<rparr>) = wf_eq lo hi len eq"
  by (simp_all add: wf_eq_def)

lemma cf_update [simp]: "cf (eq\<lparr>pivot := a, last_non_zero_id := b\<rparr>) = cf eq"
  "cf (eq\<lparr>pivot := a\<rparr>) = cf eq" "cf (eq\<lparr>last_non_zero_id := b\<rparr>) = cf eq"
  by (simp_all add: cf_def fun_eq_iff)

lemma dat_update [simp]: "dat (eq\<lparr>pivot := a, last_non_zero_id := b\<rparr>) = dat eq"
  by (simp add: dat_def fun_eq_iff)

lemma adjust_eq:
  assumes wf: "wf_eq lo hi len eq"
  obtains r a b where "equation_adjust_non_zero_bounds eq = Some (r, eq\<lparr>pivot := a, last_non_zero_id := b\<rparr>)"
    "bounds_ok (eq\<lparr>pivot := a, last_non_zero_id := b\<rparr>)"
proof -
  let ?n = "eq_count eq" and ?f = "eq_first eq" and ?cs = "coefs eq"
  have f: "?f \<noteq> SYMBOL_ID_NONE" "?f + ?n < 2 ^ 32" "?f + ?n \<le> SYMBOL_ID_NONE"
    using wf by (auto simp: wf_eq_def window_def SYMBOL_ID_NONE_def)
  obtain r where r: "first_nz ?cs 0 ?n r" "full_symbol_adjust_min_coef eq = Some (case r of
        Some j \<Rightarrow> (True, eq\<lparr>pivot := u32_add j ?f\<rparr>) | None \<Rightarrow> (False, eq\<lparr>pivot := SYMBOL_ID_NONE\<rparr>))"
    using adjust_min_eq[OF wf_coefs'[OF wf]] by blast
  show thesis
  proof (cases r)
    case None
    let ?e = "eq\<lparr>pivot := SYMBOL_ID_NONE, last_non_zero_id := SYMBOL_ID_NONE\<rparr>"
    have "adjust_max_loop ?e 0 = Some (False, ?e)"
      by (subst adjust_max_loop.simps) (simp add: equation_count_allocated_coef_def)
    with r(2) None f have "equation_adjust_non_zero_bounds eq = Some (False, ?e)"
      by (simp add: equation_adjust_non_zero_bounds_def full_symbol_adjust_max_coef_def)
    moreover have "bounds_ok ?e"
      using r(1) None by (auto simp: bounds_ok_def equation_is_zero_def equation_get_min_symbol_id_def cf_def first_nz_def)
    ultimately show thesis by (rule that)
  next
    case (Some j)
    with r(1) have j: "j < ?n" "?cs ! j \<noteq> 0" "\<And>k. k < j \<Longrightarrow> ?cs ! k = 0" by (auto simp: first_nz_def)
    define e where "e = eq\<lparr>pivot := ?f + j, last_non_zero_id := SYMBOL_ID_NONE\<rparr>"
    have pj: "u32_add j ?f = ?f + j" using j f by (simp add: wrap_simps)
    have e: "eq_count e = ?n" "eq_first e = ?f" "coefs e = ?cs" "wf_eq lo hi len e" "pivot e \<noteq> SYMBOL_ID_NONE"
      using wf j f by (auto simp: e_def)
    from adjust_max_loop_eq[OF e(4,5), of ?n, unfolded e(1-3)] obtain q where q: "last_nz ?cs ?n q"
      "adjust_max_loop e 0 = Some (case q of
        Some i \<Rightarrow> (True, e\<lparr>last_non_zero_id := ?f + i\<rparr>) | None \<Rightarrow> (False, e))"
      by auto
    with j obtain i where i: "q = Some i" "i < ?n" "?cs ! i \<noteq> 0" "\<And>k. i < k \<Longrightarrow> k < ?n \<Longrightarrow> ?cs ! k = 0"
      by (auto simp: last_nz_def split: option.splits)
    let ?e' = "eq\<lparr>pivot := ?f + j, last_non_zero_id := ?f + i\<rparr>"
    have "equation_adjust_non_zero_bounds eq = Some (True, ?e')"
      using r(2) Some q(2) i(1) f(1)
      by (simp add: equation_adjust_non_zero_bounds_def full_symbol_adjust_max_coef_def pj e_def)
    moreover have "j \<le> i" using i(4)[of j] j by (meson linorder_not_less)
    have "pivot ?e' \<le> k \<and> k \<le> last_non_zero_id ?e'" if "cf ?e' k \<noteq> 0" for k
    proof -
      from that have k: "?f \<le> k" "k < ?f + ?n" "?cs ! (k - ?f) \<noteq> 0" by (auto simp: cf_def split: if_splits)
      then have "\<not> k - ?f < j" "\<not> i < k - ?f" using j(3) i(4)[of "k - ?f"] by (blast, fastforce)
      with k show ?thesis by auto
    qed
    then have "bounds_ok ?e'"
      using j i f unfolding bounds_ok_def
      by (auto simp: equation_is_zero_def equation_get_min_symbol_id_def cf_def SYMBOL_ID_NONE_def)
    ultimately show thesis by (intro that)
  qed
qed

section \<open>Arithmetic\<close>

lemma to_gf_xor: "to_gf (a XOR b) = to_gf a + to_gf b"
  by (simp add: plus_gf.abs_eq)

lemma to_gf_mul: "to_gf (gf256_mul_formula a b) = to_gf a * to_gf b"
  by (simp add: times_gf.abs_eq)

lemma multiply_eq:
  assumes lib: "library_ok lib" and wf: "wf_eq lo hi len eq"
  obtains eq' where "equation_multiply lib eq c assign_mul = Some eq'" "wf_eq lo hi len eq'"
    "\<And>i. cf eq' i = to_gf c * cf eq i" "\<And>k. k < len \<Longrightarrow> dat eq' k = to_gf c * dat eq k"
    "pivot eq' = pivot eq" "last_non_zero_id eq' = last_non_zero_id eq" "n_coefs eq' = n_coefs eq"
    "eq_first eq' = eq_first eq" "eq_count eq' = eq_count eq"
proof -
  let ?mul = "\<lambda>k :: nat. gf256_mul_formula c"
  let ?eq = "eq\<lparr>coefs := map_range 0 (align (eq_count eq)) ?mul (coefs eq),
    constant_term := (constant_term eq)\<lparr>repair_payload := map_range 0 (align (eq_length eq)) ?mul (eq_payload eq)\<rparr>\<rparr>"
  have len: "eq_length eq = len" "align len \<le> length (eq_payload eq)" using wf by (auto simp: wf_eq_def)
  have "equation_multiply lib eq c assign_mul = Some ?eq"
    using lib wf_coefs[OF wf] len by (simp add: equation_multiply_def symbol_mul_eq)
  moreover have "wf_eq lo hi len ?eq" using wf by (simp add: wf_eq_def)
  moreover have "cf ?eq i = to_gf c * cf eq i" for i
    using wf_coefs'[OF wf] align_le[of "eq_count eq"] by (auto simp: cf_def to_gf_mul)
  moreover have "dat ?eq k = to_gf c * dat eq k" if "k < len" for k
    using that len align_le[of len] by (auto simp: dat_def to_gf_mul)
  ultimately show thesis by (rule that) simp_all
qed

lemma bounds_ok_nonzero:
  assumes "bounds_ok eq" "\<not> equation_is_zero eq"
  shows "cf eq (pivot eq) \<noteq> 0" "cf eq (last_non_zero_id eq) \<noteq> 0"
    "cf eq i \<noteq> 0 \<Longrightarrow> pivot eq \<le> i" "cf eq i \<noteq> 0 \<Longrightarrow> i \<le> last_non_zero_id eq"
  using assms by (auto simp: bounds_ok_def)

lemma bounds_order:
  assumes "bounds_ok eq" "\<not> equation_is_zero eq"
  shows "eq_first eq \<le> pivot eq" "pivot eq \<le> last_non_zero_id eq"
    "last_non_zero_id eq < eq_first eq + eq_count eq"
  using cf_range[OF bounds_ok_nonzero(1)[OF assms]] cf_range[OF bounds_ok_nonzero(2)[OF assms]]
    bounds_ok_nonzero(3)[OF assms bounds_ok_nonzero(2)[OF assms]] by auto

lemma bounds_ok_cong:
  assumes "bounds_ok eq" "\<And>i. cf eq' i = 0 \<longleftrightarrow> cf eq i = 0" "pivot eq' = pivot eq"
    "last_non_zero_id eq' = last_non_zero_id eq"
  shows "bounds_ok eq'"
  using assms by (simp add: bounds_ok_def equation_is_zero_def equation_get_min_symbol_id_def)

lemma wf_hi: "wf_eq lo hi len eq \<Longrightarrow> eq_first eq + eq_count eq \<le> hi \<and> hi < 2 ^ 32 \<and> hi - lo < 2 ^ 16"
  by (auto simp: wf_eq_def window_def)

lemma clear_unused_eq:
  assumes wf: "wf_eq lo hi len eq" and b: "bounds_ok eq"
  obtains cs where "equation_clear_unused_coefs eq = Some (eq\<lparr>coefs := cs\<rparr>)" "length cs = length (coefs eq)"
    "cf (eq\<lparr>coefs := cs\<rparr>) = cf eq"
proof (cases "equation_is_zero eq")
  case True
  then show thesis by (intro that[of "coefs eq"]) (simp_all add: equation_clear_unused_coefs_def)
next
  case False
  let ?st = "last_non_zero_id eq + 1 - eq_first eq" and ?n = "length (coefs eq)"
  note bo = bounds_order[OF b False] and hi = wf_hi[OF wf]
  have st: "u32_sub (u32_add (last_non_zero_id eq) 1) (eq_first eq) = ?st" "?st \<le> ?n"
    using bo hi wf_coefs'[OF wf] by (simp_all add: wrap_simps)
  let ?cs = "overlay (coefs eq) ?st (replicate (?n - ?st) 0)"
  have "cf (eq\<lparr>coefs := ?cs\<rparr>) i = cf eq i" for i
  proof (cases "i \<le> last_non_zero_id eq")
    case True
    with st(2) wf_coefs'[OF wf] show ?thesis by (auto simp: cf_def nth_overlay)
  next
    case i: False
    with bounds_ok_nonzero(4)[OF b False, of i] have "cf eq i = 0" by blast
    moreover have "cf (eq\<lparr>coefs := ?cs\<rparr>) i = 0"
      using i st(2) wf_coefs'[OF wf] bo by (auto simp: cf_def nth_overlay)
    ultimately show ?thesis by simp
  qed
  then have "cf (eq\<lparr>coefs := ?cs\<rparr>) = cf eq" by (rule ext)
  moreover have "equation_clear_unused_coefs eq = Some (eq\<lparr>coefs := ?cs\<rparr>)"
    using False st by (simp add: equation_clear_unused_coefs_def memset_at_def Let_def)
  moreover have "length ?cs = ?n" using st by simp
  ultimately show thesis by (intro that)
qed

lemma add_coefs_eq:
  assumes lib: "library_ok lib" and wf1: "wf_eq lo hi len eq1" and wf2: "wf_eq lo hi len eq2"
    and b2: "bounds_ok eq2" and nz: "\<not> equation_is_zero eq2"
    and lo: "eq_first eq1 \<le> pivot eq2" and hi: "last_non_zero_id eq2 < eq_first eq1 + eq_count eq1"
  obtains cs where "add_coefs lib eq1 eq2 (pivot eq2) (last_non_zero_id eq2) = Some (eq1\<lparr>coefs := cs\<rparr>)"
    "length cs = length (coefs eq1)" "\<And>i. cf (eq1\<lparr>coefs := cs\<rparr>) i = cf eq1 i + cf eq2 i"
proof -
  let ?p = "pivot eq2" and ?l = "last_non_zero_id eq2"
  let ?o1 = "?p - eq_first eq1" and ?o2 = "?p - eq_first eq2" and ?n = "?l + 1 - ?p"
  note bo = bounds_order[OF b2 nz] and hi1 = wf_hi[OF wf1] and hi2 = wf_hi[OF wf2]
  have o: "u32_sub ?p (eq_first eq1) = ?o1" "u32_sub ?p (eq_first eq2) = ?o2" "u32_sub (u32_add ?l 1) ?p = ?n"
    "min ?n (eq_count eq1) = ?n" "max ?p (eq_first eq2) = ?p"
    "min ?l (repair_symbol_last_id (constant_term eq2)) = ?l"
    using bo hi1 hi2 lo hi wf2 by (simp_all add: wrap_simps wf_last)
  have l: "?o1 + ?n \<le> length (coefs eq1)" "?o2 + ?n \<le> length (coefs eq2)"
    using wf_coefs'[OF wf1] wf_coefs'[OF wf2] bo lo hi by auto
  let ?cs = "take ?o1 (coefs eq1) @ map_range 0 ?n (\<lambda>k x. x XOR drop ?o2 (coefs eq2) ! k) (drop ?o1 (coefs eq1))"
  have n: "?n \<le> length (drop ?o1 (coefs eq1))" "?n \<le> length (drop ?o2 (coefs eq2))" using l by auto
  have "add_coefs lib eq1 eq2 ?p ?l = Some (eq1\<lparr>coefs := ?cs\<rparr>)"
    using l symbol_add_eq[OF lib n] unfolding add_coefs_def o Let_def by simp
  moreover have "length ?cs = length (coefs eq1)" using l by simp
  moreover have "cf (eq1\<lparr>coefs := ?cs\<rparr>) i = cf eq1 i + cf eq2 i" for i
  proof (cases "eq_first eq1 \<le> i \<and> i < eq_first eq1 + eq_count eq1")
    case True
    let ?k = "i - eq_first eq1"
    have k: "?k < length (coefs eq1)" "?o1 \<le> length (coefs eq1)" using True wf_coefs'[OF wf1] l by linarith+
    have in_p: "?o1 \<le> ?k \<and> ?k < ?o1 + ?n \<longleftrightarrow> ?p \<le> i \<and> i \<le> ?l" using True lo bo(2) by linarith
    have "to_gf (?cs ! ?k) = to_gf (coefs eq1 ! ?k) + cf eq2 i"
    proof (cases "?p \<le> i \<and> i \<le> ?l")
      case p: True
      then have ix: "?o2 + (?k - ?o1) = i - eq_first eq2" using bo lo by linarith
      have "cf eq2 i = to_gf (coefs eq2 ! (i - eq_first eq2))" using p bo by (simp add: cf_def)
      moreover have "?o2 \<le> length (coefs eq2)" using l by linarith
      ultimately show ?thesis
        unfolding nth_tail_range[OF k(2,1)] in_p using p by (simp add: to_gf_xor ix[symmetric])
    next
      case p: False
      with bounds_ok_nonzero(3,4)[OF b2 nz, of i] have "cf eq2 i = 0" by blast
      then show ?thesis unfolding nth_tail_range[OF k(2,1)] in_p if_not_P[OF p] by simp
    qed
    with True show ?thesis by (simp add: cf_def)
  next
    case False
    with bounds_ok_nonzero(3,4)[OF b2 nz, of i] lo hi have "cf eq2 i = 0" by (meson le_trans le_less_trans)
    with False show ?thesis by (auto simp: cf_def)
  qed
  ultimately show thesis by (rule that)
qed

lemma cf_payload [simp]:
  "cf (eq\<lparr>constant_term := (constant_term eq)\<lparr>repair_payload := pl\<rparr>\<rparr>) = cf eq"
  by (simp add: cf_def fun_eq_iff)

lemma add_base_eq:
  assumes lib: "library_ok lib" and wf1: "wf_eq lo hi len eq1" and wf2: "wf_eq lo hi len eq2"
    and b2: "bounds_ok eq2" and nz: "\<not> equation_is_zero eq2"
    and lo: "eq_first eq1 \<le> pivot eq2" and hi: "last_non_zero_id eq2 < eq_first eq1 + eq_count eq1"
  obtains eq1' cs where "full_symbol_add_base lib eq1 eq2 = Some (eq1', eq2\<lparr>coefs := cs\<rparr>)"
    "wf_eq lo hi len eq1'" "bounds_ok eq1'" "\<And>i. cf eq1' i = cf eq1 i + cf eq2 i"
    "\<And>k. k < len \<Longrightarrow> dat eq1' k = dat eq1 k + dat eq2 k"
    "length cs = length (coefs eq2)" "cf (eq2\<lparr>coefs := cs\<rparr>) = cf eq2"
proof -
  obtain cs where cs: "(if last_non_zero_id eq1 > last_non_zero_id eq2 then equation_clear_unused_coefs eq2 else Some eq2)
      = Some (eq2\<lparr>coefs := cs\<rparr>)" "length cs = length (coefs eq2)" "cf (eq2\<lparr>coefs := cs\<rparr>) = cf eq2"
  proof (cases "last_non_zero_id eq1 > last_non_zero_id eq2")
    case True
    with clear_unused_eq[OF wf2 b2] that show thesis by metis
  qed (use that[of "coefs eq2"] in simp)
  let ?eq2 = "eq2\<lparr>coefs := cs\<rparr>"
  have wf2': "wf_eq lo hi len ?eq2" using wf2 cs(2) by (simp add: wf_eq_def)
  have b2': "bounds_ok ?eq2" using b2 by (rule bounds_ok_cong) (simp_all add: cs(3))
  have nz': "\<not> equation_is_zero ?eq2" using nz by (simp add: equation_is_zero_def equation_get_min_symbol_id_def)
  obtain ds where ds: "add_coefs lib eq1 ?eq2 (pivot eq2) (last_non_zero_id eq2) = Some (eq1\<lparr>coefs := ds\<rparr>)"
    "length ds = length (coefs eq1)" "\<And>i. cf (eq1\<lparr>coefs := ds\<rparr>) i = cf eq1 i + cf eq2 i"
    using add_coefs_eq[OF lib wf1 wf2' b2' nz'] lo hi cs(3) by auto
  have wf1': "wf_eq lo hi len (eq1\<lparr>coefs := ds\<rparr>)" using wf1 ds(2) by (simp add: wf_eq_def)
  obtain r a b where adj: "equation_adjust_non_zero_bounds (eq1\<lparr>coefs := ds\<rparr>) =
      Some (r, eq1\<lparr>coefs := ds, pivot := a, last_non_zero_id := b\<rparr>)"
    "bounds_ok (eq1\<lparr>coefs := ds, pivot := a, last_non_zero_id := b\<rparr>)"
    using adjust_eq[OF wf1'] by blast
  have len: "eq_length eq1 = len" "eq_length eq2 = len" "align len \<le> length (eq_payload eq1)"
    "align len \<le> length (eq_payload eq2)" using wf1 wf2 by (auto simp: wf_eq_def)
  define e where "e = eq1\<lparr>coefs := ds, pivot := a, last_non_zero_id := b\<rparr>"
  define pl where "pl = map_range 0 (align len) (\<lambda>k x. x XOR eq_payload eq2 ! k) (eq_payload eq1)"
  let ?e = "e\<lparr>constant_term := (constant_term e)\<lparr>repair_payload := pl\<rparr>\<rparr>"
  have e: "constant_term e = constant_term eq1" "coefs e = ds" "n_coefs e = n_coefs eq1" "cf e = cf (eq1\<lparr>coefs := ds\<rparr>)"
    by (simp_all add: e_def cf_def fun_eq_iff)
  have npe: "\<not> (pivot eq1 = SYMBOL_ID_NONE \<and> pivot eq2 = SYMBOL_ID_NONE)"
    using nz by (simp add: equation_is_zero_def equation_get_min_symbol_id_def)
  have "full_symbol_add_base lib eq1 eq2 = Some (?e, ?eq2)"
    unfolding full_symbol_add_base_def Let_def if_not_P[OF npe] cs(1) pl_def
    using ds(1) adj(1) len symbol_add_eq[OF lib len(3,4)] by (simp add: e_def)
  moreover have "wf_eq lo hi len ?e" using wf1' by (simp add: wf_eq_def e pl_def)
  moreover have cfe: "cf ?e i = cf eq1 i + cf eq2 i" for i
    unfolding cf_payload by (simp add: e(4) ds(3))
  moreover have "bounds_ok ?e"
    by (rule bounds_ok_cong[OF adj(2)[folded e_def]]) simp_all
  moreover have "dat ?e k = dat eq1 k + dat eq2 k" if "k < len" for k
    using that align_le[of len] len by (auto simp: dat_def pl_def to_gf_xor)
  ultimately show thesis using cs(2,3) by (intro that)
qed

lemma grow_coefs_eq:
  assumes wf: "wf_eq lo hi len eq" and b: "bounds_ok eq" and nz: "\<not> equation_is_zero eq" and w: "n_coefs eq < width"
  obtains cs where "grow_coefs eq width = Some (eq\<lparr>coefs := cs, n_coefs := width\<rparr>)"
    "wf_eq lo hi len (eq\<lparr>coefs := cs, n_coefs := width\<rparr>)" "cf (eq\<lparr>coefs := cs, n_coefs := width\<rparr>) = cf eq"
proof -
  note bo = bounds_order[OF b nz] and hi = wf_hi[OF wf]
  let ?size = "align (max (length (coefs eq)) width)"
  let ?i = "pivot eq - eq_first eq" and ?n = "last_non_zero_id eq + 1 - pivot eq"
  let ?cs = "overlay (replicate ?size 0) ?i (take ?n (drop ?i (coefs eq)))"
  let ?e = "eq\<lparr>coefs := ?cs, n_coefs := width\<rparr>"
  have u: "equation_get_coef_index eq (pivot eq) = ?i" "u32_sub (u32_add (last_non_zero_id eq) 1) (pivot eq) = ?n"
    using bo hi by (simp_all add: equation_get_coef_index_def wrap_simps)
  have sz: "length (coefs eq) \<le> ?size" "align width \<le> ?size"
    using align_le[of "max (length (coefs eq)) width"] align_mono[of width "max (length (coefs eq)) width"] by auto
  have l: "?i + ?n \<le> length (coefs eq)" using bo wf_coefs'[OF wf] by auto
  have "grow_coefs eq width = Some ?e"
    unfolding grow_coefs_def Let_def u memcpy_at_def using l sz by simp
  moreover have len: "length ?cs = ?size" using l sz by simp
  then have "wf_eq lo hi len ?e" using wf w sz by (simp add: wf_eq_def)
  moreover have "cf ?e i = cf eq i" for i
  proof (cases "eq_first eq \<le> i \<and> i < eq_first eq + eq_count eq")
    case True
    let ?k = "i - eq_first eq"
    have k: "?k < ?size" using True wf_coefs'[OF wf] sz by linarith
    have "?i \<le> ?k \<and> ?k < ?i + ?n \<longleftrightarrow> pivot eq \<le> i \<and> i \<le> last_non_zero_id eq" using True bo by linarith
    with nth_overlay_copy[OF l sz(1) k, of 0]
    have "?cs ! ?k = (if pivot eq \<le> i \<and> i \<le> last_non_zero_id eq then coefs eq ! ?k else 0)" by simp
    moreover have "cf eq i = to_gf (coefs eq ! ?k)" "cf ?e i = to_gf (?cs ! ?k)" using True by (simp_all add: cf_def)
    ultimately show ?thesis using bounds_ok_nonzero(3,4)[OF b nz, of i] by auto
  next
    case False
    then show ?thesis by (auto simp: cf_def)
  qed
  then have "cf ?e = cf eq" by (rule ext)
  ultimately show thesis by (rule that)
qed


lemma shift_coefs_eq:
  assumes wf: "wf_eq lo hi len eq" and b: "bounds_ok eq" and nz: "\<not> equation_is_zero eq"
    and f: "eq_first eq \<le> f" "f \<le> pivot eq" and l: "eq_first eq + eq_count eq \<le> l" "l < hi"
    and n: "l + 1 - f \<le> n_coefs eq"
  obtains eq' where "shift_coefs eq f l = Some eq'" "wf_eq lo hi len eq'" "bounds_ok eq'" "cf eq' = cf eq"
    "dat eq' = dat eq" "eq_first eq' = f" "eq_count eq' = l + 1 - f"
proof -
  note bo = bounds_order[OF b nz] and hi = wf_hi[OF wf]
  let ?k = "f - eq_first eq" and ?n = "eq_first eq + eq_count eq - f" and ?w = "l + 1 - f"
  have len: "n_coefs eq \<le> length (coefs eq)" "eq_count eq \<le> length (coefs eq)"
    using wf align_le[of "n_coefs eq"] wf_coefs'[OF wf] by (auto simp: wf_eq_def)
  have u: "u32_sub (u32_add (repair_symbol_last_id (constant_term eq)) 1) f = ?n" "u32_sub f (eq_first eq) = ?k"
    "u32_sub (u32_add l 1) f mod 2 ^ 16 = ?w"
  proof -
    have c: "0 < eq_count eq" "lo \<le> eq_first eq" using wf by (auto simp: wf_eq_def)
    show "u32_sub (u32_add (repair_symbol_last_id (constant_term eq)) 1) f = ?n"
      using c bo hi f unfolding wf_last[OF wf] by (simp add: wrap_simps)
    show "u32_sub f (eq_first eq) = ?k" using bo hi f by (simp add: wrap_simps)
    have "u32_sub (u32_add l 1) f = ?w" using hi f l bo by (simp add: wrap_simps)
    moreover have "?w < 2 ^ 16" using c hi f l by linarith
    ultimately show "u32_sub (u32_add l 1) f mod 2 ^ 16 = ?w" by simp
  qed
  have lt: "?n < n_coefs eq" "?k + ?n \<le> length (coefs eq)" "?n \<le> length (coefs eq)" using f l n len bo by auto
  define cs where "cs = overlay (overlay (coefs eq) 0 (take ?n (drop ?k (coefs eq)))) ?n (replicate (n_coefs eq - ?n) 0)"
  let ?e = "eq\<lparr>coefs := cs, constant_term := (constant_term eq)\<lparr>first_id := f, n_protected_symbols := ?w\<rparr>\<rparr>"
  have lcs: "length cs = length (coefs eq)" using lt len by (simp add: cs_def)
  have "lo \<le> f" using f wf by (simp add: wf_eq_def)
  with wf f l n lcs bo have wfe: "wf_eq lo hi len ?e" by (auto simp: wf_eq_def)
  have "cf ?e i = cf eq i" for i
  proof (cases "f \<le> i \<and> i < l + 1")
    case True
    let ?j = "i - f"
    have j: "?j < length (coefs eq)" "?j < n_coefs eq" "?k + ?j = i - eq_first eq"
      "?j < ?n \<longleftrightarrow> i < eq_first eq + eq_count eq" using True n len f by linarith+
    have "cs ! ?j = (if i < eq_first eq + eq_count eq then coefs eq ! (i - eq_first eq) else 0)"
      unfolding cs_def nth_overlay_shift[OF lt(2) less_imp_le[OF lt(1)] len(1) j(1)] j(3,4) using j(2) by simp
    with True f show ?thesis by (simp add: cf_def)
  next
    case False
    have "cf eq i = 0"
    proof (rule ccontr)
      assume "cf eq i \<noteq> 0"
      from cf_range[OF this] bounds_ok_nonzero(3)[OF b nz this] False f(2) l(1) show False by linarith
    qed
    moreover have "cf ?e i = 0" using False by (auto simp: cf_def)
    ultimately show ?thesis by simp
  qed
  then have cfe: "cf ?e = cf eq" by (rule ext)
  obtain r a c where adj: "equation_adjust_non_zero_bounds ?e = Some (r, ?e\<lparr>pivot := a, last_non_zero_id := c\<rparr>)"
    "bounds_ok (?e\<lparr>pivot := a, last_non_zero_id := c\<rparr>)" using adjust_eq[OF wfe] by blast
  have "shift_coefs eq f l = Some (?e\<lparr>pivot := a, last_non_zero_id := c\<rparr>)"
    unfolding shift_coefs_def Let_def u memcpy_at_def memset_at_def
    using lt len adj(1) by (simp add: cs_def)
  moreover have "wf_eq lo hi len (?e\<lparr>pivot := a, last_non_zero_id := c\<rparr>)" using wfe by (simp only: wf_eq_update)
  moreover have "cf (?e\<lparr>pivot := a, last_non_zero_id := c\<rparr>) = cf eq" using cfe by (simp only: cf_update)
  moreover have "dat (?e\<lparr>pivot := a, last_non_zero_id := c\<rparr>) = dat eq" by (simp add: dat_def fun_eq_iff)
  ultimately show thesis using adj(2) by (intro that[of "?e\<lparr>pivot := a, last_non_zero_id := c\<rparr>"]) simp_all
qed


lemma equation_add_eq:
  assumes lib: "library_ok lib" and wf1: "wf_eq lo hi len eq1" and wf2: "wf_eq lo hi len eq2"
    and b1: "bounds_ok eq1" and b2: "bounds_ok eq2"
    and nz1: "\<not> equation_is_zero eq1" and nz2: "\<not> equation_is_zero eq2" and f: "eq_first eq1 \<le> pivot eq2"
  obtains (added) eq1' cs where "equation_add lib alloc eq1 eq2 = Some (0, eq1', eq2\<lparr>coefs := cs\<rparr>)"
      "wf_eq lo hi len eq1'" "bounds_ok eq1'" "\<And>i. cf eq1' i = cf eq1 i + cf eq2 i"
      "\<And>k. k < len \<Longrightarrow> dat eq1' k = dat eq1 k + dat eq2 k"
      "length cs = length (coefs eq2)" "cf (eq2\<lparr>coefs := cs\<rparr>) = cf eq2"
    | (failed) "equation_add lib alloc eq1 eq2 = Some (-1, eq1, eq2)" "\<not> fst alloc"
proof -
  define fi where "fi = min (pivot eq1) (pivot eq2)"
  define la where "la = max (last_non_zero_id eq1) (last_non_zero_id eq2)"
  define wd where "wd = la + 1 - fi"
  note bo1 = bounds_order[OF b1 nz1] and bo2 = bounds_order[OF b2 nz2]
  note hi1 = wf_hi[OF wf1] and hi2 = wf_hi[OF wf2]
  have fl: "fi \<le> pivot eq1" "fi \<le> pivot eq2" "eq_first eq1 \<le> fi" "fi \<le> la" "la < hi"
    "last_non_zero_id eq1 \<le> la" "last_non_zero_id eq2 \<le> la"
    using bo1 bo2 hi1 hi2 f by (auto simp: fi_def la_def)
  have w: "u32_sub (u32_add la 1) fi = wd" unfolding wd_def using fl hi1 by (simp add: wrap_simps)
  note fold = fi_def[symmetric] la_def[symmetric]
  have len: "max (eq_length eq1) (eq_length eq2) = len" using wf1 wf2 by (simp add: wf_eq_def)
  show thesis
  proof (cases "n_coefs eq1 < wd \<and> \<not> fst alloc")
    case True
    then have "equation_add lib alloc eq1 eq2 = Some (-1, eq1, eq2)"
      unfolding equation_add_def Let_def fold w using nz1 nz2 by simp
    with True failed show thesis by blast
  next
    case False
    obtain e where e: "(if n_coefs eq1 < wd then grow_coefs eq1 wd else Some eq1) = Some e"
      "wf_eq lo hi len e" "cf e = cf eq1" "constant_term e = constant_term eq1" "wd \<le> n_coefs e"
      "pivot e = pivot eq1" "last_non_zero_id e = last_non_zero_id eq1"
    proof (cases "n_coefs eq1 < wd")
      case True
      show thesis
      proof (rule grow_coefs_eq[OF wf1 b1 nz1 True])
        fix cs
        let ?e = "eq1\<lparr>coefs := cs, n_coefs := wd\<rparr>"
        assume "grow_coefs eq1 wd = Some ?e" "wf_eq lo hi len ?e" "cf ?e = cf eq1"
        with True show thesis by (intro that[of ?e]) simp_all
      qed
    next
      case False
      with wf1 show thesis by (intro that[of eq1]) simp_all
    qed
    have be: "bounds_ok e" "\<not> equation_is_zero e"
      using bounds_ok_cong[OF b1, of e] e nz1 by (simp_all add: equation_is_zero_def equation_get_min_symbol_id_def)
    obtain e' where e': "(if eq_first e \<le> fi \<and> repair_symbol_last_id (constant_term e) < la
        then shift_coefs e fi la else Some e) = Some e'" "wf_eq lo hi len e'" "cf e' = cf eq1" "dat e' = dat eq1"
      "eq_first e' \<le> pivot eq2" "last_non_zero_id eq2 < eq_first e' + eq_count e'"
    proof (cases "repair_symbol_last_id (constant_term e) < la")
      case True
      have sh: "eq_first e \<le> fi" "fi \<le> pivot e" "eq_first e + eq_count e \<le> la" "la < hi" "la + 1 - fi \<le> n_coefs e"
        using True fl e(4-6) bo1 unfolding wd_def e(4) wf_last[OF wf1] by simp_all
      show thesis
      proof (rule shift_coefs_eq[OF e(2) be sh])
        fix e'
        assume "shift_coefs e fi la = Some e'" "wf_eq lo hi len e'" "cf e' = cf e" "dat e' = dat e"
          "eq_first e' = fi" "eq_count e' = la + 1 - fi"
        moreover have "dat e = dat eq1" by (simp add: dat_def fun_eq_iff e(4))
        ultimately show thesis using True sh(1) e(3) fl by (intro that[of e']) simp_all
      qed
    next
      case False
      then have "last_non_zero_id eq2 < eq_first e + eq_count e"
        using bo1 fl unfolding e(4) wf_last[OF wf1] by linarith
      moreover have "dat e = dat eq1" by (simp add: dat_def fun_eq_iff e(4))
      ultimately show thesis using False e f by (intro that[of e]) simp_all
    qed
    have le: "eq_length e' = len" using e'(2) by (simp add: wf_eq_def)
    from add_base_eq[OF lib e'(2) wf2 b2 nz2 e'(5,6)] obtain eq1' cs where
      r: "full_symbol_add_base lib e' eq2 = Some (eq1', eq2\<lparr>coefs := cs\<rparr>)"
      "wf_eq lo hi len eq1'" "bounds_ok eq1'" "\<And>i. cf eq1' i = cf e' i + cf eq2 i"
      "\<And>k. k < len \<Longrightarrow> dat eq1' k = dat e' k + dat eq2 k"
      "length cs = length (coefs eq2)" "cf (eq2\<lparr>coefs := cs\<rparr>) = cf eq2" by blast
    have "equation_add lib alloc eq1 eq2 = Some (0, eq1', eq2\<lparr>coefs := cs\<rparr>)"
      unfolding equation_add_def Let_def fold w len if_not_P[OF False]
      using e(1) e'(1) le r(1) nz1 nz2 by simp
    with r e'(3,4) show thesis by (intro added) simp_all
  qed
qed

text \<open>
  An addition whose first equation starts after the pivot of the second one: the index of the first
  coefficient wraps around.
\<close>

lemma equation_add_fault:
  assumes wf1: "wf_eq lo hi len eq1" and b1: "bounds_ok eq1" and nz1: "\<not> equation_is_zero eq1"
    and wf2: "wf_eq lo hi len eq2" and b2: "bounds_ok eq2" and nz2: "\<not> equation_is_zero eq2"
    and f: "pivot eq2 < eq_first eq1" and size: "length (coefs eq1) < 2147483648"
  shows "equation_add lib (True, a) eq1 eq2 = None"
proof -
  define width where "width = u32_sub (u32_add (max (last_non_zero_id eq1) (last_non_zero_id eq2)) 1) (pivot eq2)"
  note bo1 = bounds_order[OF b1 nz1] and bo2 = bounds_order[OF b2 nz2] 
    and hi1 = wf_hi[OF wf1, simplified] and hi2 = wf_hi[OF wf2, simplified]
  have fi: "min (pivot eq1) (pivot eq2) = pivot eq2" using f bo1 by simp
  have lo: "lo \<le> eq_first eq1" "lo \<le> eq_first eq2" using wf1 wf2 by (auto simp: wf_eq_def)
  have "width = max (last_non_zero_id eq1) (last_non_zero_id eq2) + 1 - pivot eq2"
    using bo1 bo2 hi1 hi2 unfolding width_def by (simp add: wrap_simps)
  then have w: "width < 131072" using bo1 bo2 hi1 hi2 lo by linarith
  have add: "add_coefs lib e x (pivot eq2) l = None"
    if "length (coefs e) < 2147745792" "eq_first e = eq_first eq1" "eq_first x = eq_first eq2" for e x l
  proof -
    have "u32_sub (pivot eq2) (eq_first e) = 4294967296 + pivot eq2 - eq_first eq1"
      using f hi1 that(2) by (simp add: u32_sub_def)
    moreover have "eq_first eq1 < pivot eq2 + 131072" using bo2 hi1 lo by linarith
    ultimately have "u32_sub (pivot eq2) (eq_first e) > length (coefs e)" using that(1) by linarith
    moreover have "max (pivot eq2) (eq_first x) = pivot eq2" using bo2 that(3) by simp
    ultimately show ?thesis by (simp add: add_coefs_def Let_def)
  qed
  have base: "full_symbol_add_base lib e eq2 = None"
    if e: "length (coefs e) < 2147745792" "eq_first e = eq_first eq1" "pivot e = pivot eq1" for e
  proof -
    obtain cs where "equation_clear_unused_coefs eq2 = Some (eq2\<lparr>coefs := cs\<rparr>)"
      using clear_unused_eq[OF wf2 b2] by blast
    moreover have "pivot eq2 \<noteq> SYMBOL_ID_NONE"
      using nz2 by (simp add: equation_is_zero_def equation_get_min_symbol_id_def)
    ultimately show ?thesis using add[OF e(1,2), of "eq2"] add[OF e(1,2), of "eq2\<lparr>coefs := cs\<rparr>"]
      by (simp add: full_symbol_add_base_def Let_def)
  qed
  have len: "max (eq_length eq1) (eq_length eq2) = eq_length eq1" using wf1 wf2 by (simp add: wf_eq_def)
  show ?thesis
  proof (cases "n_coefs eq1 < width")
    case True
    obtain cs where g: "grow_coefs eq1 width = Some (eq1\<lparr>coefs := cs, n_coefs := width\<rparr>)"
      using grow_coefs_eq[OF wf1 b1 nz1 True] by blast
    then have "length cs = align (max (length (coefs eq1)) width)"
      by (auto simp: grow_coefs_def Let_def memcpy_at_def bind_eq_Some_conv split: if_splits dest!: arg_cong[of _ _ coefs])
    then have "length cs < 2147745792" using w size unfolding align_def ALIGNMENT_def by linarith
    then show ?thesis
      using base[of "eq1\<lparr>coefs := cs, n_coefs := width\<rparr>"] f True g nz1 nz2 len
      unfolding equation_add_def Let_def fi width_def[symmetric] by simp
  next
    case False
    then show ?thesis using base[of eq1] size f nz1 nz2 len
      unfolding equation_add_def Let_def fi width_def[symmetric] by simp
  qed
qed

section \<open>Properties\<close>

text \<open>An example of an equation with constant term of two bytes.\<close>

definition example_eq :: "nat \<Rightarrow> u8 list \<Rightarrow> u8 list \<Rightarrow> equation" where
  "example_eq i cs ds = \<lparr>pivot = i, last_non_zero_id = i + length cs - 1,
     constant_term = \<lparr>fss = [0, 0, 0, 0], first_id = i, n_protected_symbols = length cs, is_fb_fec = False, payload_length = 2,
       repair_payload = ds @ replicate 30 0\<rparr>, n_coefs = length cs, coefs = cs @ replicate (32 - length cs) 0\<rparr>"

lemma cf_example: "cf (example_eq i cs ds) j = (if i \<le> j \<and> j < i + length cs then to_gf (cs ! (j - i)) else 0)"
  by (auto simp: cf_def example_eq_def nth_append)

lemma dat_example: "length ds = 2 \<Longrightarrow> k < 2 \<Longrightarrow> dat (example_eq i cs ds) k = to_gf (ds ! k)"
  by (simp add: dat_def example_eq_def nth_append)

lemma example_eq_wf:
  "0 < length cs \<Longrightarrow> length cs \<le> 32 \<Longrightarrow> length ds = 2 \<Longrightarrow> lo \<le> i \<Longrightarrow> i + length cs \<le> hi \<Longrightarrow> window lo hi \<Longrightarrow>
   wf_eq lo hi 2 (example_eq i cs ds)"
  by (auto simp: wf_eq_def example_eq_def align_def ALIGNMENT_def)

lemma example_eq_bounds:
  "cs \<noteq> [] \<Longrightarrow> hd cs \<noteq> 0 \<Longrightarrow> last cs \<noteq> 0 \<Longrightarrow> i < 100 \<Longrightarrow>
   bounds_ok (example_eq i cs ds) \<and> \<not> equation_is_zero (example_eq i cs ds)"
proof -
  assume cs: "cs \<noteq> []" "hd cs \<noteq> 0" "last cs \<noteq> 0" "i < 100"
  let ?e = "example_eq i cs ds"
  have p: "pivot ?e = i" "last_non_zero_id ?e = i + (length cs - 1)" using cs(1) by (cases cs; simp add: example_eq_def)+
  have z: "\<not> equation_is_zero ?e"
    using cs(4) p(1) by (simp add: equation_is_zero_def equation_get_min_symbol_id_def SYMBOL_ID_NONE_def)
  have "cf ?e i \<noteq> 0" "cf ?e (i + (length cs - 1)) \<noteq> 0"
    using cs(1-3) by (auto simp: cf_example hd_conv_nth last_conv_nth)
  with z p show ?thesis by (auto simp: bounds_ok_def cf_example split: if_splits)
qed

text \<open>
  C14. Multiplying an equation by a byte multiplies all its coefficients and its constant term,
  and accesses only allocated memory, with and without the external library.
\<close>

theorem equation_multiply_correct:
  assumes "library_ok lib" "wf_eq lo hi len eq"
  shows "\<exists>eq'. equation_multiply lib eq c assign_mul = Some eq' \<and> wf_eq lo hi len eq' \<and>
    (\<forall>i. cf eq' i = to_gf c * cf eq i) \<and> (\<forall>k < len. dat eq' k = to_gf c * dat eq k)"
  using multiply_eq[OF assms, of c] by metis

theorem equation_multiply_correct_witness:
  "\<exists>eq'. equation_multiply (Some native_library) (example_eq 5 [3, 1] [7, 9]) 4 assign_mul = Some eq' \<and>
     cf eq' 6 = to_gf 4 * cf (example_eq 5 [3, 1] [7, 9]) 6"
  using equation_multiply_correct[OF native_library_ok example_eq_wf[of "[3, 1]" "[7, 9]" 0 5 100], of 4]
  by (auto simp: window_def)

text \<open>
  C9. Adding an equation to another of the same payload length, which is not zero: the coefficients
  and the constant terms are added when the range of the first equation does not start after the
  pivot of the second one; its coefficient buffer is replaced when it is too small, no memory
  outside of an allocation is accessed and the stored bounds are again those of the non-zero
  coefficients. When that allocation fails both equations are unchanged, and adding an equation
  without coefficients changes nothing. When the range of the first equation starts after the
  pivot of the second one the addition accesses memory outside of the coefficient buffer, unless
  that buffer has two gigabytes or more.
\<close>

theorem equation_add_correct:
  assumes "library_ok lib" "wf_eq lo hi len eq1" "wf_eq lo hi len eq2" "bounds_ok eq1" "bounds_ok eq2"
    "\<not> equation_is_zero eq1"
  shows "if equation_is_zero eq2 then equation_add lib alloc eq1 eq2 = Some (0, eq1, eq2)
    else if eq_first eq1 \<le> pivot eq2 then
      \<exists>err eq1' eq2'. equation_add lib alloc eq1 eq2 = Some (err, eq1', eq2') \<and>
      (if err = 0 then wf_eq lo hi len eq1' \<and> bounds_ok eq1' \<and> (\<forall>i. cf eq1' i = cf eq1 i + cf eq2 i) \<and>
         (\<forall>k < len. dat eq1' k = dat eq1 k + dat eq2 k) \<and> cf eq2' = cf eq2 \<and> dat eq2' = dat eq2
       else err = -1 \<and> eq1' = eq1 \<and> eq2' = eq2 \<and> \<not> fst alloc)
    else length (coefs eq1) < 2 ^ 31 \<longrightarrow> equation_add lib (True, snd alloc) eq1 eq2 = None"
proof -
  consider "equation_is_zero eq2" | "\<not> equation_is_zero eq2" "eq_first eq1 \<le> pivot eq2"
    | "\<not> equation_is_zero eq2" "pivot eq2 < eq_first eq1" by linarith
  then show ?thesis
  proof cases
    case 1
    then show ?thesis by (simp add: equation_add_def)
  next
    case 2
    have "\<exists>err eq1' eq2'. equation_add lib alloc eq1 eq2 = Some (err, eq1', eq2') \<and>
      (if err = 0 then wf_eq lo hi len eq1' \<and> bounds_ok eq1' \<and> (\<forall>i. cf eq1' i = cf eq1 i + cf eq2 i) \<and>
         (\<forall>k < len. dat eq1' k = dat eq1 k + dat eq2 k) \<and> cf eq2' = cf eq2 \<and> dat eq2' = dat eq2
       else err = -1 \<and> eq1' = eq1 \<and> eq2' = eq2 \<and> \<not> fst alloc)"
    proof (rule equation_add_eq[OF assms(1-6) 2, of alloc])
      fix eq1' cs
      assume "equation_add lib alloc eq1 eq2 = Some (0, eq1', eq2\<lparr>coefs := cs\<rparr>)" "wf_eq lo hi len eq1'" "bounds_ok eq1'"
        "\<And>i. cf eq1' i = cf eq1 i + cf eq2 i" "\<And>k. k < len \<Longrightarrow> dat eq1' k = dat eq1 k + dat eq2 k"
        "cf (eq2\<lparr>coefs := cs\<rparr>) = cf eq2"
      moreover have "dat (eq2\<lparr>coefs := cs\<rparr>) = dat eq2" by (simp add: dat_def fun_eq_iff)
      ultimately show ?thesis by (intro exI[of _ 0] exI[of _ eq1'] exI[of _ "eq2\<lparr>coefs := cs\<rparr>"]) simp
    qed simp
    with 2 show ?thesis by simp
  next
    case 3
    then show ?thesis using equation_add_fault[OF assms(2,4,6,3,5) 3(1,2)] by simp
  qed
qed

theorem equation_add_correct_witness:
  "(\<exists>err eq1' eq2'. equation_add None (True, True) (example_eq 5 [3, 1] [7, 9]) (example_eq 6 [2, 0, 4] [4, 8]) =
     Some (err, eq1', eq2') \<and> cf eq1' 8 = to_gf 4) \<and>
   equation_add None (True, True) (example_eq 6 [2, 0, 4] [4, 8]) (example_eq 5 [3, 1] [7, 9]) = None"
proof -
  let ?a = "example_eq 5 [3, 1] [7, 9]" and ?b = "example_eq 6 [2, 0, 4] [4, 8]"
  have wf: "wf_eq 0 100 2 ?a" "wf_eq 0 100 2 ?b" by (simp_all add: example_eq_wf window_def)
  have b: "bounds_ok ?a" "bounds_ok ?b" "\<not> equation_is_zero ?a" "\<not> equation_is_zero ?b"
    using example_eq_bounds[of "[3, 1]" 5 "[7, 9]"] example_eq_bounds[of "[2, 0, 4]" 6 "[4, 8]"] by auto
  have f: "eq_first ?a = 5" "pivot ?a = 5" "eq_first ?b = 6" "pivot ?b = 6" "length (coefs ?a) < 2 ^ 31" "length (coefs ?b) < 2 ^ 31"
    by (simp_all add: example_eq_def align_def ALIGNMENT_def)
  from equation_add_correct[OF library_ok_None wf b(1-3), of "(True, True)"]
    equation_add_correct[OF library_ok_None wf(2,1) b(2,1,4), of "(True, True)"] show ?thesis
    using b f by (auto simp: cf_example split: if_splits)
qed

end
