(* ===== verification/LinSystemCorrect.thy ===== *)
theory LinSystemCorrect
  imports LinSystem EquationCorrect
begin

text \<open>
  Correctness of \<open>LinSystem\<close>. A system is seen as its rows, the equations by their pivots, and as
  the set \<open>sol\<close> of the source symbols that satisfy all of them. The elimination ends, accesses
  only allocated memory, keeps the rows in echelon form and the solutions exactly those of the
  equations added so far; without failed allocations the rows are in reduced echelon form.
\<close>

section \<open>Solutions\<close>

text \<open>The tables are the generated ones; there is no library or one that satisfies its contract.\<close>

definition tables_ok :: "gf_tables \<Rightarrow> bool" where
  "tables_ok gf \<longleftrightarrow> library_ok (gf_lib gf) \<and> inv_table gf = assign_inv \<and> mul_table gf = assign_mul"

definition good :: "nat \<Rightarrow> nat \<Rightarrow> nat \<Rightarrow> equation \<Rightarrow> bool" where
  "good lo hi len e \<longleftrightarrow> wf_eq lo hi len e \<and> bounds_ok e \<and> \<not> equation_is_zero e"

text \<open>
  \<open>x i k\<close> is byte \<open>k\<close> of source symbol \<open>i\<close>. The symbols satisfy an equation when for every byte the
  combination with the coefficients is the constant term.
\<close>

definition holds :: "nat \<Rightarrow> nat \<Rightarrow> nat \<Rightarrow> (nat \<Rightarrow> nat \<Rightarrow> gf) \<Rightarrow> equation \<Rightarrow> bool" where
  "holds lo hi len x e \<longleftrightarrow> (\<forall>k < len. (\<Sum>i = lo..<hi. cf e i * x i k) = dat e k)"

lemma holds_scale:
  assumes "c \<noteq> 0" "\<And>i. cf e' i = c * cf e i" "\<And>k. k < len \<Longrightarrow> dat e' k = c * dat e k"
  shows "holds lo hi len x e' \<longleftrightarrow> holds lo hi len x e"
  using assms by (simp add: holds_def mult.assoc flip: sum_distrib_left)

lemma holds_add:
  assumes "\<And>i. cf e' i = cf e i + cf d i" "\<And>k. k < len \<Longrightarrow> dat e' k = dat e k + dat d k" "holds lo hi len x d"
  shows "holds lo hi len x e' \<longleftrightarrow> holds lo hi len x e"
  using assms by (simp add: holds_def distrib_right sum.distrib)

lemma inv_coef_eq: "tables_ok gf \<Longrightarrow> to_gf (inv_coef gf (of_gf a)) = inverse a"
  by (simp add: tables_ok_def inv_coef_def inverse_gf.abs_eq[symmetric] of_gf_inverse)

lemma mul_coef_eq: "tables_ok gf \<Longrightarrow> to_gf (gf256_mul a b (mul_table gf)) = to_gf a * to_gf b"
  by (simp add: tables_ok_def gf256_mul_table to_gf_mul)

lemma good_wf: "good lo hi len e \<Longrightarrow> wf_eq lo hi len e"
  by (simp add: good_def)

lemma good_pivot:
  assumes "good lo hi len e"
  shows "cf e (pivot e) \<noteq> 0" "cf e (last_non_zero_id e) \<noteq> 0" "lo \<le> pivot e" "pivot e \<le> last_non_zero_id e"
    "last_non_zero_id e < hi" "cf e i \<noteq> 0 \<Longrightarrow> pivot e \<le> i \<and> i \<le> last_non_zero_id e"
  using assms bounds_ok_nonzero[of e] bounds_order[of e] by (auto simp: good_def wf_eq_def)

lemma good_get_coef: "good lo hi len e \<Longrightarrow> equation_get_coef e i = Some (of_gf (cf e i))"
  using equation_get_coef_eq by (auto simp: good_def)

lemma of_gf_0_iff [simp]: "of_gf a = 0 \<longleftrightarrow> a = 0"
  by (metis of_gf_inverse to_gf_0_iff)

text \<open>The bounds are determined by the coefficients.\<close>

lemma bounds_unique:
  assumes "good lo hi len e" "good lo hi len e'" "\<And>i. cf e' i = 0 \<longleftrightarrow> cf e i = 0"
  shows "pivot e' = pivot e" "last_non_zero_id e' = last_non_zero_id e"
  using good_pivot(1,2)[OF assms(1)] good_pivot(1,2)[OF assms(2)] good_pivot(6)[OF assms(1)] good_pivot(6)[OF assms(2)]
    assms(3) by (meson le_antisym)+

lemma nonzero_iff: "bounds_ok e \<Longrightarrow> equation_is_zero e \<longleftrightarrow> (\<forall>i. cf e i = 0)"
  by (metis bounds_ok_def)

lemma multiply_good:
  assumes "tables_ok gf" "good lo hi len e" "to_gf c \<noteq> 0"
  obtains e' where "equation_multiply (gf_lib gf) e c (mul_table gf) = Some e'" "good lo hi len e'"
    "pivot e' = pivot e" "last_non_zero_id e' = last_non_zero_id e" "\<And>i. cf e' i = to_gf c * cf e i"
    "\<And>k. k < len \<Longrightarrow> dat e' k = to_gf c * dat e k"
proof -
  from assms have "library_ok (gf_lib gf)" "mul_table gf = assign_mul" "wf_eq lo hi len e" by (auto simp: tables_ok_def good_def)
  from multiply_eq[OF this(1,3), of c] this(2) obtain e' where
    e: "equation_multiply (gf_lib gf) e c (mul_table gf) = Some e'" "wf_eq lo hi len e'"
    "\<And>i. cf e' i = to_gf c * cf e i" "\<And>k. k < len \<Longrightarrow> dat e' k = to_gf c * dat e k"
    "pivot e' = pivot e" "last_non_zero_id e' = last_non_zero_id e" by metis
  moreover have "good lo hi len e'"
    using assms(2,3) e bounds_ok_cong[of e e'] by (simp add: good_def equation_is_zero_def equation_get_min_symbol_id_def)
  ultimately show thesis by (intro that)
qed

section \<open>The rows of a system\<close>

text \<open>The row of an identifier is the equation whose pivot it is.\<close>

definition row :: "system \<Rightarrow> nat \<Rightarrow> equation option" where
  "row sys p = (if first_id_id sys \<le> p \<and> p < first_id_id sys + max_equations sys
     then equations sys ! (p - first_id_id sys) else None)"

definition count_some :: "'a option list \<Rightarrow> nat" where
  "count_some xs = length (filter (\<lambda>e. e \<noteq> None) xs)"

lemma count_some_take:
  assumes "i < length xs"
  shows "count_some (take (Suc i) xs) = count_some (take i xs) + (if xs ! i = None then 0 else 1)"
  using assms by (simp add: count_some_def take_Suc_conv_app_nth)

lemma count_some_full:
  assumes "count_some xs \<le> count_some (take i xs)" "i \<le> j" "j < length xs"
  shows "xs ! j = None"
proof -
  have "count_some xs = count_some (take i xs) + count_some (drop i xs)"
    unfolding count_some_def by (metis append_take_drop_id filter_append length_append)
  with assms(1) have "filter (\<lambda>e. e \<noteq> None) (drop i xs) = []" by (simp add: count_some_def)
  then have "\<forall>x \<in> set (drop i xs). x = None" by (simp add: filter_empty_conv)
  moreover have "xs ! j \<in> set (drop i xs)"
    using assms(2,3) nth_mem[of "j - i" "drop i xs"] by simp
  ultimately show ?thesis by blast
qed

text \<open>
  The shape of a system with identifiers from \<open>lo\<close> to \<open>hi\<close>: the array is large enough for all of
  them, and an array that starts at any of them ends before the largest identifier.
\<close>

definition sys_shape :: "nat \<Rightarrow> nat \<Rightarrow> system \<Rightarrow> bool" where
  "sys_shape lo hi sys \<longleftrightarrow>
     window lo hi \<and> hi - lo \<le> max_equations sys \<and> hi + max_equations sys < 2 ^ 32 \<and>
     length (equations sys) = max_equations sys \<and> n_equations sys = int (count_some (equations sys)) \<and>
     (if first_id_id sys = SYMBOL_ID_NONE
      then last_symbol_id sys = SYMBOL_ID_NONE \<and> equations sys = replicate (max_equations sys) None
      else lo \<le> first_id_id sys \<and> first_id_id sys \<le> last_symbol_id sys \<and> last_symbol_id sys < hi)"

definition rows_ok :: "nat \<Rightarrow> nat \<Rightarrow> nat \<Rightarrow> nat \<Rightarrow> system \<Rightarrow> bool" where
  "rows_ok lo hi len l sys \<longleftrightarrow>
     (\<forall>p e. row sys p = Some e \<longrightarrow> good lo hi len e \<and> pivot e = p \<and> last_non_zero_id e \<le> l)"

definition sys_ok :: "nat \<Rightarrow> nat \<Rightarrow> nat \<Rightarrow> system \<Rightarrow> bool" where
  "sys_ok lo hi len sys \<longleftrightarrow> sys_shape lo hi sys \<and> rows_ok lo hi len (last_symbol_id sys) sys"

lemmas sys_ok_defs = sys_ok_def sys_shape_def rows_ok_def

definition sol :: "nat \<Rightarrow> nat \<Rightarrow> nat \<Rightarrow> system \<Rightarrow> (nat \<Rightarrow> nat \<Rightarrow> gf) \<Rightarrow> bool" where
  "sol lo hi len sys x \<longleftrightarrow> (\<forall>p e. row sys p = Some e \<longrightarrow> holds lo hi len x e)"

lemma sys_row: "sys_ok lo hi len sys \<Longrightarrow> row sys p = Some e \<Longrightarrow>
    good lo hi len e \<and> pivot e = p \<and> last_non_zero_id e \<le> last_symbol_id sys"
  by (simp add: sys_ok_defs)

lemma row_range: "sys_ok lo hi len sys \<Longrightarrow> row sys p = Some e \<Longrightarrow> lo \<le> p \<and> p < hi"
  using sys_row good_pivot(3-5) by (metis le_less_trans)

lemma sys_first: "sys_ok lo hi len sys \<Longrightarrow>
    first_id_id sys = SYMBOL_ID_NONE \<or> lo \<le> first_id_id sys \<and> first_id_id sys < hi"
  by (auto simp: sys_ok_defs split: if_splits)

lemma row_first: "sys_ok lo hi len sys \<Longrightarrow> row sys p = Some e \<Longrightarrow>
    first_id_id sys \<noteq> SYMBOL_ID_NONE \<and> first_id_id sys \<le> p \<and> p < first_id_id sys + max_equations sys"
  by (auto simp: sys_ok_defs row_def split: if_splits)

lemma get_pivot_eq:
  assumes "sys_ok lo hi len sys"
  shows "system_get_pivot_for_id sys i = Some (row sys i)"
proof (cases "first_id_id sys = SYMBOL_ID_NONE")
  case True
  with assms have "\<not> in_system sys i"
    by (auto simp: in_system_def u32_add_def sys_ok_defs SYMBOL_ID_NONE_def)
  moreover from True assms have "row sys i = None" by (auto simp: row_def sys_ok_defs)
  ultimately show ?thesis by (simp add: system_get_pivot_for_id_def)
next
  case False
  with assms sys_first[OF assms] have f: "first_id_id sys < hi" "hi + max_equations sys < 2 ^ 32" "hi - lo \<le> max_equations sys"
     "length (equations sys) = max_equations sys" "lo \<le> first_id_id sys"
    by (auto simp: sys_ok_defs)
  then have u: "u32_add (max_equations sys) (first_id_id sys) = first_id_id sys + max_equations sys" by (simp add: wrap_simps)
  show ?thesis
  proof (cases "first_id_id sys \<le> i \<and> i < first_id_id sys + max_equations sys")
    case True
    with f have "u32_sub i (first_id_id sys) = i - first_id_id sys" by (simp add: wrap_simps)
    with True f u show ?thesis by (auto simp: system_get_pivot_for_id_def in_system_def row_def)
  qed (use u in \<open>auto simp: system_get_pivot_for_id_def in_system_def row_def\<close>)
qed

section \<open>Reduction\<close>

text \<open>An addition may clear unused coefficients of the equation it adds.\<close>

definition same_eq :: "equation \<Rightarrow> equation \<Rightarrow> bool" where
  "same_eq e e' \<longleftrightarrow> (\<exists>cs. e' = e\<lparr>coefs := cs\<rparr> \<and> length cs = length (coefs e) \<and> cf e' = cf e)"

lemma same_eq_refl [simp]: "same_eq e e"
  by (auto simp: same_eq_def intro: exI[of _ "coefs e"])

lemma same_eq_trans: "same_eq e e' \<Longrightarrow> same_eq e' e'' \<Longrightarrow> same_eq e e''"
  by (auto simp: same_eq_def)

lemma same_eq_facts:
  assumes "same_eq e e'"
  shows "cf e' = cf e" "dat e' = dat e" "pivot e' = pivot e" "last_non_zero_id e' = last_non_zero_id e"
    "wf_eq lo hi len e' \<longleftrightarrow> wf_eq lo hi len e"
  using assms by (auto simp: same_eq_def dat_def fun_eq_iff wf_eq_def)

lemma same_eq_simps:
  assumes "same_eq e e'"
  shows "good lo hi len e' \<longleftrightarrow> good lo hi len e" "holds lo hi len x e' \<longleftrightarrow> holds lo hi len x e"
    "equation_has_one_id e' \<longleftrightarrow> equation_has_one_id e"
  using same_eq_facts[OF assms] by (simp_all add: good_def bounds_ok_def holds_def equation_has_one_id_def
      equation_is_zero_def equation_get_min_symbol_id_def equation_get_max_symbol_id_def)

lemma add_good:
  assumes "tables_ok gf" "good lo hi len e1" "good lo hi len e2" "cf e1 (pivot e2) \<noteq> 0"
  obtains (added) e1' e2' where "equation_add (gf_lib gf) alloc e1 e2 = Some (0, e1', e2')"
      "wf_eq lo hi len e1'" "bounds_ok e1'" "\<And>i. cf e1' i = cf e1 i + cf e2 i"
      "\<And>k. k < len \<Longrightarrow> dat e1' k = dat e1 k + dat e2 k" "same_eq e2 e2'"
    | (failed) "equation_add (gf_lib gf) alloc e1 e2 = Some (-1, e1, e2)" "\<not> fst alloc"
proof -
  have lib: "library_ok (gf_lib gf)" using assms(1) by (simp add: tables_ok_def)
  have f: "eq_first e1 \<le> pivot e2" using cf_range[OF assms(4)] by simp
  show thesis
  proof (rule equation_add_eq[OF lib good_wf[OF assms(2)] good_wf[OF assms(3)], of alloc])
    fix e1' cs
    assume "equation_add (gf_lib gf) alloc e1 e2 = Some (0, e1', e2\<lparr>coefs := cs\<rparr>)" "wf_eq lo hi len e1'"
      "bounds_ok e1'" "\<And>i. cf e1' i = cf e1 i + cf e2 i" "\<And>k. k < len \<Longrightarrow> dat e1' k = dat e1 k + dat e2 k"
      "length cs = length (coefs e2)" "cf (e2\<lparr>coefs := cs\<rparr>) = cf e2"
    then show thesis by (intro added) (auto simp: same_eq_def)
  qed (use assms(2,3) f failed in \<open>simp_all add: good_def\<close>)
qed

definition same_sys :: "system \<Rightarrow> system \<Rightarrow> bool" where
  "same_sys sys sys' \<longleftrightarrow> (\<exists>es. sys' = sys\<lparr>equations := es\<rparr> \<and> list_all2 (rel_option same_eq) (equations sys) es)"

lemma rel_same_refl [simp]: "rel_option same_eq e e"
  by (cases e) simp_all

lemma same_sys_refl [simp]: "same_sys sys sys"
  by (auto simp: same_sys_def list_all2_same intro: exI[of _ "equations sys"])

lemma rel_same_trans: "rel_option same_eq x y \<Longrightarrow> rel_option same_eq y z \<Longrightarrow> rel_option same_eq x z"
  by (cases x; cases y; cases z) (auto intro: same_eq_trans)

lemma same_sys_trans:
  assumes "same_sys a b" "same_sys b c"
  shows "same_sys a c"
proof -
  from assms(1) obtain es where b: "b = a\<lparr>equations := es\<rparr>" "list_all2 (rel_option same_eq) (equations a) es"
    unfolding same_sys_def by blast
  from assms(2) obtain es' where c: "c = b\<lparr>equations := es'\<rparr>" "list_all2 (rel_option same_eq) (equations b) es'"
    unfolding same_sys_def by blast
  from b c have "list_all2 (rel_option same_eq) (equations a) es'"
    using list_all2_trans[of _ _ _ "equations a" es es', OF rel_same_trans] by simp
  with b(1) c(1) show ?thesis unfolding same_sys_def by (intro exI[of _ es']) simp
qed

lemma same_sys_fields:
  assumes "same_sys sys sys'"
  shows "first_id_id sys' = first_id_id sys" "max_equations sys' = max_equations sys"
    "n_equations sys' = n_equations sys" "last_symbol_id sys' = last_symbol_id sys"
    "length (equations sys') = length (equations sys)"
    "count_some (equations sys') = count_some (equations sys)"
proof -
  have "count_some ys = count_some xs"
    if "list_all2 (rel_option same_eq) xs ys" for xs ys using that
    by (induction rule: list_all2_induct) (auto simp: option.rel_sel count_some_def)
  with assms show "count_some (equations sys') = count_some (equations sys)"
    by (auto simp: same_sys_def)
qed (use assms in \<open>auto simp: same_sys_def list_all2_lengthD\<close>)

lemma same_sys_row:
  assumes "same_sys sys sys'" "length (equations sys) = max_equations sys"
  shows "rel_option same_eq (row sys p) (row sys' p)"
  using assms by (auto simp: same_sys_def row_def list_all2_conv_all_nth)

lemma same_sys_Some:
  assumes "same_sys sys sys'" "length (equations sys) = max_equations sys" "row sys' p = Some e'"
  obtains e where "row sys p = Some e" "same_eq e e'"
  using same_sys_row[OF assms(1,2), of p] assms(3) by (auto simp: option_rel_Some2)

lemma same_sys_Some':
  assumes "same_sys sys sys'" "length (equations sys) = max_equations sys" "row sys p = Some e"
  obtains e' where "row sys' p = Some e'" "same_eq e e'"
  using same_sys_row[OF assms(1,2), of p] assms(3) by (auto simp: option_rel_Some1)

lemma same_sys_ok:
  assumes "same_sys sys sys'" "sys_ok lo hi len sys"
  shows "sys_ok lo hi len sys'"
proof -
  have l: "length (equations sys) = max_equations sys" using assms(2) by (simp add: sys_ok_defs)
  have "good lo hi len e' \<and> pivot e' = p \<and> last_non_zero_id e' \<le> last_symbol_id sys" if r: "row sys' p = Some e'" for p e'
  proof -
    obtain e where "row sys p = Some e" "same_eq e e'" by (rule same_sys_Some[OF assms(1) l r])
    with sys_row[OF assms(2) this(1)] show ?thesis by (simp add: same_eq_facts same_eq_simps)
  qed
  moreover have "equations sys' = equations sys" if "equations sys = replicate n None" for n
    using that assms(1) by (auto simp: same_sys_def list_all2_conv_all_nth intro!: nth_equalityI)
  ultimately show ?thesis using assms(2) same_sys_fields[OF assms(1)] by (simp add: sys_ok_defs)
qed

lemma same_sys_sol:
  assumes "same_sys sys sys'" "length (equations sys) = max_equations sys"
  shows "sol lo hi len sys' x \<longleftrightarrow> sol lo hi len sys x"
proof -
  have "(\<forall>e'. row sys' p = Some e' \<longrightarrow> holds lo hi len x e') \<longleftrightarrow> (\<forall>e. row sys p = Some e \<longrightarrow> holds lo hi len x e)" for p
    using same_sys_row[OF assms, of p]
    by (cases "row sys p"; cases "row sys' p") (simp_all add: same_eq_simps)
  then show ?thesis by (simp add: sol_def)
qed

lemma row_None:
  assumes "same_sys sys sys'" "length (equations sys) = max_equations sys"
  shows "row sys' p = None \<longleftrightarrow> row sys p = None"
  using same_sys_row[OF assms, of p] by (cases "row sys p"; cases "row sys' p") auto

lemma same_sys_update:
  assumes "sys_ok lo hi len sys" "row sys i = Some e" "same_eq e e'"
  shows "same_sys sys (sys\<lparr>equations := (equations sys)[u32_sub i (first_id_id sys) := Some e']\<rparr>)"
proof -
  let ?i = "i - first_id_id sys"
  from row_first[OF assms(1,2)] row_range[OF assms(1,2)] assms(1)
  have u: "u32_sub i (first_id_id sys) = ?i" by (simp add: wrap_simps sys_ok_defs)
  have "equations sys ! ?i = Some e" using assms(2) row_first[OF assms(1,2)] by (simp add: row_def)
  then have "rel_option same_eq (equations sys ! j) ((equations sys)[?i := Some e'] ! j)"
    if "j < length (equations sys)" for j using assms(3) that by (cases "j = ?i") simp_all
  then have "list_all2 (rel_option same_eq) (equations sys) ((equations sys)[?i := Some e'])"
    by (simp add: list_all2_conv_all_nth)
  then show ?thesis unfolding u same_sys_def by blast
qed

text \<open>One step of the reduction: the coefficient at \<open>i\<close> disappears, those before \<open>i\<close> are scaled.\<close>

lemma reduce_step:
  assumes gf: "tables_ok gf" and e: "good lo hi len e" and d: "good lo hi len d" and i: "cf e (pivot d) \<noteq> 0"
  defines "c \<equiv> gf256_mul (of_gf (cf d (pivot d))) (inv_coef gf (of_gf (cf e (pivot d)))) (mul_table gf)"
  obtains (added) e1 e' d' where "equation_multiply (gf_lib gf) e c (mul_table gf) = Some e1"
      "equation_add (gf_lib gf) alloc e1 d = Some (0, e', d')" "wf_eq lo hi len e'" "bounds_ok e'" "same_eq d d'"
      "cf e' (pivot d) = 0" "\<And>p. p < pivot d \<Longrightarrow> cf e' p = 0 \<longleftrightarrow> cf e p = 0"
      "\<And>x. holds lo hi len x d \<Longrightarrow> holds lo hi len x e' \<longleftrightarrow> holds lo hi len x e"
    | (failed) e1 where "equation_multiply (gf_lib gf) e c (mul_table gf) = Some e1"
      "equation_add (gf_lib gf) alloc e1 d = Some (-1, e1, d)" "good lo hi len e1" "\<not> fst alloc"
      "\<And>x. holds lo hi len x e1 \<longleftrightarrow> holds lo hi len x e"
proof -
  have dp: "cf d (pivot d) \<noteq> 0" by (rule good_pivot(1)[OF d])
  have c: "to_gf c = cf d (pivot d) * inverse (cf e (pivot d))"
    by (simp add: c_def mul_coef_eq[OF gf] inv_coef_eq[OF gf] of_gf_inverse)
  then have c0: "to_gf c \<noteq> 0" using dp i by simp
  obtain e1 where e1: "equation_multiply (gf_lib gf) e c (mul_table gf) = Some e1" "good lo hi len e1"
    "\<And>i. cf e1 i = to_gf c * cf e i" "\<And>k. k < len \<Longrightarrow> dat e1 k = to_gf c * dat e k"
    by (rule multiply_good[OF gf e c0]) blast
  have h1: "holds lo hi len x e1 \<longleftrightarrow> holds lo hi len x e" for x by (rule holds_scale[OF c0 e1(3,4)])
  have i1: "cf e1 (pivot d) \<noteq> 0" using c0 i e1(3) by simp
  show thesis
  proof (rule add_good[OF gf e1(2) d i1, of alloc])
    fix e' d'
    assume a: "equation_add (gf_lib gf) alloc e1 d = Some (0, e', d')" "wf_eq lo hi len e'" "bounds_ok e'"
      "\<And>i. cf e' i = cf e1 i + cf d i" "\<And>k. k < len \<Longrightarrow> dat e' k = dat e1 k + dat d k" "same_eq d d'"
    have "cf e' (pivot d) = 0" using i by (simp add: a(4) e1(3) c mult.assoc)
    moreover have "cf e' p = 0 \<longleftrightarrow> cf e p = 0" if p: "p < pivot d" for p
    proof -
      have "cf d p = 0" using good_pivot(6)[OF d, of p] p by force
      then show ?thesis using c0 by (simp add: a(4) e1(3))
    qed
    moreover have "holds lo hi len x e' \<longleftrightarrow> holds lo hi len x e" if "holds lo hi len x d" for x
      using holds_add[OF a(4,5) that] h1 by simp
    ultimately show thesis using e1(1) a by (intro added[of e1 e' d'])
  next
    assume "equation_add (gf_lib gf) alloc e1 d = Some (- 1, e1, d)" "\<not> fst alloc"
    with e1(1,2) h1 show thesis by (intro failed[of e1])
  qed
qed

text \<open>
  The loop ends, and with no failed allocation the equation has no coefficient at the pivot of
  a row any more. Either way it is equivalent to the one before for all solutions of the system.
\<close>

definition reduces :: "nat \<Rightarrow> nat \<Rightarrow> nat \<Rightarrow> (nat \<Rightarrow> bool \<times> bool) \<Rightarrow> system \<Rightarrow> equation \<Rightarrow> int \<times> system \<times> equation \<Rightarrow> bool" where
  "reduces lo hi len alloc sys e r \<longleftrightarrow> (case r of (err, sys', e') \<Rightarrow>
     same_sys sys sys' \<and> wf_eq lo hi len e' \<and> bounds_ok e' \<and>
     (\<forall>x. sol lo hi len sys x \<longrightarrow> (holds lo hi len x e' \<longleftrightarrow> holds lo hi len x e)) \<and>
     (err = 0 \<longrightarrow> (\<forall>p. row sys p \<noteq> None \<longrightarrow> cf e' p = 0)) \<and>
     (err = 0 \<or> (\<exists>n. \<not> fst (alloc n))))"

lemma reduces_step:
  assumes "same_sys sys s" "length (equations sys) = max_equations sys" "reduces lo hi len alloc s e' r"
    "\<And>x. sol lo hi len sys x \<Longrightarrow> holds lo hi len x e' \<longleftrightarrow> holds lo hi len x e"
  shows "reduces lo hi len alloc sys e r"
proof -
  obtain err sys' e'' where r: "r = (err, sys', e'')" by (cases r)
  have "same_sys sys sys'" using assms(1,3) same_sys_trans by (auto simp: reduces_def r)
  moreover have "holds lo hi len x e'' \<longleftrightarrow> holds lo hi len x e" if "sol lo hi len sys x" for x
    using assms(3,4) that same_sys_sol[OF assms(1,2)] by (auto simp: reduces_def r)
  ultimately show ?thesis using assms(3) row_None[OF assms(1,2)] by (simp add: reduces_def r)
qed

lemma reduce_loop_eq:
  assumes gf: "tables_ok gf"
  shows "sys_ok lo hi len sys \<Longrightarrow> wf_eq lo hi len e \<Longrightarrow> bounds_ok e \<Longrightarrow> n = hi - i \<Longrightarrow>
    (\<And>p. p < i \<Longrightarrow> row sys p \<noteq> None \<Longrightarrow> cf e p = 0) \<Longrightarrow>
    \<exists>r. reduce_loop gf alloc sys e i = Some r \<and> reduces lo hi len alloc sys e r"
proof (induction n arbitrary: i sys e rule: less_induct)
  case (less n)
  note sys = less.prems(1) and wf = less.prems(2) and b = less.prems(3)
  have l: "length (equations sys) = max_equations sys" using sys by (simp add: sys_ok_defs)
  show ?case
  proof (cases "i \<le> last_non_zero_id e \<and> \<not> equation_is_zero e")
    case False
    have z: "cf e p = 0" if "row sys p \<noteq> None" for p
    proof (cases "equation_is_zero e")
      case True
      with b show ?thesis by (simp add: nonzero_iff)
    next
      case nz: False
      with False less.prems(5)[OF _ that] bounds_ok_nonzero(4)[OF b nz, of p] show ?thesis by force
    qed
    from False have "reduce_loop gf alloc sys e i = Some (0, sys, e)" by (subst reduce_loop.simps) auto
    moreover have "reduces lo hi len alloc sys e (0, sys, e)" using z wf b by (simp add: reduces_def)
    ultimately show ?thesis by blast
  next
    case True
    then have good: "good lo hi len e" using wf b by (simp add: good_def)
    from True good_pivot(5)[OF good] have i: "i < hi" by linarith
    then have i1: "u32_add i (Suc 0) = Suc i" using wf_hi[OF wf] by (simp add: wrap_simps)
    note unfold = reduce_loop.simps[of gf alloc sys e i] good_get_coef[OF good] get_pivot_eq[OF sys] i1
    show ?thesis
    proof (cases "cf e i = 0 \<or> row sys i = None")
      case skip: True
      have "reduce_loop gf alloc sys e i = reduce_loop gf alloc sys e (Suc i)"
        using True skip by (subst unfold) (auto simp: unfold(2-))
      moreover have "cf e p = 0" if "p < Suc i" "row sys p \<noteq> None" for p
        using less.prems(5)[of p] that skip by (cases "p = i") auto
      ultimately show ?thesis using less.IH[OF _ sys wf b refl, of "Suc i"] less.prems(4) i by simp
    next
      case False
      then obtain d where d: "row sys i = Some d" "cf e i \<noteq> 0" by auto
      with sys_row[OF sys] have gd: "good lo hi len d" "pivot d = i" by auto
      have hd: "holds lo hi len x d" if "sol lo hi len sys x" for x using that d(1) by (simp add: sol_def)
      note gd_coef = good_get_coef[OF gd(1)]
      show ?thesis
      proof (rule reduce_step[OF gf good gd(1), of "alloc i", unfolded gd(2)])
        fix e1 e' d'
        assume a: "equation_multiply (gf_lib gf) e
            (gf256_mul (of_gf (cf d i)) (inv_coef gf (of_gf (cf e i))) (mul_table gf)) (mul_table gf) = Some e1"
          "equation_add (gf_lib gf) (alloc i) e1 d = Some (0, e', d')" "wf_eq lo hi len e'" "bounds_ok e'" "same_eq d d'"
          "cf e' i = 0" "\<And>p. p < i \<Longrightarrow> cf e' p = 0 \<longleftrightarrow> cf e p = 0"
          "\<And>x. holds lo hi len x d \<Longrightarrow> holds lo hi len x e' \<longleftrightarrow> holds lo hi len x e"
        let ?s = "sys\<lparr>equations := (equations sys)[u32_sub i (first_id_id sys) := Some d']\<rparr>"
        have s: "same_sys sys ?s" by (rule same_sys_update[OF sys d(1) a(5)])
        have "reduce_loop gf alloc sys e i = reduce_loop gf alloc ?s e' (Suc i)"
          using True d gd(2) a(1,2) by (subst unfold) (simp add: unfold(2-) gd_coef)
        moreover have "cf e' p = 0" if "p < Suc i" "row ?s p \<noteq> None" for p
          using less.prems(5)[of p] that a(6,7) row_None[OF s l, of p] by (cases "p = i") auto
        then obtain r where "reduce_loop gf alloc ?s e' (Suc i) = Some r" "reduces lo hi len alloc ?s e' r"
          using less.IH[OF _ same_sys_ok[OF s sys] a(3,4) refl, of "Suc i"] less.prems(4) i diff_less_mono2[OF lessI i] by blast
        ultimately show ?thesis using reduces_step[OF s l] a(8) hd by auto
      next
        fix e1
        assume a: "equation_multiply (gf_lib gf) e
            (gf256_mul (of_gf (cf d i)) (inv_coef gf (of_gf (cf e i))) (mul_table gf)) (mul_table gf) = Some e1"
          "equation_add (gf_lib gf) (alloc i) e1 d = Some (- 1, e1, d)" "good lo hi len e1" "\<not> fst (alloc i)"
          "\<And>x. holds lo hi len x e1 \<longleftrightarrow> holds lo hi len x e"
        let ?s = "sys\<lparr>equations := (equations sys)[u32_sub i (first_id_id sys) := Some d]\<rparr>"
        have "reduce_loop gf alloc sys e i = Some (- 1, ?s, e1)"
          using True d gd(2) a(1,2) by (subst unfold) (simp add: unfold(2-) gd_coef)
        moreover have "reduces lo hi len alloc sys e (- 1, ?s, e1)"
          using same_sys_update[OF sys d(1) same_eq_refl] a(3,4,5) by (auto simp: reduces_def good_def)
        ultimately show ?thesis by blast
      qed (use d(2) in blast)
    qed
  qed
qed

lemma reduce_equation_eq:
  assumes gf: "tables_ok gf" and sys: "sys_ok lo hi len sys" and wf: "wf_eq lo hi len e"
  shows "\<exists>r. reduce_equation gf alloc sys e = Some r \<and> reduces lo hi len alloc sys e r"
proof -
  obtain b p l where adj: "equation_adjust_non_zero_bounds e = Some (b, e\<lparr>pivot := p, last_non_zero_id := l\<rparr>)"
    "bounds_ok (e\<lparr>pivot := p, last_non_zero_id := l\<rparr>)" by (rule adjust_eq[OF wf])
  define e1 where "e1 = e\<lparr>pivot := p, last_non_zero_id := l\<rparr>"
  have e1: "wf_eq lo hi len e1" "bounds_ok e1" "pivot e1 = p" "\<And>x. holds lo hi len x e1 = holds lo hi len x e"
    using wf adj(2) by (simp_all add: e1_def holds_def)
  have "\<exists>r. reduce_equation gf alloc sys e = Some r \<and> reduces lo hi len alloc sys e1 r"
  proof (cases "p = SYMBOL_ID_NONE")
    case True
    then have "reduces lo hi len alloc sys e1 (0, sys, e1)"
      using e1(1-3) nonzero_iff[OF e1(2)]
      by (simp add: reduces_def equation_is_zero_def equation_get_min_symbol_id_def)
    with adj(1) True show ?thesis by (simp add: reduce_equation_def e1_def)
  next
    case False
    then have "\<not> equation_is_zero e1" using e1(3) by (simp add: equation_is_zero_def equation_get_min_symbol_id_def)
    from bounds_ok_nonzero(3)[OF e1(2) this] e1(3) have "cf e1 q = 0" if "q < p" for q using that by force
    with reduce_loop_eq[OF gf sys e1(1,2) refl, of p alloc] adj(1) False show ?thesis
      by (simp add: reduce_equation_def e1_def)
  qed
  then show ?thesis using e1(4) by (auto simp: reduces_def split: prod.splits)
qed

section \<open>Elimination\<close>

definition scaled :: "nat \<Rightarrow> equation \<Rightarrow> equation \<Rightarrow> bool" where
  "scaled len e e' \<longleftrightarrow> (\<exists>c. c \<noteq> 0 \<and> (\<forall>i. cf e' i = c * cf e i) \<and> (\<forall>k < len. dat e' k = c * dat e k))"

lemma scaled_refl [simp]: "scaled len e e"
  by (auto simp: scaled_def intro: exI[of _ 1])

lemma scaled_trans: "scaled len a b \<Longrightarrow> scaled len b c \<Longrightarrow> scaled len a c"
  unfolding scaled_def by (metis mult.assoc mult_eq_0_iff)

lemma scaled_facts:
  assumes "scaled len e e'"
  shows "cf e' i = 0 \<longleftrightarrow> cf e i = 0" "holds lo hi len x e' \<longleftrightarrow> holds lo hi len x e"
  using assms holds_scale[of _ e' e] by (auto simp: scaled_def)

lemma same_scaled: "same_eq e e' \<Longrightarrow> scaled len e e'"
  by (auto simp: scaled_def same_eq_facts intro: exI[of _ 1])

text \<open>What becomes of a row \<open>e\<close> when the pivot of \<open>eq\<close> is eliminated from it.\<close>

definition eliminated :: "nat \<Rightarrow> nat \<Rightarrow> nat \<Rightarrow> bool \<Rightarrow> equation \<Rightarrow> equation \<Rightarrow> equation \<Rightarrow> bool" where
  "eliminated lo hi len ok eq e e' \<longleftrightarrow> good lo hi len e' \<and> pivot e' = pivot e \<and>
     last_non_zero_id e' \<le> max (last_non_zero_id e) (last_non_zero_id eq) \<and>
     (\<forall>x. holds lo hi len x eq \<longrightarrow> (holds lo hi len x e' \<longleftrightarrow> holds lo hi len x e)) \<and>
     (\<forall>q. cf eq q = 0 \<longrightarrow> (cf e' q = 0 \<longleftrightarrow> cf e q = 0)) \<and>
     (ok \<longrightarrow> cf e' (pivot eq) = 0)"

lemma eliminated_scaled:
  assumes "eliminated lo hi len ok eq e e'" "scaled len eq0 eq" "good lo hi len eq0" "good lo hi len eq"
  shows "eliminated lo hi len ok eq0 e e'"
  using assms(1) scaled_facts[OF assms(2)] bounds_unique[OF assms(3,4) scaled_facts(1)[OF assms(2)]]
  by (simp add: eliminated_def)

lemma normalise:
  assumes gf: "tables_ok gf" and e: "good lo hi len e" "cf e i \<noteq> 0"
  obtains e' where "equation_multiply (gf_lib gf) e (inv_coef gf (of_gf (cf e i))) (mul_table gf) = Some e'"
    "good lo hi len e'" "scaled len e e'" "pivot e' = pivot e" "last_non_zero_id e' = last_non_zero_id e" "cf e' i = 1"
proof -
  have "to_gf (inv_coef gf (of_gf (cf e i))) \<noteq> 0" using e(2) unfolding inv_coef_eq[OF gf] by simp
  then show thesis
  proof (rule multiply_good[OF gf e(1)])
    fix e'
    assume a: "equation_multiply (gf_lib gf) e (inv_coef gf (of_gf (cf e i))) (mul_table gf) = Some e'" "good lo hi len e'"
      "pivot e' = pivot e" "last_non_zero_id e' = last_non_zero_id e"
      "\<And>j. cf e' j = to_gf (inv_coef gf (of_gf (cf e i))) * cf e j"
      "\<And>k. k < len \<Longrightarrow> dat e' k = to_gf (inv_coef gf (of_gf (cf e i))) * dat e k"
    show thesis
    proof (rule that[OF a(1,2) _ a(3,4)])
      show "scaled len e e'" "cf e' i = 1"
        using a(5,6) e(2) unfolding inv_coef_eq[OF gf] scaled_def by (auto intro: exI[of _ "inverse (cf e i)"])
    qed
  qed
qed

lemma one_id_cong: "pivot e' = pivot e \<Longrightarrow> last_non_zero_id e' = last_non_zero_id e \<Longrightarrow>
    equation_has_one_id e' \<longleftrightarrow> equation_has_one_id e"
  by (simp add: equation_has_one_id_def equation_is_zero_def equation_get_min_symbol_id_def equation_get_max_symbol_id_def)

text \<open>The row after the addition of the scaled equation.\<close>

lemma added_eliminated:
  assumes e: "good lo hi len e" and eq: "good lo hi len eq" and z: "cf eq (pivot e) = 0" and f: "cf e (pivot eq) \<noteq> 0"
    and c: "c = inverse (cf eq (pivot eq)) * cf e (pivot eq)"
    and e': "wf_eq lo hi len e'" "bounds_ok e'" "\<And>i. cf e' i = cf e i + c * cf eq i"
      "\<And>k. k < len \<Longrightarrow> dat e' k = dat e k + c * dat eq k"
  shows "eliminated lo hi len True eq e e'"
proof -
  have ne: "pivot e < pivot eq"
    using good_pivot(6)[OF e f] good_pivot(1)[OF eq] z by (metis le_neq_implies_less)
  have p: "cf e' (pivot e) \<noteq> 0" using good_pivot(1)[OF e] z by (simp add: e'(3))
  then have g: "good lo hi len e'" using e'(1,2) nonzero_iff[OF e'(2)] by (auto simp: good_def)
  have "cf e' i = 0" if "i < pivot e" for i
    using good_pivot(6)[OF e, of i] good_pivot(6)[OF eq, of i] that ne by (force simp: e'(3))
  with good_pivot(1)[OF g] good_pivot(6)[OF g p] have "pivot e' = pivot e"
    by (meson le_neq_implies_less)
  moreover have "last_non_zero_id e' \<le> max (last_non_zero_id e) (last_non_zero_id eq)"
  proof -
    have "cf e (last_non_zero_id e') \<noteq> 0 \<or> cf eq (last_non_zero_id e') \<noteq> 0"
      using good_pivot(2)[OF g] by (auto simp: e'(3))
    with good_pivot(6)[OF e] good_pivot(6)[OF eq] show ?thesis by (auto simp: le_max_iff_disj)
  qed
  moreover have "holds lo hi len x e' \<longleftrightarrow> holds lo hi len x e" if "holds lo hi len x eq" for x
  proof -
    have "(\<Sum>i = lo..<hi. cf e' i * x i k) = (\<Sum>i = lo..<hi. cf e i * x i k) + c * (\<Sum>i = lo..<hi. cf eq i * x i k)" for k
      by (simp add: e'(3) distrib_right sum.distrib sum_distrib_left mult.assoc)
    with that show ?thesis by (simp add: holds_def e'(4))
  qed
  moreover have "cf e' (pivot eq) = 0"
    using good_pivot(1)[OF eq] by (simp add: e'(3) c mult.commute[of "inverse _"] mult.assoc)
  ultimately show ?thesis using g by (simp add: eliminated_def e'(3))
qed

text \<open>The elimination from one row. An equation that gets a single coefficient is normalised.\<close>

definition elim_result ::
  "nat \<Rightarrow> nat \<Rightarrow> nat \<Rightarrow> bool \<Rightarrow> equation \<Rightarrow> equation \<Rightarrow> bool \<times> equation \<times> equation \<Rightarrow> bool" where
  "elim_result lo hi len ok eq e r \<longleftrightarrow> (case r of (d, e', eq') \<Rightarrow>
     eliminated lo hi len ok eq e e' \<and> good lo hi len eq' \<and> scaled len eq eq' \<and>
     (d \<longleftrightarrow> \<not> equation_has_one_id e \<and> equation_has_one_id e'))"

lemma eliminated_same:
  "good lo hi len e \<Longrightarrow> (ok \<longrightarrow> cf e (pivot eq) = 0) \<Longrightarrow> eliminated lo hi len ok eq e e"
  by (simp add: eliminated_def)

lemma eliminated_normal:
  assumes "eliminated lo hi len ok eq e e1" "good lo hi len e2" "scaled len e1 e2" "pivot e2 = pivot e1"
    "last_non_zero_id e2 = last_non_zero_id e1"
  shows "eliminated lo hi len ok eq e e2"
  using assms scaled_facts[OF assms(3)] by (simp add: eliminated_def)

lemma eliminate_at_eq:
  assumes gf: "tables_ok gf" and e: "good lo hi len e" and eq: "good lo hi len eq" and z: "cf eq (pivot e) = 0"
  shows "\<exists>r. eliminate_at gf alloc (pivot eq) e eq = Some r \<and> elim_result lo hi len (fst alloc) eq e r"
proof (cases "cf e (pivot eq) = 0")
  case True
  with good_get_coef[OF e] have "eliminate_at gf alloc (pivot eq) e eq = Some (False, e, eq)"
    by (simp add: eliminate_at_def)
  with True e eq show ?thesis by (simp add: elim_result_def eliminated_same)
next
  case False
  let ?c = "gf256_mul (inv_coef gf (of_gf (cf eq (pivot eq)))) (of_gf (cf e (pivot eq))) (mul_table gf)"
  have c: "to_gf ?c = inverse (cf eq (pivot eq)) * cf e (pivot eq)"
    by (simp add: mul_coef_eq[OF gf] inv_coef_eq[OF gf] of_gf_inverse)
  with False good_pivot(1)[OF eq] have c0: "to_gf ?c \<noteq> 0" by simp
  obtain eq1 where eq1: "equation_multiply (gf_lib gf) eq ?c (mul_table gf) = Some eq1" "good lo hi len eq1"
    "pivot eq1 = pivot eq" "\<And>i. cf eq1 i = to_gf ?c * cf eq i" "\<And>k. k < len \<Longrightarrow> dat eq1 k = to_gf ?c * dat eq k"
    by (rule multiply_good[OF gf eq c0]) blast
  have sc: "scaled len eq eq1" unfolding scaled_def using c0 eq1(4,5) by blast
  have f1: "cf e (pivot eq1) \<noteq> 0" using False eq1(3) by simp
  note unfold = eliminate_at_def good_get_coef[OF e] good_get_coef[OF eq] eq1(1)
  show ?thesis
  proof (rule add_good[OF gf e eq1(2) f1, of alloc])
    assume "equation_add (gf_lib gf) alloc e eq1 = Some (- 1, e, eq1)" "\<not> fst alloc"
    moreover from this False have "eliminate_at gf alloc (pivot eq) e eq = Some (False, e, eq1)" by (simp add: unfold)
    ultimately show ?thesis using e eq1(2) sc by (simp add: elim_result_def eliminated_same)
  next
    fix e1 eq2
    assume a: "equation_add (gf_lib gf) alloc e eq1 = Some (0, e1, eq2)" "wf_eq lo hi len e1" "bounds_ok e1"
      "\<And>i. cf e1 i = cf e i + cf eq1 i" "\<And>k. k < len \<Longrightarrow> dat e1 k = dat e k + dat eq1 k" "same_eq eq1 eq2"
    have el: "eliminated lo hi len True eq e e1"
      by (rule added_eliminated[OF e eq z False c a(2,3)]) (simp_all add: a(4,5) eq1(4,5))
    then have el': "eliminated lo hi len (fst alloc) eq e e1" and g1: "good lo hi len e1" by (simp_all add: eliminated_def)
    have eq2: "good lo hi len eq2" "scaled len eq eq2"
      using same_eq_simps(1)[OF a(6)] eq1(2) scaled_trans[OF sc same_scaled[OF a(6)]] by auto
    show ?thesis
    proof (cases "\<not> equation_has_one_id e \<and> equation_has_one_id e1")
      case False
      then have "eliminate_at gf alloc (pivot eq) e eq = Some (False, e1, eq2)"
        using \<open>cf e (pivot eq) \<noteq> 0\<close> a(1) by (auto simp: unfold)
      with False el' eq2 show ?thesis by (auto simp: elim_result_def)
    next
      case True
      have p1: "cf e1 (pivot e1) \<noteq> 0" by (rule good_pivot(1)[OF g1])
      obtain e2 where e2: "(if of_gf (cf e1 (pivot e1)) \<noteq> 1
            then equation_multiply (gf_lib gf) e1 (inv_coef gf (of_gf (cf e1 (pivot e1)))) (mul_table gf) else Some e1) = Some e2"
          "good lo hi len e2" "scaled len e1 e2" "pivot e2 = pivot e1" "last_non_zero_id e2 = last_non_zero_id e1"
      proof (cases "of_gf (cf e1 (pivot e1)) = 1")
        case True
        then show thesis using g1 by (intro that[of e1]) simp_all
      next
        case False
        then show thesis by (rule_tac normalise[OF gf g1 p1]) (simp add: that)
      qed
      have "eliminate_at gf alloc (pivot eq) e eq = Some (True, e2, eq2)"
        using \<open>cf e (pivot eq) \<noteq> 0\<close> a(1) True e2(1)
        by (simp add: unfold equation_get_min_symbol_id_def good_get_coef[OF g1])
      moreover have "elim_result lo hi len (fst alloc) eq e (True, e2, eq2)"
        using True eliminated_normal[OF el' e2(2-5)] eq2 one_id_cong[OF e2(4,5)] by (simp add: elim_result_def)
      ultimately show ?thesis by blast
    qed
  qed
qed

definition newly :: "equation option \<Rightarrow> equation option \<Rightarrow> bool" where
  "newly a b \<longleftrightarrow> (case (a, b) of
     (Some e, Some e') \<Rightarrow> \<not> equation_has_one_id e \<and> equation_has_one_id e'
   | (None, Some e') \<Rightarrow> equation_has_one_id e'
   | _ \<Rightarrow> False)"

definition loop_result ::
  "nat \<Rightarrow> nat \<Rightarrow> nat \<Rightarrow> (nat \<Rightarrow> bool \<times> bool) \<Rightarrow> equation \<Rightarrow> nat \<Rightarrow> equation option list \<Rightarrow> bool \<Rightarrow>
   equation option list \<times> equation \<times> bool \<Rightarrow> bool" where
  "loop_result lo hi len alloc eq i es d r \<longleftrightarrow> (case r of (es', eq', d') \<Rightarrow>
     length es' = length es \<and> good lo hi len eq' \<and> scaled len eq eq' \<and> (\<forall>j < i. es' ! j = es ! j) \<and>
     (\<forall>j. i \<le> j \<and> j < length es \<longrightarrow>
       rel_option (eliminated lo hi len (fst (alloc j)) eq) (es ! j) (es' ! j)) \<and>
     (d' \<longleftrightarrow> d \<or> (\<exists>j. i \<le> j \<and> j < length es \<and> newly (es ! j) (es' ! j))))"

lemma ex_from_Suc:
  "i < n \<Longrightarrow> (\<exists>j. i \<le> j \<and> j < n \<and> P j) \<longleftrightarrow> P i \<or> (\<exists>j. Suc i \<le> j \<and> j < n \<and> P j)" for i n :: nat
  by (metis Suc_leD Suc_leI le_neq_implies_less order_refl)

lemma loop_result_done:
  assumes "good lo hi len eq" "\<And>j. i \<le> j \<Longrightarrow> j < length es \<Longrightarrow> es ! j = None"
  shows "loop_result lo hi len alloc eq i es d (es, eq, d)"
  using assms by (auto simp: loop_result_def newly_def)

lemma loop_result_skip:
  assumes "loop_result lo hi len alloc eq (Suc i) es d r" "i < length es" "es ! i = None"
  shows "loop_result lo hi len alloc eq i es d r"
proof -
  obtain es' eq' d' where r: "r = (es', eq', d')" by (cases r)
  have i: "es' ! i = None" using assms by (simp add: loop_result_def r)
  have "rel_option (eliminated lo hi len (fst (alloc j)) eq) (es ! j) (es' ! j)" if "i \<le> j" "j < length es" for j
    using assms i that by (cases "j = i") (simp_all add: loop_result_def r)
  moreover have "(\<exists>j. i \<le> j \<and> j < length es \<and> newly (es ! j) (es' ! j)) \<longleftrightarrow>
      (\<exists>j. Suc i \<le> j \<and> j < length es \<and> newly (es ! j) (es' ! j))"
    using assms(3) i unfolding ex_from_Suc[OF assms(2)] by (simp add: newly_def)
  ultimately show ?thesis using assms(1) by (simp add: loop_result_def r)
qed

lemma loop_result_step:
  assumes r: "loop_result lo hi len alloc eq1 (Suc i) (es[i := Some e1]) (d \<or> d1) r"
    and i: "i < length es" "es ! i = Some e" and eq: "good lo hi len eq"
    and e1: "elim_result lo hi len (fst (alloc i)) eq e (d1, e1, eq1)"
  shows "loop_result lo hi len alloc eq i es d r"
proof -
  obtain es' eq' d' where r': "r = (es', eq', d')" by (cases r)
  have i': "es' ! i = Some e1" using r i by (simp add: loop_result_def r')
  have sc: "scaled len eq eq1" "good lo hi len eq1" using e1 by (simp_all add: elim_result_def)
  have "rel_option (eliminated lo hi len (fst (alloc j)) eq) (es ! j) (es' ! j)" if "i \<le> j" "j < length es" for j
  proof (cases "j = i")
    case True
    with e1 i i' show ?thesis by (simp add: elim_result_def)
  next
    case False
    with r that have "rel_option (eliminated lo hi len (fst (alloc j)) eq1) (es ! j) (es' ! j)"
      by (simp add: loop_result_def r')
    then show ?thesis by (rule option.rel_mono_strong) (rule eliminated_scaled[OF _ sc(1) eq sc(2)])
  qed
  moreover have "d' \<longleftrightarrow> d \<or> (\<exists>j. i \<le> j \<and> j < length es \<and> newly (es ! j) (es' ! j))"
  proof -
    have "d1 \<longleftrightarrow> newly (es ! i) (es' ! i)" using e1 i i' by (simp add: elim_result_def newly_def)
    moreover have "d' \<longleftrightarrow> (d \<or> d1) \<or> (\<exists>j. Suc i \<le> j \<and> j < length es \<and> newly (es ! j) (es' ! j))"
      using r by (auto simp: loop_result_def r')
    moreover have "(\<exists>j. i \<le> j \<and> j < length es \<and> newly (es ! j) (es' ! j)) \<longleftrightarrow>
        newly (es ! i) (es' ! i) \<or> (\<exists>j. Suc i \<le> j \<and> j < length es \<and> newly (es ! j) (es' ! j))"
      by (rule ex_from_Suc[OF i(1)])
    ultimately show ?thesis by blast
  qed
  moreover have "\<forall>j < i. es' ! j = es ! j" using r by (simp add: loop_result_def r')
  moreover have "scaled len eq eq'" "good lo hi len eq'" "length es' = length es"
    using r scaled_trans[OF sc(1)] by (simp_all add: loop_result_def r')
  ultimately show ?thesis by (simp add: loop_result_def r')
qed

lemma pivot_loop_eq:
  assumes gf: "tables_ok gf" and max: "length es = max_equations sys" and n_eq: "n_equations sys = int (count_some es)"
    and i: "i \<le> length es" and eq: "good lo hi len eq"
    and rows: "\<And>j e. j < length es \<Longrightarrow> es ! j = Some e \<Longrightarrow> good lo hi len e \<and> cf eq (pivot e) = 0"
    and n: "n = int (count_some (take i es))"
  shows "\<exists>es' eq' d'. pivot_loop gf alloc (pivot eq) i n (sys\<lparr>equations := es\<rparr>) eq d = Some (sys\<lparr>equations := es'\<rparr>, eq', d') \<and>
    loop_result lo hi len alloc eq i es d (es', eq', d')"
  using assms(2-)
proof (induction "length es - i" arbitrary: i n es eq d)
  case (0 i es n eq)
  then have "pivot_loop gf alloc (pivot eq) i n (sys\<lparr>equations := es\<rparr>) eq d = Some (sys\<lparr>equations := es\<rparr>, eq, d)"
    by (subst pivot_loop.simps) simp
  moreover have "loop_result lo hi len alloc eq i es d (es, eq, d)" using 0 by (intro loop_result_done) simp_all
  ultimately show ?case by blast
next
  case (Suc m i es n eq)
  note max = Suc.prems(1) and n_eq = Suc.prems(2) and eq = Suc.prems(4) and rows = Suc.prems(5) and n = Suc.prems(6)
  have i: "i < length es" using Suc.hyps(2) by simp
  show ?case
  proof (cases "n < n_equations sys")
    case False
    then have "pivot_loop gf alloc (pivot eq) i n (sys\<lparr>equations := es\<rparr>) eq d = Some (sys\<lparr>equations := es\<rparr>, eq, d)"
      by (subst pivot_loop.simps) simp
    moreover have "loop_result lo hi len alloc eq i es d (es, eq, d)"
      using eq count_some_full[of es i] False n n_eq by (intro loop_result_done) simp_all
    ultimately show ?thesis by blast
  next
    case n_lt: True
    note unfold = pivot_loop.simps[of gf alloc "pivot eq" i n "sys\<lparr>equations := es\<rparr>" eq d]
    show ?thesis
    proof (cases "es ! i")
      case None
      have "pivot_loop gf alloc (pivot eq) i n (sys\<lparr>equations := es\<rparr>) eq d =
          pivot_loop gf alloc (pivot eq) (Suc i) n (sys\<lparr>equations := es\<rparr>) eq d"
        using n_lt i max None by (subst unfold) simp
      moreover have "m = length es - Suc i" "Suc i \<le> length es" "n = int (count_some (take (Suc i) es))"
        using Suc.hyps(2) i n None by (simp_all add: count_some_take)
      from Suc.hyps(1)[OF this(1) max n_eq this(2) eq _ this(3), of d] rows
      obtain es' eq' d' where "pivot_loop gf alloc (pivot eq) (Suc i) n (sys\<lparr>equations := es\<rparr>) eq d =
          Some (sys\<lparr>equations := es'\<rparr>, eq', d')" "loop_result lo hi len alloc eq (Suc i) es d (es', eq', d')" by blast
      ultimately show ?thesis using loop_result_skip[OF _ i None] by auto
    next
      case (Some e)
      with rows i have e: "good lo hi len e" "cf eq (pivot e) = 0" by auto
      obtain d1 e1 eq1 where el: "eliminate_at gf (alloc i) (pivot eq) e eq = Some (d1, e1, eq1)"
        "elim_result lo hi len (fst (alloc i)) eq e (d1, e1, eq1)"
        using eliminate_at_eq[OF gf e(1) eq e(2), of "alloc i"] by auto
      let ?es = "es[i := Some e1]"
      have eq1: "good lo hi len eq1" "scaled len eq eq1" and e1: "good lo hi len e1" "pivot e1 = pivot e"
        using el(2) by (simp_all add: elim_result_def eliminated_def)
      have p: "pivot eq1 = pivot eq" using bounds_unique(1)[OF eq eq1(1) scaled_facts(1)[OF eq1(2)]] .
      have "pivot_loop gf alloc (pivot eq) i n (sys\<lparr>equations := es\<rparr>) eq d =
          pivot_loop gf alloc (pivot eq1) (Suc i) (n + 1) (sys\<lparr>equations := ?es\<rparr>) eq1 (d \<or> d1)"
        using n_lt i max Some el(1) by (subst unfold) (simp add: p)
      moreover
      have cnt: "count_some ?es = count_some es"
      proof -
        have "es = take i es @ Some e # drop (Suc i) es" using id_take_nth_drop[OF i] Some by simp
        moreover have "?es = take i es @ Some e1 # drop (Suc i) es" by (rule upd_conv_take_nth_drop[OF i])
        moreover have "count_some (take i es @ Some a # drop (Suc i) es) =
            count_some (take i es) + Suc (count_some (drop (Suc i) es))" for a by (simp add: count_some_def)
        ultimately show ?thesis by metis
      qed
      moreover have "m = length ?es - Suc i" "Suc i \<le> length ?es" "n + 1 = int (count_some (take (Suc i) ?es))"
        "length ?es = max_equations sys" "n_equations sys = int (count_some ?es)"
        using Suc.hyps(2) i n Some max n_eq cnt by (simp_all add: count_some_take)
      moreover have "good lo hi len e' \<and> cf eq1 (pivot e') = 0" if "j < length ?es" "?es ! j = Some e'" for j e'
        using that rows[of j e'] e e1 scaled_facts(1)[OF eq1(2)] by (cases "j = i") auto
      ultimately obtain es' eq' d' where "pivot_loop gf alloc (pivot eq) i n (sys\<lparr>equations := es\<rparr>) eq d =
          Some (sys\<lparr>equations := es'\<rparr>, eq', d')" "loop_result lo hi len alloc eq1 (Suc i) ?es (d \<or> d1) (es', eq', d')"
        using Suc.hyps(1)[of ?es "Suc i" eq1 "n + 1" "d \<or> d1"] eq1(1) by fastforce
      with loop_result_step[OF this(2) i Some eq el(2)] show ?thesis by blast
    qed
  qed
qed

end
