(* ===== verification/LinSystemAdd.thy ===== *)
theory LinSystemAdd
  imports LinSystemCorrect
begin

text \<open>
  Adding an equation to a system: \<open>system_add\<close> updates the rows at one identifier,
  \<open>system_add_as_pivot\<close> also eliminates the new pivot from the other rows, and
  \<open>system_add_with_elimination\<close> adds the new equation to the solved system. \<open>elim_ok\<close> collects what
  holds of the last one for every outcome of the allocations.
\<close>

section \<open>Adding a row\<close>

lemma count_some_update:
  "i < length xs \<Longrightarrow> xs ! i = None \<Longrightarrow> count_some (xs[i := Some v]) = Suc (count_some xs)"
proof -
  assume i: "i < length xs" "xs ! i = None"
  have "count_some xs = count_some (take i xs @ None # drop (Suc i) xs)"
    using id_take_nth_drop[OF i(1)] i(2) by simp
  then show ?thesis unfolding upd_conv_take_nth_drop[OF i(1)] by (simp add: count_some_def)
qed

lemma count_some_split: "count_some xs = count_some (take i xs) + count_some (drop i xs)"
  unfolding count_some_def by (metis append_take_drop_id filter_append length_append)

lemma count_some_0: "(\<And>j. j < length xs \<Longrightarrow> xs ! j = None) \<Longrightarrow> count_some xs = 0"
  by (simp add: count_some_def filter_empty_conv) (metis in_set_conv_nth)

lemma shape_facts:
  assumes "sys_shape lo hi sys" "first_id_id sys \<noteq> SYMBOL_ID_NONE"
  shows "lo \<le> first_id_id sys" "first_id_id sys \<le> last_symbol_id sys" "last_symbol_id sys < hi"
    "hi - lo \<le> max_equations sys" "hi + max_equations sys < 2 ^ 32" "length (equations sys) = max_equations sys"
    "n_equations sys = int (count_some (equations sys))" "window lo hi" "last_symbol_id sys \<noteq> SYMBOL_ID_NONE"
  using assms by (auto simp: sys_shape_def SYMBOL_ID_NONE_def)

lemma good_not_none: "good lo hi len e \<Longrightarrow> pivot e \<noteq> SYMBOL_ID_NONE"
  by (simp add: good_def equation_is_zero_def equation_get_min_symbol_id_def)

definition row_added :: "nat \<Rightarrow> nat \<Rightarrow> nat \<Rightarrow> system \<Rightarrow> equation \<Rightarrow> nat \<times> equation option \<times> system \<Rightarrow> bool" where
  "row_added lo hi len sys eq r \<longleftrightarrow> (case r of (idx, removed, sys') \<Rightarrow>
     removed = None \<and> sys_ok lo hi len sys' \<and> row sys' = (row sys)(pivot eq \<mapsto> eq) \<and>
     idx < max_equations sys' \<and> rd (equations sys') idx = Some (Some eq) \<and> max_equations sys' = max_equations sys \<and>
     n_equations sys' = n_equations sys + 1)"

lemma row_addedI:
  assumes sys: "sys_shape lo hi sys" "rows_ok lo hi len (max (last_symbol_id sys) (last_non_zero_id eq)) sys"
    and eq: "good lo hi len eq" and first: "first_id_id sys \<noteq> SYMBOL_ID_NONE"
    and f: "lo \<le> f" "f \<le> pivot eq" and es: "length es = max_equations sys" "idx < length es" "es ! idx = Some eq"
    and n: "n = n_equations sys + 1" "count_some es = Suc (count_some (equations sys))"
    and rows: "row (sys\<lparr>equations := es, n_equations := n, first_id_id := f\<rparr>) = (row sys)(pivot eq \<mapsto> eq)"
  shows "row_added lo hi len sys eq (idx, None, extend_last (sys\<lparr>equations := es, n_equations := n, first_id_id := f\<rparr>) eq)"
proof -
  note sf = shape_facts[OF sys(1) first]
  let ?s = "sys\<lparr>equations := es, n_equations := n, first_id_id := f\<rparr>"
  let ?l = "max (last_non_zero_id eq) (last_symbol_id sys)"
  have last: "extend_last ?s eq = ?s\<lparr>last_symbol_id := ?l\<rparr>" using sf by (simp add: extend_last_def)
  have "row (?s\<lparr>last_symbol_id := ?l\<rparr>) = row ?s" by (rule ext) (simp add: row_def)
  with rows have r: "row (?s\<lparr>last_symbol_id := ?l\<rparr>) = (row sys)(pivot eq \<mapsto> eq)" by simp
  have "rows_ok lo hi len ?l (?s\<lparr>last_symbol_id := ?l\<rparr>)"
    using sys(2) eq unfolding rows_ok_def r by (auto simp: max.commute)
  moreover have "f < hi" using f(2) good_pivot(4,5)[OF eq] by linarith
  moreover have "f \<noteq> SYMBOL_ID_NONE" using \<open>f < hi\<close> sf by (auto simp: SYMBOL_ID_NONE_def)
  ultimately have "sys_ok lo hi len (?s\<lparr>last_symbol_id := ?l\<rparr>)"
    using sf f n es good_pivot(4,5)[OF eq] by (simp add: sys_ok_def sys_shape_def le_max_iff_disj)
  then show ?thesis unfolding row_added_def last using r es n by simp
qed

lemma system_add_eq:
  assumes sys: "sys_shape lo hi sys" "rows_ok lo hi len (max (last_symbol_id sys) (last_non_zero_id eq)) sys"
    and eq: "good lo hi len eq" and new: "row sys (pivot eq) = None" and first: "first_id_id sys \<noteq> SYMBOL_ID_NONE"
  shows "\<exists>r. system_add sys eq = Some r \<and> row_added lo hi len sys eq r"
proof -
  note sf = shape_facts[OF sys(1) first] and gp = good_pivot[OF eq]
  let ?f = "first_id_id sys" and ?m = "max_equations sys" and ?es = "equations sys"
  have nz: "\<not> equation_is_zero eq" using eq by (simp add: good_def)
  have range: "p < hi" if "row sys p = Some e" for p e
  proof -
    from sys(2) that have "good lo hi len e" "pivot e = p" by (simp_all add: rows_ok_def)
    with good_pivot(4,5)[OF this(1)] show ?thesis by simp
  qed
  show ?thesis
  proof (cases "pivot eq < ?f")
    case False
    define i where "i = pivot eq - ?f"
    have i: "i < ?m" "pivot eq = ?f + i" using False gp(4,5) sf(1-4) unfolding i_def by linarith+
    have none: "?es ! i = None" using new i by (simp add: row_def)
    have "row (sys\<lparr>equations := ?es[i := Some eq], n_equations := n_equations sys + 1, first_id_id := ?f\<rparr>) =
        (row sys)(pivot eq \<mapsto> eq)"
      using i sf(6) by (auto simp: row_def fun_eq_iff nth_list_update)
    with row_addedI[OF sys eq first _ _ _ _ _ refl _ this, of i] i sf none
    have "row_added lo hi len sys eq (i, None, extend_last
        (sys\<lparr>equations := ?es[i := Some eq], n_equations := n_equations sys + 1, first_id_id := ?f\<rparr>) eq)"
      by (simp add: count_some_update)
    moreover have "system_add sys eq = Some (i, None, extend_last
        (sys\<lparr>equations := ?es[i := Some eq], n_equations := n_equations sys + 1, first_id_id := ?f\<rparr>) eq)"
      using nz first False i sf(6) none by (simp add: system_add_def i_def[symmetric])
    ultimately show ?thesis by blast
  next
    case True
    define shift where "shift = ?f - pivot eq"
    have sh: "0 < shift" "shift \<le> ?m" "pivot eq = ?f - shift" "shift \<le> ?f"
      using True gp(3) sf(1-4) unfolding shift_def by linarith+
    define es where "es = replicate shift None @ take (?m - shift) ?es"
    have len: "length es = ?m" using sh sf(6) by (simp add: es_def)
    have tail: "?es ! j = None" if "?m - shift \<le> j" "j < ?m" for j
    proof (rule ccontr)
      assume "?es ! j \<noteq> None"
      then have "row sys (?f + j) \<noteq> None" using that by (simp add: row_def)
      with range have "?f + j < hi" by blast
      with that sh sf gp show False by linarith
    qed
    have drop0: "count_some (drop (?m - shift) ?es) = 0" using tail sf(6) by (intro count_some_0) simp
    have up: "u32_sub (u32_add (last_symbol_id sys) 1) ?f = last_symbol_id sys + 1 - ?f" "last_symbol_id sys + 1 - ?f \<le> ?m"
      using sf by (simp_all add: wrap_simps)
    have "count_some (take n (drop (?m - shift) ?es)) \<le> count_some (drop (?m - shift) ?es)" for n
      using count_some_split[of "drop (?m - shift) ?es" n] by simp
    then have "count_equations ?es (?m - shift) (u32_sub (u32_add (last_symbol_id sys) 1) ?f) = Some 0"
      unfolding up count_equations_def count_some_def[symmetric] using up(2) sf(6) drop0 by simp
    then have "system_add sys eq = Some (0, None, extend_last
        (sys\<lparr>equations := es[0 := Some eq], n_equations := n_equations sys + 1, first_id_id := pivot eq\<rparr>) eq)"
      using nz first True sh len by (simp add: system_add_def shift_def[symmetric] es_def[symmetric] Let_def)
    moreover have cnt: "count_some es = count_some ?es"
      using count_some_split[of ?es "?m - shift"] drop0 by (simp add: es_def count_some_def)
    have "es ! 0 = None" using sh by (simp add: es_def nth_append)
    with cnt len sh have cnt': "count_some (es[0 := Some eq]) = Suc (count_some ?es)" by (simp add: count_some_update)
    have "row (sys\<lparr>equations := es[0 := Some eq], n_equations := n_equations sys + 1, first_id_id := pivot eq\<rparr>) p =
        ((row sys)(pivot eq \<mapsto> eq)) p" for p
    proof (cases "p < pivot eq + ?m")
      case p: True
      then show ?thesis using sh len sf(6) by (auto simp: row_def es_def nth_append)
    next
      case False
      moreover have "row sys p = None" using range[of p] False gp(3) sf by fastforce
      ultimately show ?thesis using sh by (auto simp: row_def)
    qed
    then have "row (sys\<lparr>equations := es[0 := Some eq], n_equations := n_equations sys + 1, first_id_id := pivot eq\<rparr>) =
        (row sys)(pivot eq \<mapsto> eq)" by (rule ext)
    with row_addedI[OF sys eq first gp(3) order_refl _ _ _ refl cnt' this, of 0] sh len
    have "row_added lo hi len sys eq (0, None, extend_last
        (sys\<lparr>equations := es[0 := Some eq], n_equations := n_equations sys + 1, first_id_id := pivot eq\<rparr>) eq)"
      by simp
    ultimately show ?thesis by blast
  qed
qed

lemma system_add_first:
  assumes sys: "sys_shape lo hi sys" and eq: "good lo hi len eq" and first: "first_id_id sys = SYMBOL_ID_NONE"
  shows "\<exists>r. system_add sys eq = Some r \<and> row_added lo hi len sys eq r"
proof -
  let ?m = "max_equations sys"
  have s: "equations sys = replicate ?m None" "last_symbol_id sys = SYMBOL_ID_NONE" "hi - lo \<le> ?m" "window lo hi"
    "hi + ?m < 2 ^ 32" "n_equations sys = 0"
    using sys first by (auto simp: sys_shape_def count_some_def)
  note gp = good_pivot[OF eq]
  have m: "0 < ?m" using s(3) gp(3-5) by linarith
  let ?s = "sys\<lparr>equations := (replicate ?m None)[0 := Some eq], n_equations := 1, first_id_id := pivot eq,
    last_symbol_id := last_non_zero_id eq\<rparr>"
  have nz: "\<not> equation_is_zero eq" using eq by (simp add: good_def)
  have add: "system_add sys eq = Some (0, None, ?s)"
    using nz first m s by (simp add: system_add_def extend_last_def)
  have row0: "row sys p = None" for p using s(1) by (auto simp: row_def)
  have r: "row ?s p = ((row sys)(pivot eq \<mapsto> eq)) p" for p
    using m row0 by (auto simp: row_def nth_list_update)
  have "sys_shape lo hi ?s"
    using s m gp(3-5) good_not_none[OF eq] by (simp add: sys_shape_def count_some_update) (simp add: count_some_def)
  moreover have "rows_ok lo hi len (last_non_zero_id eq) ?s"
    using eq row0 unfolding rows_ok_def r by (auto split: if_splits)
  ultimately have "row_added lo hi len sys eq (0, None, ?s)"
    using m s r by (simp add: row_added_def sys_ok_def fun_eq_iff)
  with add show ?thesis by blast
qed

section \<open>Elimination by a new row\<close>

text \<open>Reduced echelon form: a row has no coefficient at the pivot of another row.\<close>

definition reduced :: "system \<Rightarrow> bool" where
  "reduced sys \<longleftrightarrow> (\<forall>p q e. row sys p = Some e \<longrightarrow> row sys q \<noteq> None \<longrightarrow> q \<noteq> p \<longrightarrow> cf e q = 0)"

definition pivot_added ::
  "nat \<Rightarrow> nat \<Rightarrow> nat \<Rightarrow> (nat \<Rightarrow> bool \<times> bool) \<Rightarrow> system \<Rightarrow> equation \<Rightarrow> nat \<times> bool \<times> equation option \<times> system \<Rightarrow> bool" where
  "pivot_added lo hi len alloc sys eq r \<longleftrightarrow> (case r of (idx, d, removed, sys') \<Rightarrow>
     removed = None \<and> sys_ok lo hi len sys' \<and> idx < max_equations sys' \<and> max_equations sys' = max_equations sys \<and>
     n_equations sys' = n_equations sys + 1 \<and>
     (\<forall>x. sol lo hi len sys' x \<longleftrightarrow> sol lo hi len sys x \<and> holds lo hi len x eq) \<and>
     (\<forall>p. row sys' p = None \<longleftrightarrow> row sys p = None \<and> p \<noteq> pivot eq) \<and>
     ((\<forall>n. fst (alloc n)) \<longrightarrow> reduced sys \<longrightarrow> reduced sys') \<and>
     (\<exists>e. rd (equations sys') idx = Some (Some e) \<and> row sys' (pivot eq) = Some e) \<and>
     (d \<longleftrightarrow> (\<exists>p. p \<noteq> pivot eq \<and> newly (row sys p) (row sys' p))))"

lemma rows_of_loop:
  assumes "length es = max_equations sys" "length (equations sys) = max_equations sys"
    "\<And>j. j < length es \<Longrightarrow> rel_option (R j) (equations sys ! j) (es ! j)"
  shows "rel_option (\<lambda>e e'. \<exists>j. R j e e') (row sys p) (row (sys\<lparr>equations := es\<rparr>) p)"
proof (cases "first_id_id sys \<le> p \<and> p < first_id_id sys + max_equations sys")
  case True
  then have "rel_option (R (p - first_id_id sys)) (row sys p) (row (sys\<lparr>equations := es\<rparr>) p)"
    using assms(3)[of "p - first_id_id sys"] assms(1) by (auto simp: row_def)
  then show ?thesis by (rule option.rel_mono_strong) blast
qed (auto simp: row_def)

lemma newly_rows:
  assumes "length es = max_equations sys" "length (equations sys) = max_equations sys"
  shows "(\<exists>j < max_equations sys. newly (equations sys ! j) (es ! j)) \<longleftrightarrow>
    (\<exists>p. newly (row sys p) (row (sys\<lparr>equations := es\<rparr>) p))"
proof
  assume "\<exists>j < max_equations sys. newly (equations sys ! j) (es ! j)"
  then obtain j where "j < max_equations sys" "newly (equations sys ! j) (es ! j)" by blast
  then have "newly (row sys (first_id_id sys + j)) (row (sys\<lparr>equations := es\<rparr>) (first_id_id sys + j))" by (simp add: row_def)
  then show "\<exists>p. newly (row sys p) (row (sys\<lparr>equations := es\<rparr>) p)" by blast
next
  assume "\<exists>p. newly (row sys p) (row (sys\<lparr>equations := es\<rparr>) p)"
  then obtain p where p: "newly (row sys p) (row (sys\<lparr>equations := es\<rparr>) p)" by blast
  then have "first_id_id sys \<le> p \<and> p < first_id_id sys + max_equations sys" by (auto simp: row_def newly_def split: if_splits)
  with p show "\<exists>j < max_equations sys. newly (equations sys ! j) (es ! j)"
    by (intro exI[of _ "p - first_id_id sys"]) (auto simp: row_def)
qed

lemma rel_count_some: "list_all2 (rel_option R) xs ys \<Longrightarrow> count_some ys = count_some xs"
  by (induction rule: list_all2_induct) (auto simp: option.rel_sel count_some_def)

text \<open>The rows after the loop.\<close>

definition loop_rows :: "nat \<Rightarrow> nat \<Rightarrow> nat \<Rightarrow> (nat \<Rightarrow> bool \<times> bool) \<Rightarrow> equation \<Rightarrow> system \<Rightarrow> system \<Rightarrow> bool" where
  "loop_rows lo hi len alloc eq sys s \<longleftrightarrow>
     (\<forall>p. rel_option (\<lambda>e e'. \<exists>j. eliminated lo hi len (fst (alloc j)) eq e e') (row sys p) (row s p))"

lemma loop_rowsD:
  assumes "loop_rows lo hi len alloc eq sys s" "row s p = Some e'"
  obtains e j where "row sys p = Some e" "eliminated lo hi len (fst (alloc j)) eq e e'"
proof -
  from assms(1) have "rel_option (\<lambda>e e'. \<exists>j. eliminated lo hi len (fst (alloc j)) eq e e') (row sys p) (row s p)"
    by (simp add: loop_rows_def)
  with assms(2) that show thesis by (auto simp: option_rel_Some2)
qed

lemma loop_rows_None: "loop_rows lo hi len alloc eq sys s \<Longrightarrow> row s p = None \<longleftrightarrow> row sys p = None"
  unfolding loop_rows_def by (drule spec[of _ p], cases "row sys p"; cases "row s p") simp_all

lemma loop_rows_sol:
  assumes "loop_rows lo hi len alloc eq sys s" "holds lo hi len x eq"
  shows "sol lo hi len s x \<longleftrightarrow> sol lo hi len sys x"
proof -
  have "(\<forall>e'. row s p = Some e' \<longrightarrow> holds lo hi len x e') \<longleftrightarrow> (\<forall>e. row sys p = Some e \<longrightarrow> holds lo hi len x e)" for p
  proof -
    from assms(1) have "rel_option (\<lambda>e e'. \<exists>j. eliminated lo hi len (fst (alloc j)) eq e e') (row sys p) (row s p)"
      by (simp add: loop_rows_def)
    with assms(2) show ?thesis by (cases "row sys p"; cases "row s p") (auto simp: eliminated_def)
  qed
  then show ?thesis by (simp add: sol_def)
qed

lemma pivot_loop_rows:
  assumes gf: "tables_ok gf" and sys: "sys_ok lo hi len sys" and eq: "good lo hi len eq"
    and z: "\<And>p. row sys p \<noteq> None \<Longrightarrow> cf eq p = 0"
  obtains es eq' d where "pivot_loop gf alloc (pivot eq) 0 0 sys eq False = Some (sys\<lparr>equations := es\<rparr>, eq', d)"
    "good lo hi len eq'" "scaled len eq eq'" "loop_rows lo hi len alloc eq sys (sys\<lparr>equations := es\<rparr>)"
    "sys_shape lo hi (sys\<lparr>equations := es\<rparr>)" "d \<longleftrightarrow> (\<exists>p. newly (row sys p) (row (sys\<lparr>equations := es\<rparr>) p))"
proof -
  let ?es = "equations sys" and ?m = "max_equations sys"
  have m: "length ?es = ?m" "n_equations sys = int (count_some ?es)" using sys by (simp_all add: sys_ok_defs)
  have rows: "good lo hi len e \<and> cf eq (pivot e) = 0" if "j < length ?es" "?es ! j = Some e" for j e
  proof -
    have "row sys (first_id_id sys + j) = Some e" using that m by (simp add: row_def)
    with sys_row[OF sys this] z[of "first_id_id sys + j"] show ?thesis by simp
  qed
  obtain es eq' d where r: "pivot_loop gf alloc (pivot eq) 0 0 (sys\<lparr>equations := ?es\<rparr>) eq False = Some (sys\<lparr>equations := es\<rparr>, eq', d)"
    "loop_result lo hi len alloc eq 0 ?es False (es, eq', d)"
    using pivot_loop_eq[OF gf m _ eq, of 0 0 alloc False] rows by (auto simp: count_some_def)
  have l: "length es = ?m" and rel: "\<And>j. j < length es \<Longrightarrow> rel_option (eliminated lo hi len (fst (alloc j)) eq) (?es ! j) (es ! j)"
    and d: "d \<longleftrightarrow> (\<exists>j < ?m. newly (?es ! j) (es ! j))" and eq': "good lo hi len eq'" "scaled len eq eq'"
    using r(2) m by (auto simp: loop_result_def)
  have lr: "loop_rows lo hi len alloc eq sys (sys\<lparr>equations := es\<rparr>)"
    unfolding loop_rows_def using rows_of_loop[OF l m(1) rel] by blast
  have "rel_option (\<lambda>e e'. True) (?es ! j) (es ! j)" if "j < length ?es" for j
    using rel[of j] that l m by (auto elim: option.rel_mono_strong)
  then have "list_all2 (rel_option (\<lambda>e e'. True)) ?es es" using l m by (simp add: list_all2_conv_all_nth)
  from rel_count_some[OF this] have cnt: "count_some es = count_some ?es" .
  have "es = replicate ?m None" if "?es = replicate ?m None"
    using rel l m that by (auto intro!: nth_equalityI)
  with sys l cnt have "sys_shape lo hi (sys\<lparr>equations := es\<rparr>)" by (simp add: sys_ok_def sys_shape_def)
  with r(1) eq' lr d newly_rows[OF l m(1)] show thesis by (intro that) simp_all
qed

lemma add_as_pivot_eq:
  assumes gf: "tables_ok gf" and sys: "sys_ok lo hi len sys" and eq: "good lo hi len eq"
    and z: "\<And>p. row sys p \<noteq> None \<Longrightarrow> cf eq p = 0"
  shows "\<exists>r. system_add_as_pivot gf alloc sys eq = Some r \<and> pivot_added lo hi len alloc sys eq r"
proof -
  obtain b p l where adj: "equation_adjust_non_zero_bounds eq = Some (b, eq\<lparr>pivot := p, last_non_zero_id := l\<rparr>)"
    "bounds_ok (eq\<lparr>pivot := p, last_non_zero_id := l\<rparr>)" by (rule adjust_eq[OF good_wf[OF eq]])
  define eq0 where "eq0 = eq\<lparr>pivot := p, last_non_zero_id := l\<rparr>"
  have c0: "cf eq0 = cf eq" "\<And>x. holds lo hi len x eq0 = holds lo hi len x eq" by (simp_all add: eq0_def holds_def)
  have g0: "good lo hi len eq0"
    using adj(2) eq nonzero_iff[OF adj(2)] good_pivot(1)[OF eq] by (auto simp: eq0_def good_def)
  have p0: "pivot eq0 = pivot eq" by (rule bounds_unique(1)[OF eq g0]) (simp add: c0)
  have z0: "cf eq0 q = 0" if "row sys q \<noteq> None" for q using z[OF that] c0 by simp
  obtain es eq' d where lp: "pivot_loop gf alloc (pivot eq0) 0 0 sys eq0 False = Some (sys\<lparr>equations := es\<rparr>, eq', d)"
    "good lo hi len eq'" "scaled len eq0 eq'" "loop_rows lo hi len alloc eq0 sys (sys\<lparr>equations := es\<rparr>)"
    "sys_shape lo hi (sys\<lparr>equations := es\<rparr>)" "d \<longleftrightarrow> (\<exists>p. newly (row sys p) (row (sys\<lparr>equations := es\<rparr>) p))"
    using pivot_loop_rows[OF gf sys g0 z0] by blast
  let ?s = "sys\<lparr>equations := es\<rparr>"
  have p': "pivot eq' = pivot eq" "last_non_zero_id eq' = last_non_zero_id eq0"
    using bounds_unique[OF g0 lp(2) scaled_facts(1)[OF lp(3)]] p0 by simp_all
  have "row sys (pivot eq) = None" using z[of "pivot eq"] good_pivot(1)[OF eq] by blast
  then have new: "row ?s (pivot eq) = None" using loop_rows_None[OF lp(4)] by simp
  have rows: "rows_ok lo hi len (max (last_symbol_id ?s) (last_non_zero_id eq')) ?s"
    unfolding rows_ok_def
  proof (intro allI impI)
    fix q e' assume "row ?s q = Some e'"
    then obtain e j where e: "row sys q = Some e" "eliminated lo hi len (fst (alloc j)) eq0 e e'"
      by (rule loop_rowsD[OF lp(4)])
    with sys_row[OF sys e(1)] p' show "good lo hi len e' \<and> pivot e' = q \<and>
        last_non_zero_id e' \<le> max (last_symbol_id ?s) (last_non_zero_id eq')" by (auto simp: eliminated_def)
  qed
  obtain idx rem sys' where add: "system_add ?s eq' = Some (idx, rem, sys')" "row_added lo hi len ?s eq' (idx, rem, sys')"
  proof (cases "first_id_id ?s = SYMBOL_ID_NONE")
    case True
    with system_add_first[OF lp(5,2)] that show thesis by auto
  next
    case False
    with system_add_eq[OF lp(5) rows lp(2)] new p' that show thesis by auto
  qed
  have r': "row sys' = (row ?s)(pivot eq \<mapsto> eq')" using add(2) p' by (simp add: row_added_def)
  have eq'_holds: "holds lo hi len x eq' = holds lo hi len x eq" for x using scaled_facts(2)[OF lp(3)] c0 by simp
  have solp: "sol lo hi len sys' x \<longleftrightarrow> sol lo hi len ?s x \<and> holds lo hi len x eq" for x
    using new by (auto simp: sol_def r' eq'_holds)
  have sol': "sol lo hi len sys' x \<longleftrightarrow> sol lo hi len sys x \<and> holds lo hi len x eq" for x
    using loop_rows_sol[OF lp(4), of x] c0(2) solp by blast
  have red: "reduced sys'" if ok: "\<forall>n. fst (alloc n)" and r: "reduced sys"
    unfolding reduced_def
  proof (intro allI impI)
    fix q q' e' assume a: "row sys' q = Some e'" "row sys' q' \<noteq> None" "q' \<noteq> q"
    show "cf e' q' = 0"
    proof (cases "q = pivot eq")
      case True
      with a r' have "e' = eq'" "row sys q' \<noteq> None" using loop_rows_None[OF lp(4)] by auto
      with z0 scaled_facts(1)[OF lp(3)] show ?thesis by simp
    next
      case False
      with a r' have "row ?s q = Some e'" by simp
      then obtain e j where e: "row sys q = Some e" "eliminated lo hi len (fst (alloc j)) eq0 e e'"
        by (rule loop_rowsD[OF lp(4)])
      show ?thesis
      proof (cases "q' = pivot eq")
        case True
        with e(2) ok p0 show ?thesis by (simp add: eliminated_def)
      next
        case False
        with a(2) r' have "row sys q' \<noteq> None" using loop_rows_None[OF lp(4)] by simp
        with r e a(3) z0[of q'] show ?thesis by (simp add: eliminated_def reduced_def)
      qed
    qed
  qed
  have dec: "d \<longleftrightarrow> (\<exists>p. p \<noteq> pivot eq \<and> newly (row sys p) (row sys' p))"
  proof -
    have "newly (row sys q) (row ?s q) \<longleftrightarrow> q \<noteq> pivot eq \<and> newly (row sys q) (row sys' q)" for q
      unfolding r' using new by (cases "q = pivot eq") (simp_all add: newly_def split: option.splits)
    then show ?thesis unfolding lp(6) by blast
  qed
  have none: "row sys' q = None \<longleftrightarrow> row sys q = None \<and> q \<noteq> pivot eq" for q
    using loop_rows_None[OF lp(4)] by (simp add: r')
  have "system_add_as_pivot gf alloc sys eq = Some (idx, d, rem, sys')"
    using adj(1) lp(1) add(1) good_not_none[OF g0] by (simp add: system_add_as_pivot_def eq0_def[symmetric])
  moreover have "pivot_added lo hi len alloc sys eq (idx, d, rem, sys')"
    using add(2) sol' red dec none r' p' by (auto simp: pivot_added_def row_added_def)
  ultimately show ?thesis by blast
qed

section \<open>Adding an equation\<close>

definition elim_ok ::
  "nat \<Rightarrow> nat \<Rightarrow> nat \<Rightarrow> bool \<Rightarrow> system \<Rightarrow> equation \<Rightarrow> elimination_result \<times> system \<Rightarrow> bool" where
  "elim_ok lo hi len ok sys eq r \<longleftrightarrow> (case r of (res, sys') \<Rightarrow>
     sys_ok lo hi len sys' \<and> max_equations sys' = max_equations sys \<and> res_removed res = None \<and>
     (\<forall>x. sol lo hi len sys x \<and> holds lo hi len x eq \<longrightarrow> sol lo hi len sys' x) \<and>
     (ok \<longrightarrow> res_err res = 0 \<and> (reduced sys \<longrightarrow> reduced sys')) \<and>
     (res_err res = 0 \<longrightarrow> (\<exists>x. sol lo hi len sys x \<and> holds lo hi len x eq) \<longrightarrow>
        (\<forall>x. sol lo hi len sys' x \<longrightarrow> sol lo hi len sys x \<and> holds lo hi len x eq)) \<and>
     n_equations sys' = n_equations sys + (if res_used res then 1 else 0) \<and>
     (if res_used res then \<exists>e. good lo hi len e \<and> (\<forall>p. row sys p \<noteq> None \<longrightarrow> cf e p = 0) \<and>
        (\<forall>x. sol lo hi len sys x \<longrightarrow> (holds lo hi len x e \<longleftrightarrow> holds lo hi len x eq))
      else \<forall>x. sol lo hi len sys' x \<longleftrightarrow> sol lo hi len sys x) \<and>
     (res_decoded res \<longleftrightarrow> (\<exists>p. newly (row sys p) (row sys' p))))"

lemma same_sys_reduced:
  assumes "same_sys sys sys'" "length (equations sys) = max_equations sys"
  shows "reduced sys' \<longleftrightarrow> reduced sys"
proof -
  have iff: "reduced s \<longleftrightarrow> (\<forall>p q. row s q \<noteq> None \<longrightarrow> q \<noteq> p \<longrightarrow> (\<forall>e. row s p = Some e \<longrightarrow> cf e q = 0))" for s
    unfolding reduced_def by blast
  have "(\<forall>e. row sys' p = Some e \<longrightarrow> cf e q = 0) \<longleftrightarrow> (\<forall>e. row sys p = Some e \<longrightarrow> cf e q = 0)" for p q
    using same_sys_row[OF assms, of p]
    by (cases "row sys p"; cases "row sys' p") (simp_all add: same_eq_facts)
  then show ?thesis unfolding iff row_None[OF assms] by simp
qed

lemma same_sys_newly:
  assumes "same_sys sys sys'" "length (equations sys) = max_equations sys"
  shows "newly (row sys' p) r \<longleftrightarrow> newly (row sys p) r" "\<not> newly (row sys p) (row sys' p)"
  using same_sys_row[OF assms, of p]
  by (cases "row sys p"; cases "row sys' p"; cases r; simp add: newly_def same_eq_simps)+

lemma zero_holds:
  assumes "equation_is_zero e" "bounds_ok e"
  shows "holds lo hi len x e \<longleftrightarrow> (\<forall>k < len. dat e k = 0)"
  using assms nonzero_iff[OF assms(2)] by (auto simp: holds_def)

lemma system_add_with_elimination_eq:
  assumes gf: "tables_ok gf" and sys: "sys_ok lo hi len sys" and wf: "wf_eq lo hi len eq"
  shows "\<exists>r. system_add_with_elimination gf alloc1 alloc2 sys eq = Some r \<and>
    elim_ok lo hi len ((\<forall>n. fst (alloc1 n)) \<and> (\<forall>n. fst (alloc2 n))) sys eq r"
proof -
  have l: "length (equations sys) = max_equations sys" using sys by (simp add: sys_ok_defs)
  obtain e s eq' where red: "reduce_equation gf alloc1 sys eq = Some (e, s, eq')" "reduces lo hi len alloc1 sys eq (e, s, eq')"
    using reduce_equation_eq[OF gf sys wf, of alloc1] by auto
  then have same: "same_sys sys s" and eq': "wf_eq lo hi len eq'" "bounds_ok eq'"
    and h: "\<And>x. sol lo hi len sys x \<Longrightarrow> holds lo hi len x eq' \<longleftrightarrow> holds lo hi len x eq"
    and z: "\<And>p. e = 0 \<Longrightarrow> row sys p \<noteq> None \<Longrightarrow> cf eq' p = 0" and err: "e = 0 \<or> (\<exists>n. \<not> fst (alloc1 n))"
    by (auto simp: reduces_def)
  have s: "sys_ok lo hi len s" by (rule same_sys_ok[OF same sys])
  note ss = same_sys_sol[OF same l] same_sys_newly[OF same l] same_sys_reduced[OF same l] same_sys_fields[OF same]
  show ?thesis
  proof (cases "e = 0 \<and> \<not> equation_is_zero eq'")
    case False
    then have "system_add_with_elimination gf alloc1 alloc2 sys eq =
        Some (\<lparr>res_err = e, res_decoded = False, res_removed = None, res_used = False\<rparr>, s)"
      using red(1) by (auto simp: system_add_with_elimination_def)
    moreover have "holds lo hi len x eq" if "e = 0" "sol lo hi len sys x0" "holds lo hi len x0 eq" "sol lo hi len sys x" for x x0
      using False that h[OF that(2)] h[OF that(4)] zero_holds[OF _ eq'(2)] by blast
    ultimately show ?thesis using s ss err by (auto simp: elim_ok_def)
  next
    case True
    then have g: "good lo hi len eq'" using eq' by (simp add: good_def)
    have z': "cf eq' p = 0" if "row s p \<noteq> None" for p using z[of p] True that row_None[OF same l, of p] by metis
    obtain idx d rem sys' where a: "system_add_as_pivot gf alloc2 s eq' = Some (idx, d, rem, sys')"
      "pivot_added lo hi len alloc2 s eq' (idx, d, rem, sys')"
      using add_as_pivot_eq[OF gf s g z', of alloc2] by auto
    then obtain n where n: "rd (equations sys') idx = Some (Some n)" "row sys' (pivot eq') = Some n" "rem = None"
      "idx < max_equations sys'" "sys_ok lo hi len sys'" "max_equations sys' = max_equations s"
      "n_equations sys' = n_equations s + 1" "d \<longleftrightarrow> (\<exists>p. p \<noteq> pivot eq' \<and> newly (row s p) (row sys' p))"
      "\<And>x. sol lo hi len sys' x \<longleftrightarrow> sol lo hi len s x \<and> holds lo hi len x eq'"
      "(\<forall>n. fst (alloc2 n)) \<Longrightarrow> reduced s \<Longrightarrow> reduced sys'"
      by (auto simp: pivot_added_def)
    have idx: "\<not> (idx = ENTRY_INDEX_NONE \<or> idx \<ge> max_equations sys')"
      using n(4,5) by (auto simp: sys_ok_defs ENTRY_INDEX_NONE_def)
    have "row s (pivot eq') = None" using z'[of "pivot eq'"] good_pivot(1)[OF g] by blast
    then have "row sys (pivot eq') = None" using row_None[OF same l] by simp
    then have "newly (row sys (pivot eq')) (row sys' (pivot eq')) \<longleftrightarrow> equation_has_one_id n"
      using n(2) by (simp add: newly_def)
    then have dec: "d \<or> equation_has_one_id n \<longleftrightarrow> (\<exists>p. newly (row sys p) (row sys' p))"
      unfolding n(8) ss(2) by metis
    have "system_add_with_elimination gf alloc1 alloc2 sys eq = Some
        (\<lparr>res_err = 0, res_decoded = d \<or> equation_has_one_id n, res_removed = rem, res_used = True\<rparr>, sys')"
      unfolding system_add_with_elimination_def using red(1) True a(1) idx n(1) by simp
    moreover have "sol lo hi len sys' x \<longleftrightarrow> sol lo hi len sys x \<and> holds lo hi len x eq" for x
      unfolding n(9) ss(1) using h by blast
    moreover have "\<exists>e. good lo hi len e \<and> (\<forall>p. row sys p \<noteq> None \<longrightarrow> cf e p = 0) \<and>
        (\<forall>x. sol lo hi len sys x \<longrightarrow> (holds lo hi len x e \<longleftrightarrow> holds lo hi len x eq))"
      using g z True h by blast
    ultimately show ?thesis using n(3,5,6,7,10) dec ss unfolding elim_ok_def by auto
  qed
qed

end
