(* ===== verification/Decoding.thy ===== *)
theory Decoding
  imports LinSystemAdd
begin

text \<open>
  What the decoder recovers: runs that add equations one after the other, and the symbols that
  can be read from the resulting system.
\<close>

section \<open>Decoding\<close>

text \<open>An equation with a single identifier determines that symbol.\<close>

lemma one_id_cf:
  assumes "good lo hi len e" "equation_has_one_id e"
  shows "cf e i \<noteq> 0 \<longleftrightarrow> i = pivot e"
  using assms(2) good_pivot(1)[OF assms(1)] good_pivot(6)[OF assms(1), of i]
  by (auto simp: equation_has_one_id_def equation_get_min_symbol_id_def equation_get_max_symbol_id_def)

lemma one_id_holds:
  assumes "good lo hi len e" "equation_has_one_id e"
  shows "holds lo hi len x e \<longleftrightarrow> (\<forall>k < len. cf e (pivot e) * x (pivot e) k = dat e k)"
proof -
  have t: "cf e i * x i k = (if i = pivot e then cf e i * x i k else 0)" for i k
    using one_id_cf[OF assms, of i] by auto
  have "lo \<le> pivot e" "pivot e < hi" using good_pivot(3-5)[OF assms(1)] by auto
  then have "(\<Sum>i = lo..<hi. cf e i * x i k) = cf e (pivot e) * x (pivot e) k" for k
    by (subst t) simp
  then show ?thesis by (simp add: holds_def)
qed

lemma not_one_id:
  assumes "good lo hi len e" "\<not> equation_has_one_id e"
  shows "last_non_zero_id e \<noteq> pivot e"
  using assms by (auto simp: equation_has_one_id_def good_def equation_get_min_symbol_id_def equation_get_max_symbol_id_def)

text \<open>
  In a reduced system every symbol without a row of its own can be changed freely when the pivots
  of the rows that use it are changed along with it.
\<close>

definition vary :: "system \<Rightarrow> nat \<Rightarrow> (nat \<Rightarrow> nat \<Rightarrow> gf) \<Rightarrow> nat \<Rightarrow> nat \<Rightarrow> gf" where
  "vary sys j x i k = x i k + (if i = j then 1 else case row sys i of None \<Rightarrow> 0 | Some e \<Rightarrow> cf e j / cf e i)"

lemma vary_sol:
  assumes sys: "sys_ok lo hi len sys" and red: "reduced sys" and x: "sol lo hi len sys x"
    and j: "lo \<le> j" "j < hi" "row sys j = None"
  shows "sol lo hi len sys (vary sys j x)"
  unfolding sol_def
proof (intro allI impI)
  fix q e assume q: "row sys q = Some e"
  with sys_row[OF sys] have e: "good lo hi len e" "pivot e = q" by auto
  have r: "lo \<le> q" "q < hi" using row_range[OF sys q] by auto
  have qj: "q \<noteq> j" using q j(3) by auto
  have c: "cf e q \<noteq> 0" using good_pivot(1)[OF e(1)] e(2) by simp
  have t: "cf e i * vary sys j x i k = cf e i * x i k + ((if i = j then cf e j else 0) + (if i = q then cf e j else 0))" for i k
  proof (cases "i = j \<or> i = q")
    case True
    with qj q c show ?thesis by (auto simp: vary_def distrib_left)
  next
    case False
    then have "row sys i = None \<or> cf e i = 0" using red q unfolding reduced_def by blast
    with False show ?thesis by (auto simp: vary_def distrib_left)
  qed
  have "(\<Sum>i = lo..<hi. cf e i * vary sys j x i k) = (\<Sum>i = lo..<hi. cf e i * x i k)" for k
    unfolding t sum.distrib using j r by simp
  moreover have "holds lo hi len x e" using x q by (simp add: sol_def)
  ultimately show "holds lo hi len (vary sys j x) e" by (simp add: holds_def)
qed

lemma undetermined:
  assumes sys: "sys_ok lo hi len sys" and red: "reduced sys" and x: "sol lo hi len sys x"
    and p: "lo \<le> p" "p < hi" and no: "\<And>e. row sys p = Some e \<Longrightarrow> \<not> equation_has_one_id e"
  shows "\<exists>y. sol lo hi len sys y \<and> (\<forall>k. y p k \<noteq> x p k)"
proof (cases "row sys p")
  case None
  with vary_sol[OF sys red x p None] show ?thesis by (intro exI[of _ "vary sys p x"]) (simp add: vary_def)
next
  case (Some e)
  with sys_row[OF sys] have e: "good lo hi len e" "pivot e = p" by auto
  let ?j = "last_non_zero_id e"
  have j: "cf e ?j \<noteq> 0" "?j \<noteq> p" "lo \<le> ?j" "?j < hi"
    using good_pivot(2-5)[OF e(1)] not_one_id[OF e(1) no[OF Some]] e(2) by auto
  have "row sys ?j = None" using red Some j(1,2) unfolding reduced_def by blast
  from vary_sol[OF sys red x j(3,4) this] show ?thesis
    using j(1,2) Some good_pivot(1)[OF e(1)] e(2) by (intro exI[of _ "vary sys ?j x"]) (simp add: vary_def)
qed

lemma normalized_pivot_eq:
  assumes gf: "tables_ok gf" and sys: "sys_ok lo hi len sys" and e: "row sys p = Some e"
  obtains e' sys' where "system_get_normalized_pivot_for_id gf sys p = Some (Some e', sys')" "good lo hi len e'"
    "scaled len e e'" "pivot e' = p" "last_non_zero_id e' = last_non_zero_id e" "cf e' p = 1"
proof -
  have g: "good lo hi len e" "pivot e = p" using sys_row[OF sys e] by auto
  have c: "cf e p \<noteq> 0" using good_pivot(1)[OF g(1)] g(2) by simp
  note unfold = system_get_normalized_pivot_for_id_def get_pivot_eq[OF sys] e good_get_coef[OF g(1)] g(2)
  show thesis
  proof (cases "of_gf (cf e p) = 1")
    case True
    then have "cf e p = 1" by (metis of_gf_inverse one_gf.abs_eq)
    with that[of e sys] True g show thesis by (simp add: unfold)
  next
    case False
    obtain e' where e': "equation_multiply (gf_lib gf) e (inv_coef gf (of_gf (cf e p))) (mul_table gf) = Some e'"
      "good lo hi len e'" "scaled len e e'" "pivot e' = pivot e" "last_non_zero_id e' = last_non_zero_id e" "cf e' p = 1"
      by (rule normalise[OF gf g(1) c])
    with that[of e'] False g(2) show thesis by (simp add: unfold)
  qed
qed

section \<open>Runs of the decoder\<close>

text \<open>
  The systems that come out of adding a list of equations one after the other to a new one;
  \<open>ok\<close> says that no allocation failed.
\<close>

inductive decoder :: "gf_tables \<Rightarrow> bool \<Rightarrow> equation list \<Rightarrow> system \<Rightarrow> bool" for gf where
  start: "decoder gf True [] sys" if "system_alloc True True = Some sys"
| receive: "decoder gf (ok \<and> (\<forall>n. fst (alloc1 n)) \<and> (\<forall>n. fst (alloc2 n))) (es @ [eq]) sys'"
    if "decoder gf ok es sys" "system_add_with_elimination gf alloc1 alloc2 sys eq = Some (res, sys')"

definition ids_fit :: "nat \<Rightarrow> nat \<Rightarrow> bool" where
  "ids_fit lo hi \<longleftrightarrow> hi - lo \<le> SYSTEM_INITIAL_SIZE \<and> hi + SYSTEM_INITIAL_SIZE < 2 ^ 32"

lemma new_system:
  assumes "system_alloc True True = Some sys" "ids_fit lo hi"
  shows "sys_ok lo hi len sys" "row sys p = None" "max_equations sys = SYSTEM_INITIAL_SIZE"
proof -
  have s: "first_id_id sys = SYMBOL_ID_NONE" "last_symbol_id sys = SYMBOL_ID_NONE" "n_equations sys = 0"
    "equations sys = replicate SYSTEM_INITIAL_SIZE None" "max_equations sys = SYSTEM_INITIAL_SIZE"
    using assms(1) by (auto simp: system_alloc_def)
  then show r: "row sys p = None" for p by (auto simp: row_def)
  show "sys_ok lo hi len sys"
    using assms(2) s r by (auto simp: sys_ok_def sys_shape_def rows_ok_def ids_fit_def window_def count_some_def SYSTEM_INITIAL_SIZE_def)
  show "max_equations sys = SYSTEM_INITIAL_SIZE" by (fact s)
qed

definition run_ok :: "nat \<Rightarrow> nat \<Rightarrow> nat \<Rightarrow> bool \<Rightarrow> equation list \<Rightarrow> system \<Rightarrow> bool" where
  "run_ok lo hi len ok es sys \<longleftrightarrow> sys_ok lo hi len sys \<and> max_equations sys = SYSTEM_INITIAL_SIZE \<and>
     (\<forall>x. (\<forall>e \<in> set es. holds lo hi len x e) \<longrightarrow> sol lo hi len sys x) \<and>
     (ok \<longrightarrow> reduced sys \<and> ((\<exists>x. \<forall>e \<in> set es. holds lo hi len x e) \<longrightarrow>
        (\<forall>x. sol lo hi len sys x \<longrightarrow> (\<forall>e \<in> set es. holds lo hi len x e))))"

lemma elim_okD:
  assumes "elim_ok lo hi len ok sys eq (res, sys')"
  shows "sys_ok lo hi len sys'" "max_equations sys' = max_equations sys"
    "sol lo hi len sys x \<Longrightarrow> holds lo hi len x eq \<Longrightarrow> sol lo hi len sys' x"
    "ok \<Longrightarrow> res_err res = 0" "ok \<Longrightarrow> reduced sys \<Longrightarrow> reduced sys'"
    "res_err res = 0 \<Longrightarrow> sol lo hi len sys y \<Longrightarrow> holds lo hi len y eq \<Longrightarrow> sol lo hi len sys' x \<Longrightarrow>
      sol lo hi len sys x \<and> holds lo hi len x eq"
    "res_decoded res \<longleftrightarrow> (\<exists>p. newly (row sys p) (row sys' p))" "res_removed res = None"
    "n_equations sys' = n_equations sys + (if res_used res then 1 else 0)"
    "res_used res \<Longrightarrow> \<exists>e. good lo hi len e \<and> (\<forall>p. row sys p \<noteq> None \<longrightarrow> cf e p = 0) \<and>
      (\<forall>x. sol lo hi len sys x \<longrightarrow> (holds lo hi len x e \<longleftrightarrow> holds lo hi len x eq))"
    "\<not> res_used res \<Longrightarrow> sol lo hi len sys' x \<longleftrightarrow> sol lo hi len sys x"
  using assms unfolding elim_ok_def prod.case by (blast+, simp_all)

lemma run_okD:
  assumes "run_ok lo hi len ok es sys"
  shows "sys_ok lo hi len sys" "max_equations sys = SYSTEM_INITIAL_SIZE"
    "(\<And>e. e \<in> set es \<Longrightarrow> holds lo hi len x e) \<Longrightarrow> sol lo hi len sys x" "ok \<Longrightarrow> reduced sys"
    "ok \<Longrightarrow> (\<And>e. e \<in> set es \<Longrightarrow> holds lo hi len y e) \<Longrightarrow> sol lo hi len sys x \<Longrightarrow> e \<in> set es \<Longrightarrow> holds lo hi len x e"
  using assms unfolding run_ok_def by blast+

lemma decoder_run_ok:
  assumes "decoder gf ok es sys" "tables_ok gf" "ids_fit lo hi" "\<forall>e \<in> set es. wf_eq lo hi len e"
  shows "run_ok lo hi len ok es sys"
  using assms(1,4)
proof (induction rule: decoder.induct)
  case (start sys)
  with new_system[OF start(1) assms(3)] show ?case by (simp add: run_ok_def sol_def reduced_def)
next
  case (receive ok es sys alloc1 alloc2 eq res sys')
  then have ih: "run_ok lo hi len ok es sys" and wf: "wf_eq lo hi len eq" by simp_all
  let ?ok = "(\<forall>n. fst (alloc1 n)) \<and> (\<forall>n. fst (alloc2 n))"
  note ihD = run_okD[OF ih]
  from system_add_with_elimination_eq[OF assms(2) ihD(1) wf, of alloc1 alloc2] receive(2)
  have "elim_ok lo hi len ?ok sys eq (res, sys')" by simp
  note el = elim_okD[OF this]
  have sound: "sol lo hi len sys' x" if "\<forall>e \<in> set (es @ [eq]). holds lo hi len x e" for x
    using el(3) ihD(3) that by auto
  have complete: "\<forall>e \<in> set (es @ [eq]). holds lo hi len x e"
    if "ok" "?ok" "\<forall>e \<in> set (es @ [eq]). holds lo hi len y e" "sol lo hi len sys' x" for x y
  proof -
    have y: "\<And>e. e \<in> set es \<Longrightarrow> holds lo hi len y e" "holds lo hi len y eq" using that(3) by auto
    then have "sol lo hi len sys y" using ihD(3) by blast
    from el(6)[OF el(4)[OF that(2)] this y(2) that(4)] have "sol lo hi len sys x" "holds lo hi len x eq" by auto
    with ihD(5)[OF that(1) y(1)] show ?thesis by auto
  qed
  show ?case unfolding run_ok_def
  proof (intro conjI impI allI)
    assume ok: "ok \<and> ?ok"
    with el(5) ihD(4) show "reduced sys'" by blast
    fix x assume "\<exists>y. \<forall>e \<in> set (es @ [eq]). holds lo hi len y e" "sol lo hi len sys' x"
    with complete ok show "\<forall>e \<in> set (es @ [eq]). holds lo hi len x e" by blast
  qed (use el(1,2) ihD(2) sound in \<open>simp_all\<close>)
qed

section \<open>Rank\<close>

lemma vary_fails:
  assumes e: "good lo hi len e" "\<And>p. row sys p \<noteq> None \<Longrightarrow> cf e p = 0" and x: "holds lo hi len x e" and len: "0 < len"
  shows "\<not> holds lo hi len (vary sys (pivot e) x) e"
proof
  let ?y = "vary sys (pivot e) x"
  assume y: "holds lo hi len ?y e"
  have "cf e i * ?y i k = cf e i * x i k + (if i = pivot e then cf e i else 0)" for i k
    using e(2)[of i] by (cases "row sys i") (auto simp: vary_def distrib_left)
  then have "(\<Sum>i = lo..<hi. cf e i * ?y i 0) = (\<Sum>i = lo..<hi. cf e i * x i 0) + cf e (pivot e)"
    using good_pivot(3-5)[OF e(1)] by (simp add: sum.distrib)
  with x y len have "cf e (pivot e) = 0" by (auto simp: holds_def)
  with good_pivot(1)[OF e(1)] show False by simp
qed

lemma used_iff_innovative:
  assumes el: "elim_ok lo hi len True sys eq (res, sys')" and sys: "sys_ok lo hi len sys" "reduced sys" and len: "0 < len"
    and x: "sol lo hi len sys x" "holds lo hi len x eq"
  shows "res_used res \<longleftrightarrow> (\<exists>y. sol lo hi len sys y \<and> \<not> holds lo hi len y eq)"
proof
  assume "res_used res"
  from elim_okD(10)[OF el this] obtain e where e: "good lo hi len e" "\<And>p. row sys p \<noteq> None \<Longrightarrow> cf e p = 0"
    "\<And>x. sol lo hi len sys x \<Longrightarrow> holds lo hi len x e \<longleftrightarrow> holds lo hi len x eq" by blast
  have "row sys (pivot e) = None" using e(2)[of "pivot e"] good_pivot(1)[OF e(1)] by blast
  moreover have "pivot e < hi" using good_pivot(4,5)[OF e(1)] by linarith
  ultimately have y: "sol lo hi len sys (vary sys (pivot e) x)"
    using vary_sol[OF sys x(1) good_pivot(3)[OF e(1)]] by blast
  moreover have "\<not> holds lo hi len (vary sys (pivot e) x) e"
    using vary_fails[OF e(1,2) _ len] e(3)[OF x(1)] x(2) by blast
  ultimately show "\<exists>y. sol lo hi len sys y \<and> \<not> holds lo hi len y eq" using e(3)[OF y] by blast
next
  assume "\<exists>y. sol lo hi len sys y \<and> \<not> holds lo hi len y eq"
  then obtain y where y: "sol lo hi len sys y" "\<not> holds lo hi len y eq" by blast
  show "res_used res"
  proof (rule ccontr)
    assume "\<not> res_used res"
    from elim_okD(11)[OF el this, of y] y(1) have "sol lo hi len sys' y" by simp
    from elim_okD(6)[OF el elim_okD(4)[OF el] x this] y(2) show False by simp
  qed
qed

lemma count_some_card: "count_some xs = card {j. j < length xs \<and> xs ! j \<noteq> None}"
  by (simp add: count_some_def length_filter_conv_card)

lemma full_rank_rows:
  assumes sys: "sys_ok lo hi len sys" and n: "n_equations sys = int (hi - lo)" and p: "lo \<le> p" "p < hi"
  shows "row sys p \<noteq> None"
proof -
  let ?J = "{j. j < max_equations sys \<and> equations sys ! j \<noteq> None}" and ?f = "first_id_id sys"
  have m: "length (equations sys) = max_equations sys" "n_equations sys = int (count_some (equations sys))"
    using sys by (simp_all add: sys_ok_defs)
  with n have card: "card ?J = hi - lo" by (simp add: count_some_card)
  have "row sys (?f + j) \<noteq> None" if "j \<in> ?J" for j using that by (simp add: row_def)
  then have "(+) ?f ` ?J \<subseteq> {lo..<hi}" using row_range[OF sys] by fastforce
  moreover have "card ((+) ?f ` ?J) = hi - lo" using card by (simp add: card_image)
  ultimately have "(+) ?f ` ?J = {lo..<hi}" by (intro card_subset_eq) simp_all
  then obtain j where "j \<in> ?J" "p = ?f + j" using p by (metis (no_types, lifting) atLeastLessThan_iff imageE)
  then show ?thesis by (simp add: row_def)
qed

lemma all_rows_rank:
  assumes sys: "sys_ok lo hi len sys" and rows: "\<And>p. lo \<le> p \<Longrightarrow> p < hi \<Longrightarrow> row sys p \<noteq> None"
  shows "n_equations sys = int (hi - lo)"
proof -
  let ?J = "{j. j < max_equations sys \<and> equations sys ! j \<noteq> None}" and ?f = "first_id_id sys"
  have m: "length (equations sys) = max_equations sys" "n_equations sys = int (count_some (equations sys))"
    using sys by (simp_all add: sys_ok_defs)
  have "(+) ?f ` ?J = {lo..<hi}"
  proof (intro equalityI subsetI)
    fix p assume "p \<in> (+) ?f ` ?J"
    then have "row sys p \<noteq> None" by (auto simp: row_def)
    then show "p \<in> {lo..<hi}" using row_range[OF sys] by fastforce
  next
    fix p assume "p \<in> {lo..<hi}"
    with rows have "row sys p \<noteq> None" by simp
    then have "?f \<le> p" "p - ?f \<in> ?J" by (auto simp: row_def split: if_splits)
    then show "p \<in> (+) ?f ` ?J" by (intro image_eqI[of _ _ "p - ?f"]) simp_all
  qed
  then have "card ((+) ?f ` ?J) = hi - lo" by simp
  then have "card ?J = hi - lo" by (simp add: card_image)
  with m show ?thesis by (simp add: count_some_card)
qed

lemma full_rank_one_id:
  assumes sys: "sys_ok lo hi len sys" and red: "reduced sys" and n: "n_equations sys = int (hi - lo)" and p: "lo \<le> p" "p < hi"
  obtains e where "row sys p = Some e" "equation_has_one_id e"
proof -
  from full_rank_rows[OF sys n p] obtain e where e: "row sys p = Some e" by blast
  with sys_row[OF sys] have g: "good lo hi len e" "pivot e = p" by auto
  let ?l = "last_non_zero_id e"
  have "?l = p"
  proof (rule ccontr)
    assume "?l \<noteq> p"
    moreover have "row sys ?l \<noteq> None"
      using full_rank_rows[OF sys n, of ?l] good_pivot(3-5)[OF g(1)] by simp
    ultimately have "cf e ?l = 0" using red e unfolding reduced_def by blast
    with good_pivot(2)[OF g(1)] show False by simp
  qed
  with not_one_id[OF g(1)] g(2) have "equation_has_one_id e" by blast
  with e that show thesis by blast
qed

section \<open>An example\<close>

lemma decoder_exists:
  assumes gf: "tables_ok gf" and fit: "ids_fit lo hi"
  shows "\<forall>e \<in> set es. wf_eq lo hi len e \<Longrightarrow> \<exists>sys. decoder gf True es sys"
proof (induction es rule: rev_induct)
  case Nil
  have "\<exists>sys. system_alloc True True = Some sys" by (simp add: system_alloc_def)
  then show ?case using decoder.start by blast
next
  case (snoc e es)
  then obtain sys where d: "decoder gf True es sys" by auto
  have "sys_ok lo hi len sys" by (rule run_okD(1)[OF decoder_run_ok[OF d gf fit]]) (use snoc.prems in simp)
  with system_add_with_elimination_eq[OF gf this, of e "\<lambda>_. (True, True)" "\<lambda>_. (True, True)"] snoc.prems
  obtain res sys' where "system_add_with_elimination gf (\<lambda>_. (True, True)) (\<lambda>_. (True, True)) sys e = Some (res, sys')"
    by auto
  from decoder.receive[OF d this] show ?case by auto
qed

definition example_tables :: gf_tables where
  "example_tables = \<lparr>gf_lib = None, inv_table = assign_inv, mul_table = assign_mul\<rparr>"

text \<open>The equations \<open>3 * x5 + x6 = (7, 9)\<close> and \<open>2 * x6 = (4, 8)\<close>.\<close>

definition example_system :: "equation list" where
  "example_system = [example_eq 5 [3, 1] [7, 9], example_eq 6 [2] [4, 8]]"

lemma example_tables_ok: "tables_ok example_tables"
  by (simp add: tables_ok_def example_tables_def)

lemma example_wf: "\<forall>e \<in> set example_system. wf_eq 5 7 2 e"
  by (simp add: example_system_def example_eq_def wf_eq_def window_def align_def ALIGNMENT_def)

lemma example_fit: "ids_fit 5 7"
  by (simp add: ids_fit_def SYSTEM_INITIAL_SIZE_def)

text \<open>The solution for the symbols 5 and 6; it is the only one.\<close>

definition example_solution :: "nat \<Rightarrow> nat \<Rightarrow> gf" where
  "example_solution i k =
     (let b = to_gf ([4, 8] ! k) / to_gf 2 in if i = 6 then b else (to_gf ([7, 9] ! k) + b) / to_gf 3)"

lemma example_holds_iff: "(\<forall>e \<in> set example_system. holds 5 7 2 y e) \<longleftrightarrow>
    (\<forall>k < 2. to_gf 3 * y 5 k + y 6 k = to_gf ([7, 9] ! k) \<and> to_gf 2 * y 6 k = to_gf ([4, 8] ! k))"
proof -
  have r: "{5..<7} = {5, 6 :: nat}" by auto
  have one: "to_gf 1 = 1" by (simp add: one_gf.abs_eq)
  have "holds 5 7 2 y (example_eq 5 [3, 1] [7, 9]) \<longleftrightarrow> (\<forall>k < 2. to_gf 3 * y 5 k + y 6 k = to_gf ([7, 9] ! k))"
    "holds 5 7 2 y (example_eq 6 [2] [4, 8]) \<longleftrightarrow> (\<forall>k < 2. to_gf 2 * y 6 k = to_gf ([4, 8] ! k))"
    unfolding holds_def r by (simp_all add: cf_example dat_example one)
  then show ?thesis by (auto simp: example_system_def)
qed

lemma example_holds: "\<forall>e \<in> set example_system. holds 5 7 2 example_solution e"
  unfolding example_holds_iff by (simp add: example_solution_def Let_def add.assoc)

lemma example_unique:
  assumes "\<forall>e \<in> set example_system. holds 5 7 2 y e" "5 \<le> p" "p < 7" "k < 2"
  shows "y p k = example_solution p k"
proof -
  have e: "to_gf 3 * y 5 k + y 6 k = to_gf ([7, 9] ! k)" "to_gf 2 * y 6 k = to_gf ([4, 8] ! k)"
    using assms(1,4) unfolding example_holds_iff by blast+
  have y6: "y 6 k = to_gf ([4, 8] ! k) / to_gf 2" unfolding e(2)[symmetric] by simp
  have "to_gf 3 * y 5 k = to_gf ([7, 9] ! k) + y 6 k" unfolding e(1)[symmetric] by (simp add: add.assoc)
  then have "y 5 k = (to_gf ([7, 9] ! k) + y 6 k) / to_gf 3" by (simp add: nonzero_eq_divide_eq mult.commute)
  moreover have "p = 5 \<or> p = 6" using assms(2,3) by linarith
  ultimately show ?thesis using y6 by (auto simp: example_solution_def)
qed

text \<open>A symbol is determined exactly when its row has no other identifier.\<close>

lemma determined_iff:
  assumes run: "run_ok lo hi len True es sys" and x: "\<And>e. e \<in> set es \<Longrightarrow> holds lo hi len x e" and p: "lo \<le> p" "p < hi"
    and len: "0 < len"
  shows "(\<exists>e. row sys p = Some e \<and> equation_has_one_id e) \<longleftrightarrow>
    (\<forall>y. (\<forall>e \<in> set es. holds lo hi len y e) \<longrightarrow> (\<forall>k < len. y p k = x p k))"
proof (intro iffI allI impI)
  note D = run_okD[OF run]
  fix y k assume "\<exists>e. row sys p = Some e \<and> equation_has_one_id e"
    and y: "\<forall>e \<in> set es. holds lo hi len y e" and k: "k < len"
  then obtain e where e: "row sys p = Some e" "equation_has_one_id e" by auto
  have g: "good lo hi len e" "pivot e = p" using sys_row[OF D(1) e(1)] by auto
  have "sol lo hi len sys y" "sol lo hi len sys x" using D(3) y x by blast+
  with e(1) have "holds lo hi len x e" "holds lo hi len y e" by (simp_all add: sol_def)
  then have "cf e p * y p k = cf e p * x p k" unfolding one_id_holds[OF g(1) e(2)] using k g(2) by simp
  then show "y p k = x p k" using good_pivot(1)[OF g(1)] g(2) by simp
next
  note D = run_okD[OF run]
  assume u: "\<forall>y. (\<forall>e \<in> set es. holds lo hi len y e) \<longrightarrow> (\<forall>k < len. y p k = x p k)"
  show "\<exists>e. row sys p = Some e \<and> equation_has_one_id e"
  proof (rule ccontr)
    assume "\<not> ?thesis"
    then obtain y where y: "sol lo hi len sys y" "\<forall>k. y p k \<noteq> x p k"
      using undetermined[OF D(1) D(4) D(3)[OF x] p] by auto
    have "\<forall>e \<in> set es. holds lo hi len y e" using D(5)[OF TrueI x y(1)] by blast
    with u y(2) len show False by blast
  qed
qed

lemma example_run:
  obtains sys where "decoder example_tables True example_system sys" "run_ok 5 7 2 True example_system sys"
    "\<forall>p. 5 \<le> p \<and> p < 7 \<longrightarrow> (\<exists>e. row sys p = Some e \<and> equation_has_one_id e)"
proof -
  obtain sys where d: "decoder example_tables True example_system sys"
    using decoder_exists[OF example_tables_ok example_fit example_wf] by blast
  have run: "run_ok 5 7 2 True example_system sys" by (rule decoder_run_ok[OF d example_tables_ok example_fit example_wf])
  have "\<exists>e. row sys p = Some e \<and> equation_has_one_id e" if "5 \<le> p" "p < 7" for p
    using determined_iff[OF run _ that, of example_solution] example_holds example_unique[OF _ that] by auto
  with d run that show thesis by blast
qed

section \<open>Properties\<close>

text \<open>
  C3. Adding an equation to the decoder's system never accesses memory outside of an allocation
  and always ends, whatever allocations fail on the way; it keeps the invariant of the system
  (sorted by pivot, every pivot the first non-zero coefficient, the count of equations right),
  every assignment of the symbols that satisfied the system and the equation satisfies the new
  system, and \<open>decoded\<close> is set exactly when some symbol has become known. When no allocation
  fails, no information is lost and reduced echelon form is kept.
\<close>

theorem elimination_correct:
  assumes "tables_ok gf" "sys_ok lo hi len sys" "wf_eq lo hi len eq"
  shows "\<exists>res sys'. system_add_with_elimination gf alloc1 alloc2 sys eq = Some (res, sys') \<and>
    sys_ok lo hi len sys' \<and> res_removed res = None \<and>
    n_equations sys' = n_equations sys + (if res_used res then 1 else 0) \<and>
    (\<forall>x. sol lo hi len sys x \<and> holds lo hi len x eq \<longrightarrow> sol lo hi len sys' x) \<and>
    (res_decoded res \<longleftrightarrow> (\<exists>p. newly (row sys p) (row sys' p))) \<and>
    ((\<forall>n. fst (alloc1 n)) \<and> (\<forall>n. fst (alloc2 n)) \<longrightarrow> res_err res = 0 \<and> (reduced sys \<longrightarrow> reduced sys') \<and>
      ((\<exists>x. sol lo hi len sys x \<and> holds lo hi len x eq) \<longrightarrow>
        (\<forall>x. sol lo hi len sys' x \<longleftrightarrow> sol lo hi len sys x \<and> holds lo hi len x eq)))"
proof -
  obtain res sys' where r: "system_add_with_elimination gf alloc1 alloc2 sys eq = Some (res, sys')"
    "elim_ok lo hi len ((\<forall>n. fst (alloc1 n)) \<and> (\<forall>n. fst (alloc2 n))) sys eq (res, sys')"
    using system_add_with_elimination_eq[OF assms, of alloc1 alloc2] by auto
  note el = elim_okD[OF r(2)]
  show ?thesis
  proof (intro exI conjI impI allI)
    fix x assume ok: "(\<forall>n. fst (alloc1 n)) \<and> (\<forall>n. fst (alloc2 n))" and "\<exists>x. sol lo hi len sys x \<and> holds lo hi len x eq"
    then obtain y where y: "sol lo hi len sys y" "holds lo hi len y eq" by blast
    from el(6)[OF el(4)[OF ok] y] el(3) show "sol lo hi len sys' x \<longleftrightarrow> sol lo hi len sys x \<and> holds lo hi len x eq" by blast
  qed (use r(1) el in \<open>blast+\<close>)
qed

theorem elimination_correct_witness:
  "\<exists>sys res sys'. system_alloc True True = Some sys \<and>
     system_add_with_elimination example_tables (\<lambda>_. (True, True)) (\<lambda>_. (False, False)) sys (example_eq 5 [3, 1] [7, 9]) =
       Some (res, sys') \<and> sys_ok 5 7 2 sys'"
proof -
  obtain sys where sys: "system_alloc True True = Some sys" by (simp add: system_alloc_def)
  have "wf_eq 5 7 2 (example_eq 5 [3, 1] [7, 9])" using example_wf by (simp add: example_system_def)
  from elimination_correct[OF example_tables_ok new_system(1)[OF sys example_fit] this,
      of "\<lambda>_. (True, True)" "\<lambda>_. (False, False)"] sys
  show ?thesis by blast
qed

text \<open>
  C1. A symbol that the decoder reports as recovered is the symbol that was sent: when the
  sent symbols satisfy all received equations and the row of an identifier has that identifier
  only, the payload of the normalised row is the sent symbol, also when allocations have failed.
\<close>

theorem decoder_sound:
  assumes "decoder gf ok es sys" "tables_ok gf" "ids_fit lo hi" "\<forall>e \<in> set es. wf_eq lo hi len e"
    "\<forall>e \<in> set es. holds lo hi len x e" "system_get_pivot_for_id sys p = Some (Some e)" "equation_has_one_id e"
  shows "\<exists>e' sys'. system_get_normalized_pivot_for_id gf sys p = Some (Some e', sys') \<and>
    equation_has_one_id e' \<and> equation_get_coef e' p = Some 1 \<and> (\<forall>k < len. to_gf (eq_payload e' ! k) = x p k)"
proof -
  have run: "run_ok lo hi len ok es sys" by (rule decoder_run_ok[OF assms(1-4)])
  have e: "row sys p = Some e" using assms(6) get_pivot_eq[OF run_okD(1)[OF run]] by simp
  obtain e' sys' where e': "system_get_normalized_pivot_for_id gf sys p = Some (Some e', sys')" "good lo hi len e'"
    "scaled len e e'" "pivot e' = p" "last_non_zero_id e' = last_non_zero_id e" "cf e' p = 1"
    by (rule normalized_pivot_eq[OF assms(2) run_okD(1)[OF run] e])
  have one: "equation_has_one_id e'"
    using one_id_cong[OF _ e'(5)] e'(4) sys_row[OF run_okD(1)[OF run] e] assms(7) by simp
  have "sol lo hi len sys x" using run_okD(3)[OF run] assms(5) by blast
  with e have "holds lo hi len x e'" using scaled_facts(2)[OF e'(3)] by (simp add: sol_def)
  then have "x p k = dat e' k" if "k < len" for k using that one_id_holds[OF e'(2) one] e'(4,6) by simp
  moreover have "equation_get_coef e' p = Some 1" using good_get_coef[OF e'(2)] e'(6) by (simp add: one_gf.rep_eq)
  ultimately show ?thesis using e'(1) one by (auto simp: dat_def)
qed

theorem decoder_sound_witness:
  "\<exists>sys e' sys'. decoder example_tables True example_system sys \<and>
     system_get_normalized_pivot_for_id example_tables sys 5 = Some (Some e', sys') \<and>
     to_gf (eq_payload e' ! 0) = example_solution 5 0 \<and> to_gf (eq_payload e' ! 1) = example_solution 5 1"
proof -
  obtain sys where sys: "decoder example_tables True example_system sys" "run_ok 5 7 2 True example_system sys"
    "\<forall>p. 5 \<le> p \<and> p < 7 \<longrightarrow> (\<exists>e. row sys p = Some e \<and> equation_has_one_id e)" by (rule example_run)
  then obtain e where e: "system_get_pivot_for_id sys 5 = Some (Some e)" "equation_has_one_id e"
    using get_pivot_eq[OF run_okD(1)[OF sys(2)]] spec[OF sys(3), of 5] by auto
  from decoder_sound[OF sys(1) example_tables_ok example_fit example_wf example_holds e] sys(1) show ?thesis by auto
qed

text \<open>
  C2. The decoder recovers everything that can be recovered: without failed allocations, a
  symbol has a row with its identifier only if and only if the received equations determine it,
  that is if all assignments of the symbols that satisfy them agree on it.
\<close>

theorem decoder_optimal:
  assumes "decoder gf True es sys" "tables_ok gf" "ids_fit lo hi" "\<forall>e \<in> set es. wf_eq lo hi len e"
    "\<forall>e \<in> set es. holds lo hi len x e" "lo \<le> p" "p < hi" "0 < len"
  shows "(\<exists>e. system_get_pivot_for_id sys p = Some (Some e) \<and> equation_has_one_id e) \<longleftrightarrow>
    (\<forall>y. (\<forall>e \<in> set es. holds lo hi len y e) \<longrightarrow> (\<forall>k < len. y p k = x p k))"
proof -
  have run: "run_ok lo hi len True es sys" by (rule decoder_run_ok[OF assms(1-4)])
  show ?thesis using determined_iff[OF run _ assms(6-8)] assms(5) get_pivot_eq[OF run_okD(1)[OF run]] by simp
qed

theorem decoder_optimal_witness:
  "\<exists>sys e. decoder example_tables True example_system sys \<and> system_get_pivot_for_id sys 5 = Some (Some e) \<and>
     equation_has_one_id e"
proof -
  obtain sys where sys: "decoder example_tables True example_system sys" by (rule example_run)
  from decoder_optimal[OF sys example_tables_ok example_fit example_wf example_holds, of 5] example_unique[of _ 5] sys
  show ?thesis by auto
qed

text \<open>
  C4. Every equation that says something new makes progress: without failed allocations it is
  used in the system, and the number of rows grows, exactly when some assignment satisfies all
  earlier equations and not the new one.
\<close>

theorem decoder_progress:
  assumes "decoder gf True es sys" "tables_ok gf" "ids_fit lo hi" "\<forall>e \<in> set es. wf_eq lo hi len e"
    "\<forall>e \<in> set es. holds lo hi len x e" "wf_eq lo hi len eq" "holds lo hi len x eq" "0 < len"
    "\<forall>n. fst (alloc1 n)" "\<forall>n. fst (alloc2 n)"
  shows "\<exists>res sys'. system_add_with_elimination gf alloc1 alloc2 sys eq = Some (res, sys') \<and>
    (res_used res \<longleftrightarrow> (\<exists>y. (\<forall>e \<in> set es. holds lo hi len y e) \<and> \<not> holds lo hi len y eq)) \<and>
    n_equations sys' = n_equations sys + (if res_used res then 1 else 0)"
proof -
  have run: "run_ok lo hi len True es sys" by (rule decoder_run_ok[OF assms(1-4)])
  note D = run_okD[OF run]
  have x: "sol lo hi len sys x" using D(3) assms(5) by blast
  obtain res sys' where r: "system_add_with_elimination gf alloc1 alloc2 sys eq = Some (res, sys')"
    "elim_ok lo hi len True sys eq (res, sys')"
    using system_add_with_elimination_eq[OF assms(2) D(1) assms(6), of alloc1 alloc2] assms(9,10) by auto
  have "sol lo hi len sys y \<longleftrightarrow> (\<forall>e \<in> set es. holds lo hi len y e)" for y
    using D(3)[of y] D(5)[OF TrueI, of x y] assms(5) by blast
  with used_iff_innovative[OF r(2) D(1) D(4)[OF TrueI] assms(8) x assms(7)] r(1) elim_okD(9)[OF r(2)] show ?thesis by auto
qed

theorem decoder_progress_witness:
  "\<exists>sys res sys'. decoder example_tables True [] sys \<and>
     system_add_with_elimination example_tables (\<lambda>_. (True, True)) (\<lambda>_. (True, True)) sys (example_eq 6 [2] [4, 8]) =
       Some (res, sys') \<and> res_used res \<and> n_equations sys' = n_equations sys + 1"
proof -
  let ?e = "example_eq 6 [2] [4, 8]"
  obtain sys where sys: "decoder example_tables True [] sys"
    using decoder_exists[OF example_tables_ok example_fit, of "[]" 2] by auto
  have e: "wf_eq 5 7 2 ?e" "holds 5 7 2 example_solution ?e" using example_wf example_holds by (simp_all add: example_system_def)
  have r: "{5..<7} = {5, 6 :: nat}" by auto
  have "\<not> holds 5 7 2 (\<lambda>_ _. 0) ?e" unfolding holds_def r by (auto simp: cf_example dat_example intro: exI[of _ 0])
  with decoder_progress[OF sys example_tables_ok example_fit _ _ e, of "\<lambda>_. (True, True)" "\<lambda>_. (True, True)"] sys
  show ?thesis by force
qed

text \<open>
  C11. With as many rows as there are identifiers, and no failed allocation, every symbol is
  recovered.
\<close>

theorem full_rank_decodes:
  assumes "decoder gf True es sys" "tables_ok gf" "ids_fit lo hi" "\<forall>e \<in> set es. wf_eq lo hi len e"
    "n_equations sys = int (hi - lo)" "lo \<le> p" "p < hi"
  shows "\<exists>e. system_get_pivot_for_id sys p = Some (Some e) \<and> equation_has_one_id e"
proof -
  have run: "run_ok lo hi len True es sys" by (rule decoder_run_ok[OF assms(1-4)])
  note D = run_okD[OF run]
  show ?thesis using full_rank_one_id[OF D(1) D(4)[OF TrueI] assms(5-7)] get_pivot_eq[OF D(1)] by metis
qed

theorem full_rank_decodes_witness:
  "\<exists>sys e. decoder example_tables True example_system sys \<and> n_equations sys = 2 \<and>
     system_get_pivot_for_id sys 6 = Some (Some e) \<and> equation_has_one_id e"
proof -
  obtain sys where sys: "decoder example_tables True example_system sys" "run_ok 5 7 2 True example_system sys"
    "\<forall>p. 5 \<le> p \<and> p < 7 \<longrightarrow> (\<exists>e. row sys p = Some e \<and> equation_has_one_id e)" by (rule example_run)
  have "n_equations sys = int (7 - 5)" by (rule all_rows_rank[OF run_okD(1)[OF sys(2)]]) (use sys(3) in fastforce)
  with full_rank_decodes[OF sys(1) example_tables_ok example_fit example_wf, of 6] sys(1) show ?thesis by auto
qed

end
