(* ===== verification/LinSystemRemove.thy ===== *)
theory LinSystemRemove
  imports Decoding
begin

text \<open>
  Removing the rows up to an identifier from a system, \<open>remove_all_pivots_until\<close> and
  \<open>re_adjust_system_to\<close>.
\<close>

section \<open>Removing rows\<close>

definition removal :: "nat \<Rightarrow> nat \<Rightarrow> nat \<Rightarrow> equation option list \<Rightarrow> nat \<Rightarrow> equation option list \<Rightarrow> nat \<Rightarrow> bool" where
  "removal first cur i es n es' n' \<longleftrightarrow> length es' = length es \<and>
     (\<forall>j < length es. es' ! j = (if cur \<le> first + j \<and> first + j \<le> i then None else es ! j)) \<and>
     n \<le> n' \<and> n' + count_some es' = n + count_some es \<and> (n' = n \<longrightarrow> es' = es)"

lemma count_some_clear:
  "i < length xs \<Longrightarrow> xs ! i = Some v \<Longrightarrow> Suc (count_some (xs[i := None])) = count_some xs"
  using count_some_update[of i "xs[i := None]" v] list_update_id[of xs i] by simp

lemma list_ex_count: "list_ex (\<lambda>e. e \<noteq> None) xs \<longleftrightarrow> 0 < count_some xs"
  by (auto simp: list_ex_iff count_some_def filter_empty_conv)

lemma removal_done: "i < cur \<Longrightarrow> removal first cur i es n es n"
  by (auto simp: removal_def)

lemma removal_step:
  assumes r: "removal first (Suc cur) i (es[cur - first := None]) n' es' n''" and cur: "first \<le> cur" "cur \<le> i"
    and n': "n' = (if cur - first < length es \<and> es ! (cur - first) \<noteq> None then n + 1 else n)"
  shows "removal first cur i es n es' n''"
proof -
  let ?k = "cur - first"
  have same: "es[?k := None] = es" if "n' = n"
    using that n' by (cases "?k < length es") (auto simp: list_update_same_conv list_update_beyond split: if_splits)
  have cnt: "n' + count_some (es[?k := None]) = n + count_some es"
  proof (cases "n' = n")
    case True
    with same show ?thesis by simp
  next
    case False
    with n' have "?k < length es" "es ! ?k \<noteq> None" "n' = n + 1" by (auto split: if_splits)
    with count_some_clear[of ?k es] show ?thesis by auto
  qed
  have "n'' = n \<longrightarrow> es' = es"
  proof
    assume "n'' = n"
    moreover have "n \<le> n'" "n' \<le> n''" using n' r by (auto simp: removal_def)
    ultimately show "es' = es" using r same by (simp add: removal_def)
  qed
  moreover have "es' ! j = (if cur \<le> first + j \<and> first + j \<le> i then None else es ! j)" if "j < length es" for j
  proof -
    have "es' ! j = (if Suc cur \<le> first + j \<and> first + j \<le> i then None else es[?k := None] ! j)"
      using r that by (simp add: removal_def)
    moreover have "cur \<le> first + j \<longleftrightarrow> j = ?k \<or> Suc cur \<le> first + j" using cur by linarith
    ultimately show ?thesis using that cur by (cases "j = ?k") simp_all
  qed
  moreover have "n \<le> n''" "n'' + count_some es' = n + count_some es" "length es' = length es"
    using r cnt n' by (simp_all add: removal_def split: if_splits)
  ultimately show ?thesis by (simp add: removal_def)
qed

lemma remove_loop_eq:
  assumes "length es = max_equations sys" "first_id_id sys + max_equations sys < 2 ^ 32" "i < 2 ^ 32 - 1"
    "first_id_id sys \<le> cur"
  shows "\<exists>es' n'. remove_loop (sys\<lparr>equations := es\<rparr>) cur i n = Some (n', sys\<lparr>equations := es'\<rparr>) \<and>
    removal (first_id_id sys) cur i es n es' n'"
  using assms(1,4)
proof (induction "Suc i - cur" arbitrary: cur es n)
  case 0
  then have "remove_loop (sys\<lparr>equations := es\<rparr>) cur i n = Some (n, sys\<lparr>equations := es\<rparr>)"
    by (subst remove_loop.simps) simp
  with removal_done[of i cur] 0 show ?case by auto
next
  case (Suc m)
  let ?f = "first_id_id sys" and ?k = "cur - first_id_id sys"
  let ?n = "if ?k < length es \<and> es ! ?k \<noteq> None then n + 1 else n"
  have cur: "cur \<le> i" "u32_add cur (Suc 0) = Suc cur" using Suc.hyps(2) assms(3) by (simp_all add: wrap_simps)
  have m: "m = Suc i - Suc cur" using Suc.hyps(2) by simp
  have u: "u32_add (max_equations sys) ?f = ?f + max_equations sys" using assms(2) by (simp add: wrap_simps)
  have k: "u32_sub cur ?f = ?k" using Suc.prems(2) cur(1) assms(3) by (simp add: wrap_simps)
  have "system_remove_pivot_for_id (sys\<lparr>equations := es\<rparr>) cur =
      Some (if ?k < length es then es ! ?k else None, sys\<lparr>equations := es[?k := None]\<rparr>)"
  proof (cases "?k < length es")
    case True
    then have "in_system (sys\<lparr>equations := es\<rparr>) cur" using Suc.prems by (auto simp: in_system_def u)
    then show ?thesis using True list_update_id[of es ?k]
      by (cases "es ! ?k") (simp_all add: system_remove_pivot_for_id_def k)
  next
    case False
    then have "\<not> in_system (sys\<lparr>equations := es\<rparr>) cur" using Suc.prems by (auto simp: in_system_def u)
    with False show ?thesis by (simp add: system_remove_pivot_for_id_def list_update_beyond)
  qed
  then have "remove_loop (sys\<lparr>equations := es\<rparr>) cur i n = remove_loop (sys\<lparr>equations := es[?k := None]\<rparr>) (Suc cur) i ?n"
    by (subst remove_loop.simps) (auto simp: cur)
  moreover obtain es' n' where "remove_loop (sys\<lparr>equations := es[?k := None]\<rparr>) (Suc cur) i ?n = Some (n', sys\<lparr>equations := es'\<rparr>)"
    "removal ?f (Suc cur) i (es[?k := None]) ?n es' n'"
    using Suc.hyps(1)[OF m, of "es[?k := None]" ?n] Suc.prems by auto
  ultimately show ?case using removal_step[OF _ Suc.prems(2) cur(1) refl] by auto
qed

definition rows_above :: "nat \<Rightarrow> system \<Rightarrow> nat \<Rightarrow> equation option" where
  "rows_above i sys p = (if p \<le> i then None else row sys p)"

lemma empty_system_ok:
  assumes "sys_ok lo hi len sys" "max_equations s = max_equations sys" "equations s = replicate (max_equations s) None"
    "n_equations s = 0" "first_id_id s = SYMBOL_ID_NONE" "last_symbol_id s = SYMBOL_ID_NONE"
  shows "sys_ok lo hi len s" "row s p = None"
proof -
  show r: "row s p = None" for p using assms(3) by (auto simp: row_def)
  show "sys_ok lo hi len s" using assms r by (simp add: sys_ok_defs count_some_def)
qed

lemma remove_all_eq:
  assumes sys: "sys_ok lo hi len sys" and i: "i < 2 ^ 32 - 1"
  shows "\<exists>sys'. remove_all_pivots_until sys i = Some sys' \<and> sys_ok lo hi len sys' \<and>
    (\<forall>p. row sys' p = rows_above i sys p) \<and> max_equations sys' = max_equations sys"
proof (cases "first_id_id sys = SYMBOL_ID_NONE")
  case True
  have "remove_all_pivots_until sys i = Some sys"
    using True i by (simp add: remove_all_pivots_until_def remove_loop.simps[of sys] SYMBOL_ID_NONE_def)
  moreover have "row sys p = None" for p using sys True by (auto simp: row_def sys_ok_defs)
  ultimately show ?thesis using sys by (simp add: rows_above_def)
next
  case False
  let ?f = "first_id_id sys" and ?m = "max_equations sys"
  note sf = shape_facts[OF conjunct1[OF sys[unfolded sys_ok_def]] False]
  obtain es n where r: "remove_loop sys ?f i 0 = Some (n, sys\<lparr>equations := es\<rparr>)"
    "removal ?f ?f i (equations sys) 0 es n"
    using remove_loop_eq[OF sf(6) _ i order_refl, of 0] sf by auto
  have es: "length es = ?m" "\<And>j. j < ?m \<Longrightarrow> es ! j = (if ?f + j \<le> i then None else equations sys ! j)"
    "n + count_some es = count_some (equations sys)" "n = 0 \<longrightarrow> es = equations sys"
    using r(2) sf(6) by (auto simp: removal_def)
  define s where "s = sys\<lparr>equations := es, n_equations := n_equations sys - int n\<rparr>"
  have rem: "remove_all_pivots_until sys i = Some (if n = 0 then s else re_adjust_system_to s (u32_add i 1))"
    using r(1) by (simp add: remove_all_pivots_until_def s_def)
  have rs: "row s p = rows_above i sys p" for p
    using es(2)[of "p - ?f"] by (auto simp: row_def rows_above_def s_def)
  have s: "sys_ok lo hi len s"
    using sys False es sf rs unfolding sys_ok_defs by (simp add: s_def rows_above_def)
  show ?thesis
  proof (cases "n = 0")
    case True
    with rem s rs show ?thesis by (simp add: s_def)
  next
    case n: False
    have fi: "?f \<le> i"
    proof (rule ccontr)
      assume "\<not> ?f \<le> i"
      with es sf(6) have "es = equations sys" by (intro nth_equalityI) auto
      with es(3) n show False by simp
    qed
    define off where "off = Suc i - ?f"
    have u: "u32_add i 1 = Suc i" "u32_sub (Suc i) ?f = off" "0 < off"
      using i fi by (simp_all add: wrap_simps off_def)
    let ?e = "s\<lparr>equations := replicate ?m None, n_equations := 0, first_id_id := SYMBOL_ID_NONE, last_symbol_id := SYMBOL_ID_NONE\<rparr>"
    have empty: "sys_ok lo hi len ?e" "row ?e p = None" for p
      using empty_system_ok[OF s, of ?e] by (simp_all add: s_def)
    note readj = re_adjust_system_to_def[of s "Suc i"] Let_def
    show ?thesis
    proof (cases "off > ?m \<or> Suc i > last_symbol_id sys")
      case True
      then have "re_adjust_system_to s (Suc i) = ?e"
        unfolding readj using u by (simp add: s_def)
      moreover have "rows_above i sys p = None" for p
      proof (rule ccontr)
        assume "rows_above i sys p \<noteq> None"
        then obtain e where e: "row sys p = Some e" "i < p" by (auto simp: rows_above_def split: if_splits)
        with sys_row[OF sys e(1)] good_pivot(4)[of lo hi len e] have "p \<le> last_symbol_id sys" by auto
        with e row_first[OF sys e(1)] True show False by (auto simp: off_def)
      qed
      ultimately show ?thesis using rem n u empty by (simp add: s_def)
    next
      case False
      let ?es = "drop off es @ replicate off None"
      let ?s = "s\<lparr>equations := ?es, first_id_id := Suc i\<rparr>"
      have len: "length ?es = ?m" using False es(1) by simp
      have front: "es ! j = None" if "j < off" for j using that es(2)[of j] False fi by (auto simp: off_def)
      have cnt: "count_some ?es = count_some es"
      proof -
        have "count_some (take off es) = 0" using front by (intro count_some_0) simp
        with count_some_split[of es off] show ?thesis by (simp add: count_some_def)
      qed
      have rows: "row ?s p = rows_above i sys p" for p
      proof (cases "i < p")
        case True
        then have "row ?s p = row s p"
          using es(1) False fi by (auto simp: row_def s_def nth_append off_def)
        then show ?thesis using rs by simp
      qed (simp add: row_def rows_above_def)
      have found: "list_ex (\<lambda>e. e \<noteq> None) ?es \<longleftrightarrow> 0 < count_some es"
        unfolding list_ex_count cnt by simp
      have ns: "n_equations s = int (count_some es)" using sf(7) es(3) by (simp add: s_def)
      have adj: "re_adjust_system_to s (Suc i) = (if 0 < count_some es then ?s else ?e)"
        unfolding readj using u False found ns by (simp add: s_def)
      show ?thesis
      proof (cases "0 < count_some es")
        case True
        have "Suc i \<noteq> SYMBOL_ID_NONE" using False sf by (auto simp: SYMBOL_ID_NONE_def)
        then have "sys_ok lo hi len ?s"
          using s rows rs fi False sf len cnt ns unfolding sys_ok_defs by (simp add: s_def)
        with rem n u adj True rows show ?thesis by (simp add: s_def)
      next
        case c: False
        then have "es ! j = None" if "j < length es" for j
          using count_some_full[of es 0 j] that by simp
        then have "row s p = None" for p using es(1) by (auto simp: row_def s_def)
        with rem n u adj c empty rs show ?thesis by (simp add: s_def)
      qed
    qed
  qed
qed

text \<open>
  C10. Forgetting the symbols up to an identifier ends, keeps the invariant of the system and
  removes exactly the rows with a pivot up to that identifier, also when the array has to be
  moved or becomes empty.
\<close>

theorem remove_all_pivots_correct:
  assumes "sys_ok lo hi len sys" "i < 2 ^ 32 - 1"
  shows "\<exists>sys'. remove_all_pivots_until sys i = Some sys' \<and> sys_ok lo hi len sys' \<and>
    max_equations sys' = max_equations sys \<and>
    (\<forall>p. system_get_pivot_for_id sys' p = (if p \<le> i then Some None else system_get_pivot_for_id sys p))"
proof -
  obtain sys' where "remove_all_pivots_until sys i = Some sys'" "sys_ok lo hi len sys'"
    "\<forall>p. row sys' p = rows_above i sys p" "max_equations sys' = max_equations sys" using remove_all_eq[OF assms] by blast
  moreover from this have "system_get_pivot_for_id sys' p = (if p \<le> i then Some None else system_get_pivot_for_id sys p)" for p
    using get_pivot_eq[OF assms(1)] get_pivot_eq[of lo hi len sys'] by (simp add: rows_above_def)
  ultimately show ?thesis by blast
qed

theorem remove_all_pivots_correct_witness:
  "\<exists>sys sys'. decoder example_tables True example_system sys \<and> remove_all_pivots_until sys 5 = Some sys' \<and>
     system_get_pivot_for_id sys' 5 = Some None \<and> system_get_pivot_for_id sys' 6 = system_get_pivot_for_id sys 6"
proof -
  obtain sys where sys: "decoder example_tables True example_system sys" "run_ok 5 7 2 True example_system sys"
    by (rule example_run)
  from remove_all_pivots_correct[OF run_okD(1)[OF sys(2)], of 5] sys(1) show ?thesis by force
qed

end
