(* ===== verification/ArrayList.thy ===== *)
theory ArrayList
  imports Prelude
begin

text \<open>
  The growing array of the plugin, \<^verbatim>\<open>online_rlc_gf256/headers/arraylist.h\<close>. The array is a list of
  the allocated elements, \<open>None\<close> the null pointer. An element is a number or a pointer; \<open>z\<close> is the
  value 0 of either. \<open>None\<close> as result of an operation is an access outside of the array.
\<close>

section \<open>Operations\<close>

record 'a arraylist =
  al_array :: "'a list option"
  al_max_size :: nat
  al_current_size :: nat

definition arraylist_is_empty :: "'a arraylist \<Rightarrow> bool" where
  "arraylist_is_empty al \<longleftrightarrow> al_current_size al = 0"

definition arraylist_size :: "'a arraylist \<Rightarrow> nat" where
  "arraylist_size al = al_current_size al"

text \<open>The allocation is not tested; \<open>junk\<close> is what the allocated memory holds.\<close>

definition arraylist_init :: "bool \<Rightarrow> 'a \<Rightarrow> nat \<Rightarrow> 'a arraylist" where
  "arraylist_init alloc junk initial_size =
     \<lparr>al_array = (if alloc then Some (replicate initial_size junk) else None),
      al_max_size = initial_size, al_current_size = 0\<rparr>"

definition arraylist_reset :: "'a arraylist \<Rightarrow> 'a arraylist" where
  "arraylist_reset al = al\<lparr>al_current_size := 0\<rparr>"

text \<open>The element at an index that has not been checked.\<close>

definition al_write :: "'a arraylist \<Rightarrow> nat \<Rightarrow> 'a \<Rightarrow> 'a arraylist option" where
  "al_write al i v =
     (case al_array al of
        None \<Rightarrow> None
      | Some xs \<Rightarrow> if i < length xs then Some (al\<lparr>al_array := Some (xs[i := v])\<rparr>) else None)"

definition al_read :: "'a arraylist \<Rightarrow> nat \<Rightarrow> 'a option" where
  "al_read al i = (case al_array al of None \<Rightarrow> None | Some xs \<Rightarrow> rd xs i)"

text \<open>A failed reallocation leaves the null pointer behind.\<close>

definition arraylist_push :: "bool \<Rightarrow> 'a \<Rightarrow> 'a arraylist \<Rightarrow> 'a \<Rightarrow> (int \<times> 'a arraylist) option" where
  "arraylist_push alloc junk al v =
     (let grow = (al_current_size al = al_max_size al);
          xs = (case al_array al of None \<Rightarrow> [] | Some xs \<Rightarrow> xs);
          new_size = 2 * al_max_size al
      in if grow \<and> \<not> alloc then Some (-1, al\<lparr>al_array := None\<rparr>)
      else do {
        let al = (if grow then al\<lparr>al_array := Some (take new_size xs @ replicate (new_size - length xs) junk),
          al_max_size := new_size\<rparr> else al);
        al \<leftarrow> al_write al (al_current_size al) v;
        Some (0, al\<lparr>al_current_size := al_current_size al + 1\<rparr>)
      })"

definition arraylist_shift_left :: "'a arraylist \<Rightarrow> nat \<Rightarrow> (int \<times> 'a arraylist) option" where
  "arraylist_shift_left al n =
     (if n = 0 then Some (0, al)
      else if n > al_current_size al then Some (-1, al)
      else if n = al_current_size al then Some (0, al\<lparr>al_current_size := 0\<rparr>)
      else do {
        xs \<leftarrow> al_array al;
        xs \<leftarrow> memcpy_at xs 0 xs n (al_current_size al - n);
        Some (0, al\<lparr>al_array := Some xs, al_current_size := al_current_size al - n\<rparr>)
      })"

function al_index_loop :: "'a arraylist \<Rightarrow> 'a \<Rightarrow> nat \<Rightarrow> int option" where
  "al_index_loop al v i =
     (if i < al_current_size al then do {
        x \<leftarrow> al_read al i;
        (if x = v then Some (int i) else al_index_loop al v (i + 1))
      } else Some (-1))"
  by pat_completeness auto
termination by (relation "measure (\<lambda>(al, v, i). al_current_size al - i)") auto

definition arraylist_index :: "'a arraylist \<Rightarrow> 'a \<Rightarrow> int option" where
  "arraylist_index al v = al_index_loop al v 0"

definition arraylist_get :: "'a \<Rightarrow> 'a arraylist \<Rightarrow> int \<Rightarrow> 'a option" where
  "arraylist_get z al index =
     (if index < 0 \<or> index \<ge> int (al_current_size al) then Some z else al_read al (nat index))"

definition arraylist_get_first :: "'a \<Rightarrow> 'a arraylist \<Rightarrow> 'a option" where
  "arraylist_get_first z al = (if al_current_size al = 0 then Some z else arraylist_get z al 0)"

definition arraylist_get_last :: "'a \<Rightarrow> 'a arraylist \<Rightarrow> 'a option" where
  "arraylist_get_last z al =
     (if al_current_size al = 0 then Some z else arraylist_get z al (int (al_current_size al) - 1))"

definition arraylist_set :: "'a arraylist \<Rightarrow> int \<Rightarrow> 'a \<Rightarrow> (int \<times> 'a arraylist) option" where
  "arraylist_set al index v =
     (if index < 0 \<or> index \<ge> int (al_current_size al) then Some (-1, al)
      else map_option (\<lambda>al. (0, al)) (al_write al (nat index) v))"

definition arraylist_pop :: "'a \<Rightarrow> 'a arraylist \<Rightarrow> ('a \<times> 'a arraylist) option" where
  "arraylist_pop z al =
     (if al_current_size al = 0 then Some (z, al)
      else let n = al_current_size al - 1 in
        map_option (\<lambda>v. (v, al\<lparr>al_current_size := n\<rparr>)) (al_read al n))"

declare al_index_loop.simps [simp del]

section \<open>The list of the elements\<close>

definition al_list :: "'a arraylist \<Rightarrow> 'a list" where
  "al_list al = (case al_array al of None \<Rightarrow> [] | Some xs \<Rightarrow> take (al_current_size al) xs)"

definition al_ok :: "'a arraylist \<Rightarrow> bool" where
  "al_ok al \<longleftrightarrow> (\<exists>xs. al_array al = Some xs \<and> length xs = al_max_size al) \<and>
     0 < al_max_size al \<and> al_current_size al \<le> al_max_size al"

lemma al_length: "al_ok al \<Longrightarrow> length (al_list al) = al_current_size al"
  by (auto simp: al_ok_def al_list_def)

lemma al_read_eq: "al_ok al \<Longrightarrow> i < al_current_size al \<Longrightarrow> al_read al i = Some (al_list al ! i)"
  by (auto simp: al_ok_def al_list_def al_read_def)

lemma init_eq: "0 < n \<Longrightarrow> al_ok (arraylist_init True junk n) \<and> al_list (arraylist_init True junk n) = []"
  by (simp add: al_ok_def al_list_def arraylist_init_def)

lemma reset_eq: "al_ok al \<Longrightarrow> al_ok (arraylist_reset al) \<and> al_list (arraylist_reset al) = []"
  by (auto simp: al_ok_def al_list_def arraylist_reset_def)

lemma push_eq:
  assumes "al_ok al" "alloc"
  obtains al' where "arraylist_push alloc junk al v = Some (0, al')" "al_ok al'" "al_list al' = al_list al @ [v]"
proof -
  obtain xs where xs: "al_array al = Some xs" "length xs = al_max_size al" "0 < al_max_size al" "al_current_size al \<le> al_max_size al"
    using assms by (auto simp: al_ok_def)
  let ?n = "al_current_size al"
  let ?ys = "if ?n = al_max_size al then xs @ replicate (al_max_size al) junk else xs"
  let ?al = "al\<lparr>al_array := Some (?ys[?n := v]), al_max_size := length ?ys, al_current_size := ?n + 1\<rparr>"
  have n: "?n < length ?ys" "take ?n ?ys = take ?n xs" using xs by auto
  have "arraylist_push alloc junk al v = Some (0, ?al)"
    using assms xs by (auto simp: arraylist_push_def al_write_def Let_def mult_2)
  moreover have "al_ok ?al" using xs n by (auto simp: al_ok_def)
  moreover have "al_list ?al = al_list al @ [v]"
    using xs n by (simp add: al_list_def take_Suc_conv_app_nth)
  ultimately show thesis by (rule that)
qed

lemma index_loop_eq:
  assumes "al_ok al" "i \<le> al_current_size al"
  shows "al_index_loop al v i =
    Some (if v \<in> set (drop i (al_list al)) then int (LEAST k. i \<le> k \<and> k < al_current_size al \<and> al_list al ! k = v) else -1)"
  using assms(2)
proof (induction "al_current_size al - i" arbitrary: i)
  case 0
  then show ?case using al_length[OF assms(1)] by (simp add: al_index_loop.simps)
next
  case (Suc m)
  then have i: "i < al_current_size al" by simp
  have d: "drop i (al_list al) = al_list al ! i # drop (i + 1) (al_list al)"
    using i al_length[OF assms(1)] by (simp add: Cons_nth_drop_Suc)
  show ?case
  proof (cases "al_list al ! i = v")
    case True
    then have "(LEAST k. i \<le> k \<and> k < al_current_size al \<and> al_list al ! k = v) = i" using i by (intro Least_equality) auto
    with True i d show ?thesis by (subst al_index_loop.simps) (simp add: al_read_eq[OF assms(1)])
  next
    case False
    then have "(LEAST k. i \<le> k \<and> k < al_current_size al \<and> al_list al ! k = v) =
        (LEAST k. i + 1 \<le> k \<and> k < al_current_size al \<and> al_list al ! k = v)"
      by (intro arg_cong[where f = Least]) (auto simp: fun_eq_iff Suc_le_eq le_less)
    moreover have "al_index_loop al v i = al_index_loop al v (i + 1)"
      using False i by (subst al_index_loop.simps) (simp add: al_read_eq[OF assms(1)])
    ultimately show ?thesis using Suc.hyps(1)[of "i + 1"] Suc.hyps(2) i d False by simp
  qed
qed

lemma index_eq:
  assumes "al_ok al" "distinct (al_list al)" "k < length (al_list al)"
  shows "arraylist_index al (al_list al ! k) = Some (int k)"
proof -
  have "(LEAST j. 0 \<le> j \<and> j < al_current_size al \<and> al_list al ! j = al_list al ! k) = k"
    using assms by (intro Least_equality) (auto simp: al_length nth_eq_iff_index_eq)
  then show ?thesis using index_loop_eq[OF assms(1), of 0] assms(3) by (simp add: arraylist_index_def)
qed

lemma index_absent: "al_ok al \<Longrightarrow> v \<notin> set (al_list al) \<Longrightarrow> arraylist_index al v = Some (-1)"
  by (simp add: arraylist_index_def index_loop_eq)

lemma get_eq: "al_ok al \<Longrightarrow> arraylist_get z al i =
    Some (if 0 \<le> i \<and> nat i < length (al_list al) then al_list al ! nat i else z)"
  by (auto simp: arraylist_get_def al_read_eq al_length)

lemma get_first_eq: "al_ok al \<Longrightarrow> arraylist_get_first z al = Some (if al_list al = [] then z else hd (al_list al))"
  using al_length[of al] by (auto simp: arraylist_get_first_def get_eq hd_conv_nth)

lemma get_last_eq: "al_ok al \<Longrightarrow> arraylist_get_last z al = Some (if al_list al = [] then z else last (al_list al))"
  using al_length[of al] by (auto simp: arraylist_get_last_def get_eq last_conv_nth nat_diff_distrib)

lemma set_eq:
  assumes "al_ok al" "i < length (al_list al)"
  obtains al' where "arraylist_set al (int i) v = Some (0, al')" "al_ok al'" "al_list al' = (al_list al)[i := v]"
proof -
  obtain xs where xs: "al_array al = Some xs" "length xs = al_max_size al" "al_current_size al \<le> al_max_size al" "i < al_current_size al"
    using assms by (auto simp: al_ok_def al_length)
  show thesis
    by (rule that[of "al\<lparr>al_array := Some (xs[i := v])\<rparr>"])
      (use xs assms in \<open>auto simp: arraylist_set_def al_write_def al_ok_def al_list_def take_update_swap\<close>)
qed

lemma shift_left_eq:
  assumes "al_ok al" "n \<le> length (al_list al)"
  obtains al' where "arraylist_shift_left al n = Some (0, al')" "al_ok al'" "al_list al' = drop n (al_list al)"
proof -
  obtain xs where xs: "al_array al = Some xs" "length xs = al_max_size al" "0 < al_max_size al" "al_current_size al \<le> al_max_size al"
    "n \<le> al_current_size al" using assms by (auto simp: al_ok_def al_length)
  let ?m = "al_current_size al - n"
  consider "n = 0" | "n = al_current_size al" "n \<noteq> 0" | "n \<noteq> 0" "n < al_current_size al" using xs(5) by linarith
  then show thesis
  proof cases
    case 1
    then show thesis using assms by (intro that[of al]) (simp_all add: arraylist_shift_left_def)
  next
    case 2
    then show thesis using assms xs
      by (intro that[of "al\<lparr>al_current_size := 0\<rparr>"]) (auto simp: arraylist_shift_left_def al_ok_def al_list_def)
  next
    case 3
    let ?ys = "overlay xs 0 (take ?m (drop n xs))"
    have ys: "length ?ys = length xs" "take ?m ?ys = drop n (take (al_current_size al) xs)"
      using xs 3 by (simp_all add: overlay_def drop_take)
    show thesis using assms xs 3 ys
      by (intro that[of "al\<lparr>al_array := Some ?ys, al_current_size := ?m\<rparr>"])
        (auto simp: arraylist_shift_left_def memcpy_at_def al_ok_def al_list_def)
  qed
qed

end
