(* ===== verification/FecWire.thy ===== *)
theory FecWire
  imports EquationCorrect IntFormat
begin

text \<open>
  Integers and frames of the erasure-correction plugin on the wire: \<^verbatim>\<open>simple_fec/utils.h\<close> and
  the source symbol identifiers, repair frames and receive-window frames of
  \<^verbatim>\<open>simple_fec/window_framework/types.h\<close>.
\<close>

section \<open>Integers\<close>

text \<open>Big-endian integers of \<open>n\<close> bytes at an offset of a buffer; both use a local buffer of 8 bytes.\<close>

definition decode_un :: "bytes \<Rightarrow> nat \<Rightarrow> nat \<Rightarrow> u64 option" where
  "decode_un bytes off n =
     (if n \<le> 8 \<and> off + n \<le> length bytes
      then Some (foldl (\<lambda>retval b. push_bit 8 retval + ucast b) 0 (take n (drop off bytes))) else None)"

definition encode_un :: "u64 \<Rightarrow> bytes \<Rightarrow> nat \<Rightarrow> nat \<Rightarrow> bytes option" where
  "encode_un to_encode bytes off n =
     (if n \<le> 8 then memcpy_at bytes off (map (\<lambda>i. byte_at (n - i - 1) to_encode) [0..<n]) 0 n else None)"

definition decode_u16 :: "bytes \<Rightarrow> nat \<Rightarrow> u16 option" where
  "decode_u16 bytes off = map_option ucast (decode_un bytes off 2)"

definition decode_u32 :: "bytes \<Rightarrow> nat \<Rightarrow> u32 option" where
  "decode_u32 bytes off = map_option ucast (decode_un bytes off 4)"

definition decode_u64 :: "bytes \<Rightarrow> nat \<Rightarrow> u64 option" where
  "decode_u64 bytes off = decode_un bytes off 8"

definition encode_u16 :: "u16 \<Rightarrow> bytes \<Rightarrow> nat \<Rightarrow> bytes option" where
  "encode_u16 to_encode bytes off = encode_un (ucast to_encode) bytes off 2"

definition encode_u32 :: "u32 \<Rightarrow> bytes \<Rightarrow> nat \<Rightarrow> bytes option" where
  "encode_u32 to_encode bytes off = encode_un (ucast to_encode) bytes off 4"

definition encode_u64 :: "u64 \<Rightarrow> bytes \<Rightarrow> nat \<Rightarrow> bytes option" where
  "encode_u64 to_encode bytes off = encode_un to_encode bytes off 8"

section \<open>Symbols\<close>

text \<open>
  A new repair symbol; \<open>junk\<close> is what the allocated payload holds. The second result is the null
  pointer of a failed allocation.
\<close>

definition create_window_repair_symbol :: "bool \<Rightarrow> bool \<Rightarrow> u8 \<Rightarrow> nat \<Rightarrow> window_repair_symbol option" where
  "create_window_repair_symbol alloc_rs alloc_payload junk symbol_size =
     (if \<not> alloc_rs \<or> \<not> alloc_payload then None
      else Some \<lparr>fss = [0, 0, 0, 0], first_id = 0, n_protected_symbols = 0, is_fb_fec = False,
        payload_length = symbol_size,
        repair_payload = overlay (replicate (align symbol_size) junk) 0 (replicate symbol_size 0)\<rparr>)"

section \<open>Frames\<close>

datatype error = PICOQUIC_ERROR_FRAME_BUFFER_TOO_SMALL | PICOQUIC_ERROR_MEMORY | ERROR_INCONSISTENT_SIZE
  | ERROR_ID_TOO_LARGE | ERROR_NEGATIVE_WINDOW | ERROR_NO_SOURCE_SYMBOLS

record window_repair_frame =
  rf_is_fb_fec :: bool
  rf_fss :: bytes
  rf_first_protected_symbol :: nat
  rf_n_protected_symbols :: nat
  rf_n_repair_symbols :: nat
  rf_symbols :: "window_repair_symbol list"

definition REPAIR_FRAME_HEADER_SIZE :: nat where "REPAIR_FRAME_HEADER_SIZE = 4 + 4 + 2 + 2"

text \<open>An identifier takes four bytes that look like a variable-length integer.\<close>

definition serialize_window_source_symbol_id :: "bytes \<Rightarrow> nat \<Rightarrow> nat \<Rightarrow> nat \<Rightarrow> (error + bytes \<times> nat) option" where
  "serialize_window_source_symbol_id out off buffer_length i =
     (if buffer_length < 4 then Some (Inl PICOQUIC_ERROR_FRAME_BUFFER_TOO_SMALL)
      else map_option (\<lambda>out. Inr (out, 4)) (encode_un (of_nat ((i AND 0x3FFFFFFF) OR 0x80000000)) out off 4))"

definition decode_window_source_symbol_id :: "bytes \<Rightarrow> nat \<Rightarrow> nat \<Rightarrow> (error + nat \<times> nat) option" where
  "decode_window_source_symbol_id bytes off buffer_length =
     (if buffer_length < 4 then Some (Inl PICOQUIC_ERROR_MEMORY)
      else map_option (\<lambda>w. Inr (unat (w AND 0x3FFFFFFF), 4)) (decode_u32 bytes off))"

definition serialize_window_fpi_frame :: "bytes \<Rightarrow> nat \<Rightarrow> nat \<Rightarrow> (error + bytes \<times> nat) option" where
  "serialize_window_fpi_frame out buffer_length ssid =
     serialize_window_source_symbol_id out 0 buffer_length (ssid mod 2 ^ 32)"

text \<open>
  The loop over the symbols of a frame; \<open>off\<close> is the number of bytes consumed so far. The size of
  all symbols is computed as an \<open>int\<close>, whose overflow is undefined.
\<close>

fun serialize_symbols :: "bytes \<Rightarrow> nat \<Rightarrow> window_repair_symbol list \<Rightarrow> nat \<Rightarrow> (error + bytes \<times> nat) option" where
  "serialize_symbols out off [] symbol_size = Some (Inr (out, off))"
| "serialize_symbols out off (rs # rss) symbol_size =
     (if payload_length rs \<noteq> symbol_size then Some (Inl ERROR_INCONSISTENT_SIZE)
      else do {
        out \<leftarrow> memcpy_at out off (repair_payload rs) 0 symbol_size;
        serialize_symbols out (off + symbol_size) rss symbol_size
      })"

definition serialize_window_repair_frame ::
  "bytes \<Rightarrow> nat \<Rightarrow> window_repair_frame \<Rightarrow> nat \<Rightarrow> (error + bytes \<times> nat) option" where
  "serialize_window_repair_frame out buffer_length rf symbol_size =
     (if rf_n_repair_symbols rf * symbol_size \<ge> 2 ^ 31 then None
      else if buffer_length < REPAIR_FRAME_HEADER_SIZE + rf_n_repair_symbols rf * symbol_size
      then Some (Inl PICOQUIC_ERROR_FRAME_BUFFER_TOO_SMALL)
      else do {
        out \<leftarrow> memcpy_at out 0 (rf_fss rf) 0 4;
        let consumed = 4;
        r \<leftarrow> serialize_window_source_symbol_id out consumed buffer_length (rf_first_protected_symbol rf);
        (case r of
           Inl err \<Rightarrow> Some (Inl err)
         | Inr (out, tmp) \<Rightarrow> do {
             let consumed = consumed + tmp;
             out \<leftarrow> encode_un (of_nat (rf_n_protected_symbols rf)) out consumed 2;
             let consumed = consumed + 2;
             out \<leftarrow> encode_un (of_nat (rf_n_repair_symbols rf)) out consumed 2;
             let consumed = consumed + 2;
             (if rf_n_repair_symbols rf > length (rf_symbols rf) then None
              else serialize_symbols out consumed (take (rf_n_repair_symbols rf) (rf_symbols rf)) symbol_size)
           })
      })"

text \<open>
  The symbols of a frame that is parsed: the \<open>i\<close>-th one has the scheme-specific value of the frame
  plus \<open>i\<close>. \<open>alloc i\<close> are the outcomes of the allocations for it. When they fail, the code frees the
  frame, leaves the loop and returns the freed frame: the result \<open>None\<close>.
\<close>

function parse_symbols ::
  "(nat \<Rightarrow> bool \<times> bool) \<Rightarrow> u8 \<Rightarrow> bytes \<Rightarrow> window_repair_frame \<Rightarrow> nat \<Rightarrow> nat \<Rightarrow> nat \<Rightarrow>
   (window_repair_symbol list \<times> nat) option" where
  "parse_symbols alloc junk bytes rf symbol_size i off =
     (if i < rf_n_repair_symbols rf then do {
        rs \<leftarrow> create_window_repair_symbol (fst (alloc i)) (snd (alloc i)) junk symbol_size;
        v \<leftarrow> decode_u32 (rf_fss rf) 0;
        f \<leftarrow> encode_u32 (v + of_nat i) (fss rs) 0;
        payload \<leftarrow> memcpy_at (repair_payload rs) 0 bytes off symbol_size;
        (rss, off) \<leftarrow> parse_symbols alloc junk bytes rf symbol_size (i + 1) (off + symbol_size);
        Some (rs\<lparr>first_id := rf_first_protected_symbol rf, n_protected_symbols := rf_n_protected_symbols rf,
          fss := f, repair_payload := payload\<rparr> # rss, off)
      } else Some ([], off))"
  by pat_completeness auto
termination by (relation "measure (\<lambda>(alloc, junk, bytes, rf, symbol_size, i, off). rf_n_repair_symbols rf - i)") auto

text \<open>
  The frame starts at offset 0 and \<open>avail\<close> bytes are available; \<open>Some None\<close> is the null pointer.
  The number of remaining bytes is computed as an unsigned 64-bit integer and wraps around when
  fewer bytes are available than the header has.
\<close>

definition parse_window_repair_frame ::
  "bool \<Rightarrow> bool \<Rightarrow> (nat \<Rightarrow> bool \<times> bool) \<Rightarrow> u8 \<Rightarrow> bytes \<Rightarrow> nat \<Rightarrow> nat \<Rightarrow> bool \<Rightarrow>
   (window_repair_frame \<times> nat) option option" where
  "parse_window_repair_frame alloc_rf alloc_symbols alloc junk bytes avail symbol_size skip_repair_payload =
     (if \<not> alloc_rf then Some None
      else do {
        f \<leftarrow> memcpy_at [0, 0, 0, 0] 0 bytes 0 4;
        r \<leftarrow> decode_window_source_symbol_id bytes 4 (u64_sub avail 4);
        (case r of
           Inl err \<Rightarrow> Some None
         | Inr (i, tmp) \<Rightarrow> do {
             n_protected \<leftarrow> decode_un bytes (4 + tmp) 2;
             n_repair \<leftarrow> decode_un bytes (4 + tmp + 2) 2;
             let consumed = 4 + tmp + 2 + 2;
             let rf = \<lparr>rf_is_fb_fec = False, rf_fss = f, rf_first_protected_symbol = i,
               rf_n_protected_symbols = unat n_protected mod 2 ^ 16,
               rf_n_repair_symbols = unat n_repair mod 2 ^ 16, rf_symbols = []\<rparr>;
             (if rf_n_repair_symbols rf * symbol_size \<ge> 2 ^ 31 then None
              else if u64_sub avail consumed < rf_n_repair_symbols rf * symbol_size then Some None
              else if skip_repair_payload then Some (Some (rf, consumed + rf_n_repair_symbols rf * symbol_size))
              else if \<not> alloc_symbols then Some None
              else do {
                (rss, consumed) \<leftarrow> parse_symbols alloc junk bytes rf symbol_size 0 consumed;
                Some (Some (rf\<lparr>rf_symbols := rss\<rparr>, consumed))
              })
           })
      })"

declare parse_symbols.simps [simp del]

text \<open>Receive-window frames. The window size is a signed integer.\<close>

record window_rwin_frame =
  smallest_id :: nat
  window_size :: "64 word"

definition varint_len :: "u64 \<Rightarrow> nat" where
  "varint_len val =
     (if val \<le> 63 then 1
      else if val \<le> 16383 then 2
      else if val \<le> 1073741823 then 4
      else if val \<le> 4611686018427387903 then 8
      else 0)"

text \<open>A variable-length integer written at an offset.\<close>

definition varint_encode_at :: "bytes \<Rightarrow> nat \<Rightarrow> nat \<Rightarrow> u64 \<Rightarrow> (bytes \<times> nat) option" where
  "varint_encode_at out off max_bytes n =
     (let (b, l) = picoquic_varint_encode (drop off out) max_bytes n
      in if off + l \<le> length out then Some (take off out @ b, l) else None)"

definition parse_window_rwin_frame :: "bytes \<Rightarrow> nat \<Rightarrow> (error + window_rwin_frame \<times> nat) option" where
  "parse_window_rwin_frame buffer buffer_length =
     (if buffer_length = 0 then Some (Inl PICOQUIC_ERROR_MEMORY)
      else do {
        (consumed, decoded) \<leftarrow> picoquic_varint_decode buffer buffer_length;
        (if unat decoded > 2 ^ 32 - 1 then Some (Inl ERROR_ID_TOO_LARGE)
         else if buffer_length - consumed = 0 then Some (Inl PICOQUIC_ERROR_MEMORY)
         else do {
           (size, window) \<leftarrow> picoquic_varint_decode (drop consumed buffer) (buffer_length - consumed);
           (if sint window < 0 then Some (Inl ERROR_NEGATIVE_WINDOW)
            else Some (Inr (\<lparr>smallest_id = unat decoded, window_size = window\<rparr>, consumed + size)))
         })
      })"

definition serialize_window_rwin_frame :: "bytes \<Rightarrow> nat \<Rightarrow> window_rwin_frame \<Rightarrow> (error + bytes \<times> nat) option" where
  "serialize_window_rwin_frame out buffer_length frame =
     (if buffer_length < varint_len (of_nat (smallest_id frame)) then Some (Inl PICOQUIC_ERROR_MEMORY)
      else do {
        (out, consumed) \<leftarrow> varint_encode_at out 0 buffer_length (of_nat (smallest_id frame));
        (if buffer_length - consumed < varint_len (window_size frame) then Some (Inl PICOQUIC_ERROR_MEMORY)
         else do {
           (out, size) \<leftarrow> varint_encode_at out consumed (buffer_length - consumed) (window_size frame);
           Some (Inr (out, consumed + size))
         })
      })"

section \<open>Lemmas\<close>

lemma be_digits_map: "be_digits n v = map (\<lambda>i. of_nat (v div 256 ^ (n - i - 1))) [0..<n]"
proof (rule nth_equalityI)
  fix i assume "i < length (be_digits n v)"
  then show "be_digits n v ! i = map (\<lambda>i. of_nat (v div 256 ^ (n - i - 1))) [0..<n] ! i"
  proof (induction n arbitrary: i)
    case (Suc n)
    then show ?case by (cases i) (simp_all del: upt_Suc)
  qed simp
qed simp

lemma encode_un_eq: "n \<le> 8 \<Longrightarrow> off + n \<le> length b \<Longrightarrow> encode_un v b off n = Some (overlay b off (be_digits n (unat v)))"
  by (simp add: encode_un_def memcpy_at_def be_digits_map byte_at_of_nat)

lemma decode_un_eq: "n \<le> 8 \<Longrightarrow> off + n \<le> length b \<Longrightarrow>
    decode_un b off n = Some (of_nat (be_val 0 (take n (drop off b))))"
proof -
  have "foldl (\<lambda>retval b. push_bit 8 retval + ucast b) v bs = varint_loop v bs" for v :: u64 and bs :: bytes
    by (induction bs arbitrary: v) simp_all
  then show "n \<le> 8 \<Longrightarrow> off + n \<le> length b \<Longrightarrow> ?thesis"
    using varint_loop_of_nat[of 0] by (simp add: decode_un_def)
qed

lemma be_val_digits_0: "v < 256 ^ k \<Longrightarrow> be_val 0 (be_digits k v) = v"
  by (simp add: be_val_digits)


text \<open>The bytes of a repair frame, and the frames that can be written.\<close>

definition frame_bytes :: "window_repair_frame \<Rightarrow> nat \<Rightarrow> bytes" where
  "frame_bytes rf symbol_size = rf_fss rf @
     be_digits 4 ((rf_first_protected_symbol rf AND 0x3FFFFFFF) OR 0x80000000) @
     be_digits 2 (rf_n_protected_symbols rf) @ be_digits 2 (rf_n_repair_symbols rf) @
     concat (map (\<lambda>rs. take symbol_size (repair_payload rs)) (rf_symbols rf))"

definition frame_ok :: "window_repair_frame \<Rightarrow> nat \<Rightarrow> bool" where
  "frame_ok rf symbol_size \<longleftrightarrow> length (rf_fss rf) = 4 \<and> rf_n_protected_symbols rf < 2 ^ 16 \<and>
     rf_n_repair_symbols rf = length (rf_symbols rf) \<and> length (rf_symbols rf) < 2 ^ 16 \<and>
     length (rf_symbols rf) * symbol_size < 2 ^ 31 \<and>
     (\<forall>rs \<in> set (rf_symbols rf). payload_length rs = symbol_size \<and> symbol_size \<le> length (repair_payload rs))"

lemma length_payloads: "\<forall>rs \<in> set rss. s \<le> length (repair_payload rs) \<Longrightarrow>
    length (concat (map (\<lambda>rs. take s (repair_payload rs)) rss)) = length rss * s"
  by (induction rss) auto

lemma serialize_symbols_eq:
  assumes "\<forall>rs \<in> set rss. payload_length rs = s \<and> s \<le> length (repair_payload rs)" "off + length rss * s \<le> length out"
  shows "serialize_symbols out off rss s =
    Some (Inr (overlay out off (concat (map (\<lambda>rs. take s (repair_payload rs)) rss)), off + length rss * s))"
  using assms
proof (induction rss arbitrary: out off)
  case Nil
  then show ?case by (simp add: overlay_def)
next
  case (Cons rs rss)
  let ?p = "take s (repair_payload rs)" and ?r = "concat (map (\<lambda>rs. take s (repair_payload rs)) rss)"
  have l: "length ?p = s" "length ?r = length rss * s" using Cons.prems length_payloads[of rss s] by auto
  have "serialize_symbols out off (rs # rss) s = serialize_symbols (overlay out off ?p) (off + s) rss s"
    using Cons.prems by (simp add: memcpy_at_def)
  also have "\<dots> = Some (Inr (overlay (overlay out off ?p) (off + s) ?r, off + s + length rss * s))"
    using Cons.prems l by (intro Cons.IH) auto
  also have "overlay (overlay out off ?p) (off + s) ?r = overlay out off (?p @ ?r)"
    using overlay_overlay[of off ?p ?r out] Cons.prems l by simp
  finally show ?case by (simp add: add.assoc)
qed

lemma tagged_less: "(i AND 0x3FFFFFFF) OR 0x80000000 = (2 ^ 31 + i mod 2 ^ 30 :: nat)"
proof -
  have "i AND (2 ^ 30 - 1) = i mod 2 ^ 30" by (rule and_mask_nat)
  then have a: "i AND 0x3FFFFFFF = i mod 2 ^ 30" by simp
  have "i mod 2 ^ 30 < 2 ^ 31" by (rule less_trans[of _ "2 ^ 30"]) simp_all
  from or_shift_nat[OF this, of 1] show ?thesis unfolding a by (simp add: push_bit_eq_mult)
qed

lemma tagged_bound: "(i AND 0x3FFFFFFF) OR 0x80000000 < (2 ^ 32 :: nat)"
proof -
  have "i mod 2 ^ 30 < 2 ^ 30" by simp
  then show ?thesis unfolding tagged_less by simp
qed

lemma serialize_frame_eq:
  assumes rf: "frame_ok rf s" and b: "12 + length (rf_symbols rf) * s \<le> buffer_length" "buffer_length \<le> length out"
  shows "serialize_window_repair_frame out buffer_length rf s =
    Some (Inr (overlay out 0 (frame_bytes rf s), 12 + length (rf_symbols rf) * s))"
proof -
  let ?i = "(rf_first_protected_symbol rf AND 0x3FFFFFFF) OR 0x80000000" and ?n = "length (rf_symbols rf)"
  let ?P = "concat (map (\<lambda>rs. take s (repair_payload rs)) (rf_symbols rf))"
  have i: "?i < 2 ^ 64" by (rule less_trans[OF tagged_bound]) simp
  have P: "length ?P = ?n * s" using rf by (intro length_payloads) (simp add: frame_ok_def)
  let ?o1 = "overlay out 0 (rf_fss rf)"
  let ?o2 = "overlay ?o1 4 (be_digits 4 ?i)"
  let ?o3 = "overlay ?o2 8 (be_digits 2 (rf_n_protected_symbols rf))"
  let ?o4 = "overlay ?o3 10 (be_digits 2 (rf_n_repair_symbols rf))"
  have u: "unat (of_nat (rf_n_protected_symbols rf) :: u64) = rf_n_protected_symbols rf"
    "unat (of_nat (rf_n_repair_symbols rf) :: u64) = rf_n_repair_symbols rf" "unat (of_nat ?i :: u64) = ?i"
    using rf i by (intro unat_of_nat_u64; simp add: frame_ok_def)+
  have "serialize_window_repair_frame out buffer_length rf s = serialize_symbols ?o4 12 (rf_symbols rf) s"
    using rf b u by (simp add: serialize_window_repair_frame_def frame_ok_def memcpy_at_def
      serialize_window_source_symbol_id_def encode_un_eq REPAIR_FRAME_HEADER_SIZE_def)
  also have "\<dots> = Some (Inr (overlay ?o4 12 ?P, 12 + ?n * s))"
    using rf b by (intro serialize_symbols_eq) (auto simp: frame_ok_def)
  also have "overlay ?o4 12 ?P = overlay out 0 (frame_bytes rf s)"
    using overlay_overlay[of 0 "rf_fss rf" "be_digits 4 ?i" out]
      overlay_overlay[of 0 "rf_fss rf @ be_digits 4 ?i" "be_digits 2 (rf_n_protected_symbols rf)" out]
      overlay_overlay[of 0 "rf_fss rf @ be_digits 4 ?i @ be_digits 2 (rf_n_protected_symbols rf)"
        "be_digits 2 (rf_n_repair_symbols rf)" out]
      overlay_overlay[of 0 "rf_fss rf @ be_digits 4 ?i @ be_digits 2 (rf_n_protected_symbols rf) @
        be_digits 2 (rf_n_repair_symbols rf)" ?P out] rf b P
    by (simp add: frame_bytes_def frame_ok_def del: be_digits.simps)
  finally show ?thesis .
qed

text \<open>The symbol that is read from the payload \<open>p\<close> at index \<open>j\<close> of a frame.\<close>

definition parsed_symbol :: "window_repair_frame \<Rightarrow> u8 \<Rightarrow> nat \<Rightarrow> nat \<Rightarrow> bytes \<Rightarrow> window_repair_symbol" where
  "parsed_symbol rf junk s j p =
     \<lparr>fss = be_digits 4 ((be_val 0 (rf_fss rf) + j) mod 2 ^ 32), first_id = rf_first_protected_symbol rf,
      n_protected_symbols = rf_n_protected_symbols rf, is_fb_fec = False, payload_length = s,
      repair_payload = p @ replicate (align s - s) junk\<rparr>"

lemma ucast_of_nat_32: "(ucast (of_nat n :: u64) :: u32) = of_nat n"
  by (rule bit_word_eqI) (simp add: bit_simps)

lemma decode_u32_eq: "off + 4 \<le> length b \<Longrightarrow> decode_u32 b off = Some (of_nat (be_val 0 (take 4 (drop off b))))"
  by (simp add: decode_u32_def decode_un_eq ucast_of_nat_32)

lemma encode_u32_eq: "off + 4 \<le> length b \<Longrightarrow> encode_u32 v b off = Some (overlay b off (be_digits 4 (unat v)))"
proof -
  have "unat v < 2 ^ 64" using unsigned_less[of v, where 'a = nat] by simp
  then have "unat (ucast v :: u64) = unat v" by (simp add: ucast_of_unat unat_of_nat_u64 del: of_nat_unat)
  then show "off + 4 \<le> length b \<Longrightarrow> ?thesis" by (simp add: encode_u32_def encode_un_eq)
qed

lemma overlay_all: "length xs = length b \<Longrightarrow> overlay b 0 xs = xs"
  by (simp add: overlay_def)

lemma parse_symbols_eq:
  assumes "\<forall>j. alloc j = (True, True)" "length (rf_fss rf) = 4" "\<forall>p \<in> set ps. length p = s"
    "i + length ps = rf_n_repair_symbols rf"
  shows "parse_symbols alloc junk (pre @ concat ps @ rest) rf s i (length pre) =
    Some (map2 (parsed_symbol rf junk s) [i..<rf_n_repair_symbols rf] ps, length pre + length ps * s)"
  using assms(3,4)
proof (induction ps arbitrary: i pre)
  case Nil
  then show ?case by (simp add: parse_symbols.simps)
next
  case (Cons p ps)
  have i: "i < rf_n_repair_symbols rf" "s \<le> align s" "length p = s" using Cons.prems align_le by auto
  let ?rs = "\<lparr>fss = [0, 0, 0, 0], first_id = 0, n_protected_symbols = 0, is_fb_fec = False, payload_length = s,
    repair_payload = overlay (replicate (align s) junk) 0 (replicate s 0)\<rparr>"
  have "unat (of_nat (be_val 0 (rf_fss rf)) + of_nat i :: u32) = (be_val 0 (rf_fss rf) + i) mod 2 ^ 32"
    by (simp add: unat_of_nat flip: of_nat_add)
  then have f: "encode_u32 (of_nat (be_val 0 (rf_fss rf)) + of_nat i) [0, 0, 0, 0] 0 =
      Some (be_digits 4 ((be_val 0 (rf_fss rf) + i) mod 2 ^ 32))"
    by (simp add: encode_u32_eq overlay_all del: be_digits.simps)
  have payload: "overlay (repair_payload ?rs) 0 p = p @ replicate (align s - s) junk"
    using i by (simp add: overlay_def)
  have "parse_symbols alloc junk ((pre @ p) @ concat ps @ rest) rf s (i + 1) (length (pre @ p)) =
      Some (map2 (parsed_symbol rf junk s) [i + 1..<rf_n_repair_symbols rf] ps, length (pre @ p) + length ps * s)"
    using Cons.prems by (intro Cons.IH) auto
  then show ?case
    using i assms(1,2) f payload
    by (subst parse_symbols.simps, simp add: create_window_repair_symbol_def decode_u32_eq memcpy_at_def
      upt_rec[of i] del: be_digits.simps) (simp add: parsed_symbol_def)
qed

lemma decode_un_at:
  assumes "length pre = off" "n \<le> 8" "length xs = n"
  shows "decode_un (pre @ xs @ rest) off n = Some (of_nat (be_val 0 xs))"
  using assms by (subst decode_un_eq) simp_all

lemma decode_id_at:
  assumes "length pre = off" "4 \<le> avail"
  shows "decode_window_source_symbol_id (pre @ be_digits 4 ((i AND 0x3FFFFFFF) OR 0x80000000) @ rest) off avail =
    Some (Inr (i mod 2 ^ 30, 4))"
proof -
  let ?t = "(i AND 0x3FFFFFFF) OR 0x80000000"
  have v: "be_val 0 (be_digits 4 ?t) = ?t" using tagged_bound[of i] by (intro be_val_digits_0) simp
  have "unat ((of_nat ?t :: u32) AND 0x3FFFFFFF) = ?t AND (2 ^ 30 - 1)"
    using tagged_bound[of i] by (simp add: unsigned_and_eq unat_of_nat)
  also have "\<dots> = ?t mod 2 ^ 30" by (rule and_mask_nat)
  also have "\<dots> = i mod 2 ^ 30" unfolding tagged_less using mod_mult_self4[of "2 ^ 30" 2 "i mod 2 ^ 30"] by simp
  finally show ?thesis
    using assms v by (simp add: decode_window_source_symbol_id_def decode_u32_eq del: be_digits.simps)
qed

lemma parse_frame_eq:
  assumes rf: "frame_ok rf s" and al: "\<forall>j. alloc j = (True, True)"
    and av: "12 + length (rf_symbols rf) * s \<le> avail" "avail < 2 ^ 64"
  shows "parse_window_repair_frame True True alloc junk (frame_bytes rf s @ rest) avail s False =
    Some (Some (rf\<lparr>rf_is_fb_fec := False, rf_first_protected_symbol := rf_first_protected_symbol rf mod 2 ^ 30,
      rf_symbols := map2 (parsed_symbol (rf\<lparr>rf_first_protected_symbol := rf_first_protected_symbol rf mod 2 ^ 30\<rparr>) junk s)
        [0..<length (rf_symbols rf)] (map (\<lambda>rs. take s (repair_payload rs)) (rf_symbols rf))\<rparr>,
      12 + length (rf_symbols rf) * s))"
proof -
  let ?ps = "map (\<lambda>rs. take s (repair_payload rs)) (rf_symbols rf)"
  let ?I = "be_digits 4 ((rf_first_protected_symbol rf AND 0x3FFFFFFF) OR 0x80000000)"
  let ?N = "be_digits 2 (rf_n_protected_symbols rf)" and ?M = "be_digits 2 (rf_n_repair_symbols rf)"
  let ?b = "rf_fss rf @ ?I @ ?N @ ?M @ concat ?ps @ rest"
  let ?rf = "\<lparr>rf_is_fb_fec = False, rf_fss = rf_fss rf, rf_first_protected_symbol = rf_first_protected_symbol rf mod 2 ^ 30,
    rf_n_protected_symbols = rf_n_protected_symbols rf, rf_n_repair_symbols = rf_n_repair_symbols rf, rf_symbols = []\<rparr>"
  have b: "frame_bytes rf s @ rest = ?b" by (simp add: frame_bytes_def)
  have l: "length (rf_fss rf) = 4" "rf_n_protected_symbols rf < 2 ^ 16" "length (rf_symbols rf) < 2 ^ 16"
    "rf_n_repair_symbols rf = length (rf_symbols rf)" "length (rf_symbols rf) * s < 2 ^ 31" using rf by (auto simp: frame_ok_def)
  have id: "decode_window_source_symbol_id ?b 4 (u64_sub avail 4) = Some (Inr (rf_first_protected_symbol rf mod 2 ^ 30, 4))"
    using l av by (intro decode_id_at) (simp_all add: wrap_simps)
  have n: "decode_un ?b 8 2 = Some (of_nat (rf_n_protected_symbols rf))" "decode_un ?b 10 2 = Some (of_nat (rf_n_repair_symbols rf))"
    using decode_un_at[of "rf_fss rf @ ?I" 8 2 ?N "?M @ concat ?ps @ rest"]
      decode_un_at[of "rf_fss rf @ ?I @ ?N" 10 2 ?M "concat ?ps @ rest"] l
    by (simp_all add: be_val_digits_0 del: be_digits.simps)
  have sy: "parse_symbols alloc junk ?b ?rf s 0 12 = Some (map2 (parsed_symbol ?rf junk s) [0..<length (rf_symbols rf)] ?ps, 12 + length (rf_symbols rf) * s)"
    using parse_symbols_eq[OF al, of ?rf ?ps s 0 junk "rf_fss rf @ ?I @ ?N @ ?M" rest] rf l
    by (simp add: frame_ok_def del: be_digits.simps)
  have ps: "parsed_symbol ?rf junk s = parsed_symbol (rf\<lparr>rf_first_protected_symbol := rf_first_protected_symbol rf mod 2 ^ 30\<rparr>) junk s"
    by (simp add: parsed_symbol_def fun_eq_iff)
  have u: "unat (of_nat (rf_n_protected_symbols rf) :: u64) mod 2 ^ 16 = rf_n_protected_symbols rf"
    "unat (of_nat (rf_n_repair_symbols rf) :: u64) mod 2 ^ 16 = rf_n_repair_symbols rf"
    using l by (subst unat_of_nat_u64; simp)+
  have m: "memcpy_at [0, 0, 0, 0] 0 ?b 0 4 = Some (rf_fss rf)" using l by (simp add: memcpy_at_def overlay_all)
  have a: "\<not> u64_sub avail 12 < length (rf_symbols rf) * s" using av by (simp add: wrap_simps)
  have "parse_window_repair_frame True True alloc junk ?b avail s False =
      Some (Some (?rf\<lparr>rf_symbols := map2 (parsed_symbol ?rf junk s) [0..<length (rf_symbols rf)] ?ps\<rparr>, 12 + length (rf_symbols rf) * s))"
    using id n sy m a l u by (simp add: parse_window_repair_frame_def del: be_digits.simps)
  then show ?thesis unfolding b ps by (cases rf) simp
qed

text \<open>
  The parser does not test that the header is available: between the identifier and the end of
  the header it reads past the end of the packet.
\<close>

lemma parse_short_header:
  assumes "length bytes = avail" "8 \<le> avail" "avail < 12"
  shows "parse_window_repair_frame True alloc_symbols alloc junk bytes avail s skip = None"
proof -
  have "decode_un bytes 8 2 = None \<or> decode_un bytes 10 2 = None" using assms by (simp add: decode_un_def)
  moreover have "\<exists>i. decode_window_source_symbol_id bytes 4 (u64_sub avail 4) = Some (Inr (i, 4))"
    using assms by (simp add: decode_window_source_symbol_id_def decode_u32_eq wrap_simps)
  moreover have "\<exists>f. memcpy_at [0, 0, 0, 0] 0 bytes 0 4 = Some f" using assms by (simp add: memcpy_at_def)
  ultimately show ?thesis by (auto simp: parse_window_repair_frame_def bind_eq_None_conv)
qed

lemma varint_encode_at_eq:
  assumes "8 \<le> max_bytes" "off + max_bytes \<le> length out"
  shows "varint_encode_at out off max_bytes n =
    Some (overlay out off (varint_bytes max_bytes n), length (varint_bytes max_bytes n))"
  using assms length_varint_bytes_le[of max_bytes n]
  by (simp add: varint_encode_at_def picoquic_varint_encode_def overlay_def Let_def add.commute)

lemma varint_len_le: "varint_len n \<le> 8"
  by (simp add: varint_len_def)

lemma rwin_roundtrip_eq:
  assumes "16 \<le> buffer_length" "buffer_length \<le> length out" "smallest_id frame < 2 ^ 32" "unat (window_size frame) < 2 ^ 62"
  obtains out' consumed where "serialize_window_rwin_frame out buffer_length frame = Some (Inr (out', consumed))"
    "consumed \<le> buffer_length" "drop consumed out' = drop consumed out"
    "parse_window_rwin_frame out' buffer_length = Some (Inr (frame, consumed))"
proof -
  let ?a = "varint_bytes buffer_length (of_nat (smallest_id frame))"
  let ?b = "varint_bytes (buffer_length - length ?a) (window_size frame)"
  have la: "length ?a \<le> 8" "1 \<le> length ?a" using assms(1) by (simp_all add: length_varint_bytes)
  then have lb: "length ?b \<le> 8" "1 \<le> length ?b" using assms(1) by (simp_all add: length_varint_bytes)
  let ?out = "overlay out 0 (?a @ ?b)"
  have o: "overlay (overlay out 0 ?a) (length ?a) ?b = ?out" using overlay_overlay[of 0 ?a ?b out] la lb assms by simp
  have s: "serialize_window_rwin_frame out buffer_length frame = Some (Inr (?out, length ?a + length ?b))"
    using varint_len_le[of "of_nat (smallest_id frame)"] varint_len_le[of "window_size frame"] la lb assms o
    by (simp add: serialize_window_rwin_frame_def varint_encode_at_eq)
  have out: "?out = ?a @ ?b @ drop (length ?a + length ?b) out" by (simp add: overlay_def)
  have u: "unat (of_nat (smallest_id frame) :: u64) = smallest_id frame" using assms by (intro unat_of_nat_u64) simp
  have d1: "picoquic_varint_decode ?out buffer_length = Some (length ?a, of_nat (smallest_id frame))"
    unfolding out using decode_varint_bytes[of buffer_length "of_nat (smallest_id frame)" buffer_length] la assms u by simp
  have d2: "picoquic_varint_decode (drop (length ?a) ?out) (buffer_length - length ?a) = Some (length ?b, window_size frame)"
    unfolding out using decode_varint_bytes[of "buffer_length - length ?a" "window_size frame" "buffer_length - length ?a"]
      length_varint_bytes_le la assms by simp
  have "int (unat (window_size frame)) < int (2 ^ 62)" using assms(4) by (simp only: of_nat_less_iff)
  then have "uint (window_size frame) < 2 ^ 63" by simp
  then have "signed_take_bit 63 (uint (window_size frame)) = uint (window_size frame)"
    by (intro signed_take_bit_int_eq_self) (simp_all add: order.trans[OF _ uint_ge_0])
  then have w: "0 \<le> sint (window_size frame)" unfolding sint_uint by simp
  have p: "parse_window_rwin_frame ?out buffer_length = Some (Inr (frame, length ?a + length ?b))"
    using d1 d2 u la assms w by (simp add: parse_window_rwin_frame_def)
  show thesis by (rule that[OF s _ _ p]) (use la lb assms in \<open>simp_all add: overlay_def\<close>)
qed

section \<open>Properties\<close>

text \<open>
  C33. Round trip of repair frames: a frame written to a buffer that has room for it is read back
  with the same scheme-specific value, the same numbers, the same payloads and the identifier
  modulo \<open>2 ^ 30\<close>; the writer and the reader consume the same number of bytes, bytes after the
  frame are unchanged, and the symbol at index \<open>j\<close> gets the scheme-specific value plus \<open>j\<close>.
\<close>

theorem repair_frame_roundtrip:
  assumes "frame_ok rf s" "12 + length (rf_symbols rf) * s \<le> buffer_length" "buffer_length \<le> length out"
    "buffer_length < 2 ^ 64" "\<forall>j. alloc j = (True, True)"
  shows "\<exists>out' rf' consumed. serialize_window_repair_frame out buffer_length rf s = Some (Inr (out', consumed)) \<and>
    parse_window_repair_frame True True alloc junk out' buffer_length s False = Some (Some (rf', consumed)) \<and>
    drop consumed out' = drop consumed out \<and> rf_fss rf' = rf_fss rf \<and>
    rf_first_protected_symbol rf' = rf_first_protected_symbol rf mod 2 ^ 30 \<and>
    rf_n_protected_symbols rf' = rf_n_protected_symbols rf \<and> rf_n_repair_symbols rf' = rf_n_repair_symbols rf \<and>
    map (\<lambda>rs. take s (repair_payload rs)) (rf_symbols rf') = map (\<lambda>rs. take s (repair_payload rs)) (rf_symbols rf) \<and>
    (\<forall>j < length (rf_symbols rf'). fss (rf_symbols rf' ! j) = be_digits 4 ((be_val 0 (rf_fss rf) + j) mod 2 ^ 32))"
proof -
  let ?n = "12 + length (rf_symbols rf) * s"
  have l: "length (frame_bytes rf s) = ?n" using assms(1) by (simp add: frame_bytes_def frame_ok_def length_payloads)
  have out: "overlay out 0 (frame_bytes rf s) = frame_bytes rf s @ drop ?n out" by (simp add: overlay_def l)
  have payload: "take s (repair_payload (parsed_symbol rf' junk s j (take s (repair_payload rs)))) = take s (repair_payload rs)"
    if "rs \<in> set (rf_symbols rf)" for rf' j rs using that assms(1) by (simp add: parsed_symbol_def frame_ok_def)
  let ?f = "rf\<lparr>rf_first_protected_symbol := rf_first_protected_symbol rf mod 2 ^ 30\<rparr>"
  let ?rss = "map2 (parsed_symbol ?f junk s) [0..<length (rf_symbols rf)] (map (\<lambda>rs. take s (repair_payload rs)) (rf_symbols rf))"
  have ps: "map (\<lambda>rs. take s (repair_payload rs)) ?rss = map (\<lambda>rs. take s (repair_payload rs)) (rf_symbols rf)"
    by (rule nth_equalityI) (simp_all add: payload)
  have f: "fss (?rss ! j) = be_digits 4 ((be_val 0 (rf_fss rf) + j) mod 2 ^ 32)" if "j < length ?rss" for j
    using that by (simp add: parsed_symbol_def)
  let ?rf' = "?f\<lparr>rf_is_fb_fec := False, rf_symbols := ?rss\<rparr>"
  have rf': "rf\<lparr>rf_is_fb_fec := False, rf_first_protected_symbol := rf_first_protected_symbol rf mod 2 ^ 30, rf_symbols := ?rss\<rparr> = ?rf'"
    by (cases rf) simp
  show ?thesis
    unfolding serialize_frame_eq[OF assms(1-3)]
    by (rule exI[of _ "overlay out 0 (frame_bytes rf s)"], rule exI[of _ ?rf'], rule exI[of _ ?n], unfold out parse_frame_eq[OF assms(1,5,2,4)],
      intro conjI refl) (use l rf' ps f in \<open>simp_all del: be_digits.simps\<close>)
qed

theorem repair_frame_roundtrip_witness:
  "\<exists>out' rf'. serialize_window_repair_frame (replicate 40 9) 30
     \<lparr>rf_is_fb_fec = False, rf_fss = [0, 0, 1, 255], rf_first_protected_symbol = 7, rf_n_protected_symbols = 4,
      rf_n_repair_symbols = 1, rf_symbols = [\<lparr>fss = [0, 0, 0, 0], first_id = 7, n_protected_symbols = 4,
        is_fb_fec = False, payload_length = 3, repair_payload = [5, 6, 7, 8]\<rparr>]\<rparr> 3 = Some (Inr (out', 15)) \<and>
   parse_window_repair_frame True True (\<lambda>_. (True, True)) 0 out' 30 3 False = Some (Some (rf', 15)) \<and>
   rf_first_protected_symbol rf' = 7 \<and> map (\<lambda>rs. take 3 (repair_payload rs)) (rf_symbols rf') = [[5, 6, 7]]"
proof -
  let ?rs = "\<lparr>fss = [0, 0, 0, 0], first_id = 7, n_protected_symbols = 4, is_fb_fec = False, payload_length = 3, repair_payload = [5, 6, 7, 8]\<rparr>"
  let ?rf = "\<lparr>rf_is_fb_fec = False, rf_fss = [0, 0, 1, 255], rf_first_protected_symbol = 7, rf_n_protected_symbols = 4,
    rf_n_repair_symbols = 1, rf_symbols = [?rs]\<rparr>"
  have ok: "frame_ok ?rf 3" by (simp add: frame_ok_def)
  then have "serialize_window_repair_frame (replicate 40 9) 30 ?rf 3 = Some (Inr (overlay (replicate 40 9) 0 (frame_bytes ?rf 3), 15))"
    by (subst serialize_frame_eq) simp_all
  with repair_frame_roundtrip[OF ok, of 30 "replicate 40 9" "\<lambda>_. (True, True)" 0] show ?thesis by auto
qed

text \<open>
  C35. Round trip of receive-window frames: with 16 bytes of room a frame is written, not more
  bytes are written than there are, and reading gives the frame and the number of bytes back.
\<close>

theorem rwin_frame_roundtrip:
  assumes "16 \<le> buffer_length" "buffer_length \<le> length out" "smallest_id frame < 2 ^ 32" "unat (window_size frame) < 2 ^ 62"
  shows "\<exists>out' consumed. serialize_window_rwin_frame out buffer_length frame = Some (Inr (out', consumed)) \<and>
    consumed \<le> buffer_length \<and> drop consumed out' = drop consumed out \<and>
    parse_window_rwin_frame out' buffer_length = Some (Inr (frame, consumed))"
  by (rule rwin_roundtrip_eq[OF assms]) blast

theorem rwin_frame_roundtrip_witness:
  "\<exists>out' consumed. serialize_window_rwin_frame (replicate 20 0) 17 \<lparr>smallest_id = 70, window_size = 500\<rparr> =
     Some (Inr (out', consumed)) \<and> parse_window_rwin_frame out' 17 = Some (Inr (\<lparr>smallest_id = 70, window_size = 500\<rparr>, consumed))"
  using rwin_frame_roundtrip[of 17 "replicate 20 0" "\<lparr>smallest_id = 70, window_size = 500\<rparr>"] by auto

end
