(* ===== verification/RepairQueue.thy ===== *)
theory RepairQueue
  imports ArrayList FecWire
begin

text \<open>
  The queue of repair symbols that wait to be sent, in
  \<^verbatim>\<open>simple_fec/window_framework/framework_sender.h\<close>: a ring of six items that drops its oldest item
  when it is full, and the assembly of a repair frame from it. \<open>bounded_queue\<close> is the contract of
  such a queue.
\<close>

section \<open>The queue\<close>

definition MAX_QUEUED_REPAIR_SYMBOLS :: nat where "MAX_QUEUED_REPAIR_SYMBOLS = 6"

record queue_item =
  qi_repair_symbol :: "window_repair_symbol option"
  qi_first_protected_symbol :: nat
  qi_fss :: bytes
  qi_n_protected_symbols :: nat

text \<open>The part of \<open>window_fec_framework_t\<close> the queue consists of.\<close>

record repair_queue =
  repair_symbols_queue :: "queue_item list"
  repair_symbols_queue_head :: nat
  repair_symbols_queue_length :: nat

text \<open>The queue of a new sender, whose memory is set to zero.\<close>

definition new_repair_queue :: repair_queue where
  "new_repair_queue = \<lparr>repair_symbols_queue = replicate MAX_QUEUED_REPAIR_SYMBOLS
     \<lparr>qi_repair_symbol = None, qi_first_protected_symbol = 0, qi_fss = [0, 0, 0, 0], qi_n_protected_symbols = 0\<rparr>,
     repair_symbols_queue_head = 0, repair_symbols_queue_length = 0\<rparr>"

definition has_repair_symbol_at_index :: "repair_queue \<Rightarrow> nat \<Rightarrow> bool option" where
  "has_repair_symbol_at_index wff idx =
     (if repair_symbols_queue_length wff > 0
      then map_option (\<lambda>it. qi_repair_symbol it \<noteq> None) (rd (repair_symbols_queue wff) idx) else Some False)"

definition remove_item_at_index :: "repair_queue \<Rightarrow> nat \<Rightarrow> repair_queue option" where
  "remove_item_at_index wff idx = do {
     it \<leftarrow> rd (repair_symbols_queue wff) idx;
     Some (wff\<lparr>repair_symbols_queue := (repair_symbols_queue wff)
       [idx := it\<lparr>qi_repair_symbol := None, qi_n_protected_symbols := 0\<rparr>]\<rparr>)
   }"

definition put_item_at_index ::
  "repair_queue \<Rightarrow> nat \<Rightarrow> window_repair_symbol \<Rightarrow> nat \<Rightarrow> nat \<Rightarrow> bytes \<Rightarrow> repair_queue option" where
  "put_item_at_index wff idx rs n first f = do {
     it \<leftarrow> rd (repair_symbols_queue wff) idx;
     Some (wff\<lparr>repair_symbols_queue := (repair_symbols_queue wff)[idx := it\<lparr>qi_repair_symbol := Some rs,
       qi_n_protected_symbols := n, qi_first_protected_symbol := first, qi_fss := f\<rparr>]\<rparr>)
   }"

definition queue_repair_symbol ::
  "window_repair_symbol \<Rightarrow> nat \<Rightarrow> nat \<Rightarrow> bytes \<Rightarrow> repair_queue \<Rightarrow> repair_queue option" where
  "queue_repair_symbol rs n first f wff =
     (let idx = u32_add (repair_symbols_queue_head wff) (repair_symbols_queue_length wff) mod MAX_QUEUED_REPAIR_SYMBOLS
      in do {
        full \<leftarrow> has_repair_symbol_at_index wff idx;
        wff \<leftarrow> (if full then do {
            wff \<leftarrow> remove_item_at_index wff idx;
            let wff = (if repair_symbols_queue_length wff > 1 \<and> repair_symbols_queue_head wff = idx
              then wff\<lparr>repair_symbols_queue_head := u32_add (repair_symbols_queue_head wff) 1 mod MAX_QUEUED_REPAIR_SYMBOLS\<rparr>
              else wff);
            Some (wff\<lparr>repair_symbols_queue_length := repair_symbols_queue_length wff - 1\<rparr>)
          } else Some wff);
        wff \<leftarrow> put_item_at_index wff idx rs n first f;
        let wff = (if repair_symbols_queue_length wff = 0 then wff\<lparr>repair_symbols_queue_head := idx\<rparr> else wff);
        Some (wff\<lparr>repair_symbols_queue_length := repair_symbols_queue_length wff + 1\<rparr>)
      })"

text \<open>The item at the head with a symbol, if there is one.\<close>

definition peek_repair_symbol :: "repair_queue \<Rightarrow> queue_item option option" where
  "peek_repair_symbol wff = do {
     has \<leftarrow> has_repair_symbol_at_index wff (repair_symbols_queue_head wff);
     (if has then map_option Some (rd (repair_symbols_queue wff) (repair_symbols_queue_head wff)) else Some None)
   }"

definition dequeue_repair_symbol :: "repair_queue \<Rightarrow> (queue_item option \<times> repair_queue) option" where
  "dequeue_repair_symbol wff = do {
     ret \<leftarrow> peek_repair_symbol wff;
     (case ret of
        None \<Rightarrow> Some (None, wff)
      | Some it \<Rightarrow> do {
          wff \<leftarrow> remove_item_at_index wff (repair_symbols_queue_head wff);
          let wff = (if repair_symbols_queue_length wff > 1
            then wff\<lparr>repair_symbols_queue_head := u32_add (repair_symbols_queue_head wff) 1 mod MAX_QUEUED_REPAIR_SYMBOLS\<rparr>
            else wff);
          Some (Some it, wff\<lparr>repair_symbols_queue_length := repair_symbols_queue_length wff - 1\<rparr>)
        })
   }"

fun queue_repair_symbols :: "window_repair_symbol list \<Rightarrow> nat \<Rightarrow> nat \<Rightarrow> repair_queue \<Rightarrow> repair_queue option" where
  "queue_repair_symbols [] n first wff = Some wff"
| "queue_repair_symbols (rs # rss) n first wff = do {
     wff \<leftarrow> queue_repair_symbol rs n first (fss rs) wff;
     queue_repair_symbols rss n first wff
   }"

section \<open>A frame from the queue\<close>

definition predict_window_repair_frame_length :: "window_repair_frame \<Rightarrow> nat \<Rightarrow> nat" where
  "predict_window_repair_frame_length rf symbol_size = REPAIR_FRAME_HEADER_SIZE + rf_n_repair_symbols rf * symbol_size"

text \<open>
  The loop that moves symbols from the queue to the array; \<open>rf\<close> collects the fields of the frame.
  Symbols of a frame protect the same source symbols.
\<close>

function take_symbols ::
  "(nat \<Rightarrow> bool) \<Rightarrow> nat \<Rightarrow> nat \<Rightarrow> nat \<Rightarrow> repair_queue \<Rightarrow> window_repair_symbol option arraylist \<Rightarrow> nat \<Rightarrow> nat \<Rightarrow>
   window_repair_frame \<Rightarrow> (repair_queue \<times> window_repair_symbol option arraylist \<times> nat \<times> window_repair_frame) option" where
  "take_symbols alloc symbol_size bytes_max symbols_max wff al added consumed rf =
     (if repair_symbols_queue_length wff > 0 \<and> consumed + symbol_size \<le> bytes_max \<and> added < symbols_max then do {
        p \<leftarrow> peek_repair_symbol wff;
        it \<leftarrow> p;
        rs \<leftarrow> qi_repair_symbol it;
        (if added \<noteq> 0 \<and> (qi_n_protected_symbols it \<noteq> rf_n_protected_symbols rf \<or>
              qi_first_protected_symbol it \<noteq> rf_first_protected_symbol rf)
         then Some (wff, al, consumed, rf)
         else do {
           let rf = (if added = 0 then rf\<lparr>rf_n_protected_symbols := qi_n_protected_symbols it,
             rf_first_protected_symbol := qi_first_protected_symbol it, rf_fss := qi_fss it\<rparr> else rf);
           let rf = rf\<lparr>rf_is_fb_fec := rf_is_fb_fec rf \<or> is_fb_fec rs\<rparr>;
           (_, al) \<leftarrow> arraylist_push (alloc added) None al (Some rs);
           (_, wff) \<leftarrow> dequeue_repair_symbol wff;
           take_symbols alloc symbol_size bytes_max symbols_max wff al (added + 1) (consumed + symbol_size) rf
         })
      } else Some (wff, al, consumed, rf))"
  by pat_completeness auto
termination
  by (relation "measure (\<lambda>(alloc, s, b, symbols_max, wff, al, added, c, rf). symbols_max - added)") auto

definition get_repair_symbols_from_queue ::
  "(nat \<Rightarrow> bool) \<Rightarrow> nat \<Rightarrow> nat \<Rightarrow> nat \<Rightarrow> repair_queue \<Rightarrow> window_repair_symbol option arraylist \<Rightarrow>
   window_repair_frame \<Rightarrow> (repair_queue \<times> window_repair_symbol option arraylist \<times> nat \<times> window_repair_frame) option" where
  "get_repair_symbols_from_queue alloc symbol_size bytes_max symbols_max wff al rf =
     (if repair_symbols_queue_length wff = 0 then Some (wff, al, 0, rf)
      else take_symbols alloc symbol_size bytes_max symbols_max wff al 0 REPAIR_FRAME_HEADER_SIZE rf)"

text \<open>The pointers of an array list, each of which must not be null when the frame is written.\<close>

fun collect :: "'a option arraylist \<Rightarrow> nat \<Rightarrow> nat \<Rightarrow> 'a list option" where
  "collect al i 0 = Some []"
| "collect al i (Suc n) = do {
     p \<leftarrow> arraylist_get None al (int i);
     x \<leftarrow> p;
     xs \<leftarrow> collect al (i + 1) n;
     Some (x # xs)
   }"

text \<open>
  The frame and its predicted length. \<open>rf\<close> is set to zero at the start. \<open>Inl\<close> is the error of a
  failed allocation of the symbol array, after which the symbols taken from the queue are lost.
\<close>

definition zero_frame :: window_repair_frame where
  "zero_frame = \<lparr>rf_is_fb_fec = False, rf_fss = [0, 0, 0, 0], rf_first_protected_symbol = 0,
     rf_n_protected_symbols = 0, rf_n_repair_symbols = 0, rf_symbols = []\<rparr>"

definition get_repair_frame_to_send ::
  "bool \<Rightarrow> (nat \<Rightarrow> bool) \<Rightarrow> bool \<Rightarrow> nat \<Rightarrow> nat \<Rightarrow> repair_queue \<Rightarrow>
   ((error + window_repair_frame \<times> nat) \<times> repair_queue) option" where
  "get_repair_frame_to_send alloc_list alloc alloc_symbols symbol_size bytes_max wff =
     (let symbols_max = 100 in do {
        (wff, al, consumed, rf) \<leftarrow> get_repair_symbols_from_queue alloc symbol_size bytes_max symbols_max wff
          (arraylist_init alloc_list None 5) zero_frame;
        let rf = rf\<lparr>rf_n_repair_symbols := arraylist_size al mod 2 ^ 16\<rparr>;
        (if \<not> alloc_symbols then Some (Inl PICOQUIC_ERROR_MEMORY, wff)
         else do {
           rss \<leftarrow> collect al 0 (rf_n_repair_symbols rf);
           let rf = rf\<lparr>rf_symbols := rss\<rparr>;
           Some (Inr (rf, predict_window_repair_frame_length rf symbol_size), wff)
         })
      })"

declare take_symbols.simps [simp del]

section \<open>The contract of a bounded queue\<close>

fun enq_all :: "('a \<Rightarrow> 'q \<Rightarrow> 'q option) \<Rightarrow> 'a list \<Rightarrow> 'q \<Rightarrow> 'q option" where
  "enq_all enq [] q = Some q"
| "enq_all enq (x # xs) q = do { q \<leftarrow> enq x q; enq_all enq xs q }"

locale bounded_queue =
  fixes inv :: "'q \<Rightarrow> bool" and content :: "'q \<Rightarrow> 'a list" and cap :: nat
    and enq :: "'a \<Rightarrow> 'q \<Rightarrow> 'q option" and deq :: "'q \<Rightarrow> ('a option \<times> 'q) option"
  assumes enq: "inv q \<Longrightarrow> \<exists>q'. enq x q = Some q' \<and> inv q' \<and>
      content q' = drop (length (content q) + 1 - cap) (content q @ [x])"
    and deq: "inv q \<Longrightarrow> content q = y # ys \<Longrightarrow> \<exists>q'. deq q = Some (Some y, q') \<and> inv q' \<and> content q' = ys"
    and deq_empty: "inv q \<Longrightarrow> content q = [] \<Longrightarrow> deq q = Some (None, q)"
    and cap: "inv q \<Longrightarrow> length (content q) \<le> cap"
begin

text \<open>After any number of insertions the queue holds the newest elements in their order.\<close>

lemma enq_all_content:
  "inv q \<Longrightarrow> \<exists>q'. enq_all enq xs q = Some q' \<and> inv q' \<and>
     content q' = drop (length (content q) + length xs - cap) (content q @ xs)"
proof (induction xs arbitrary: q)
  case Nil
  then show ?case using cap[OF Nil] by simp
next
  case (Cons x xs)
  obtain q1 where q1: "enq x q = Some q1" "inv q1" "content q1 = drop (length (content q) + 1 - cap) (content q @ [x])"
    using enq[OF Cons.prems] by blast
  obtain q2 where q2: "enq_all enq xs q1 = Some q2" "inv q2" "content q2 = drop (length (content q1) + length xs - cap) (content q1 @ xs)"
    using Cons.IH[OF q1(2)] by blast
  let ?n = "length (content q)"
  have l: "length (content q1) = ?n + 1 - (?n + 1 - cap)" using q1(3) by simp
  have "drop m zs @ xs = drop m (zs @ xs)" if "m \<le> length zs" for m and zs :: "'a list" using that by simp
  from this[of "?n + 1 - cap" "content q @ [x]"] have "content q1 @ xs = drop (?n + 1 - cap) (content q @ x # xs)"
    unfolding q1(3) by (simp only: append_assoc append_Cons append_Nil length_append) simp
  then have "content q2 = drop (length (content q1) + length xs - cap + (?n + 1 - cap)) (content q @ x # xs)"
    unfolding q2(3) by (simp only: drop_drop)
  also have "length (content q1) + length xs - cap + (?n + 1 - cap) = ?n + length (x # xs) - cap"
    using l cap[OF Cons.prems] by auto
  finally show ?case using q1 q2 by auto
qed

end

section \<open>The queue meets the contract\<close>

definition rq_content :: "repair_queue \<Rightarrow> queue_item list" where
  "rq_content wff = map (\<lambda>i. repair_symbols_queue wff ! ((repair_symbols_queue_head wff + i) mod 6))
     [0..<repair_symbols_queue_length wff]"

definition rq_ok :: "repair_queue \<Rightarrow> bool" where
  "rq_ok wff \<longleftrightarrow> length (repair_symbols_queue wff) = 6 \<and> repair_symbols_queue_head wff < 6 \<and>
     repair_symbols_queue_length wff \<le> 6 \<and>
     (\<forall>i < 6. qi_repair_symbol (repair_symbols_queue wff ! ((repair_symbols_queue_head wff + i) mod 6)) = None \<longleftrightarrow>
        \<not> i < repair_symbols_queue_length wff)"


lemma mod6: "i < 6 \<Longrightarrow> j < 6 \<Longrightarrow> (a + i) mod 6 = (a + j) mod 6 \<longleftrightarrow> i = j" for a i j :: nat
proof -
  assume ij: "i < 6" "j < 6"
  obtain r where r: "r = a mod 6" "r < 6" by simp
  have "(a + k) mod 6 = (if r + k < 6 then r + k else r + k - 6)" if "k < 6" for k
  proof -
    have "(a + k) mod 6 = (r + k) mod 6" by (simp add: r(1) mod_add_left_eq)
    then show ?thesis using that r(2) by (auto simp: le_mod_geq)
  qed
  from this[OF ij(1)] this[OF ij(2)] ij show ?thesis by (auto split: if_splits)
qed

lemma item_update [simp]: "it\<lparr>qi_repair_symbol := a, qi_n_protected_symbols := b, qi_first_protected_symbol := c, qi_fss := d\<rparr> =
    \<lparr>qi_repair_symbol = a, qi_first_protected_symbol = c, qi_fss = d, qi_n_protected_symbols = b\<rparr>"
  by (cases it) simp

text \<open>The ring seen from the element after the one that is replaced.\<close>

lemma ring_step:
  assumes "h < 6" "i < 6" "length q = 6"
  shows "q[h := e] ! ((Suc h mod 6 + i) mod 6) = (if i = 5 then e else q ! ((h + Suc i) mod 6))"
proof -
  have "(Suc h mod 6 + i) mod 6 = (h + Suc i) mod 6" by (simp add: mod_add_left_eq)
  moreover have "(h + Suc i) mod 6 = h \<longleftrightarrow> i = 5"
    using assms(1,2) by (cases "h + Suc i < 6") (auto simp: le_mod_geq)
  ultimately show ?thesis using assms by (auto simp: nth_list_update)
qed

lemma rq_okD:
  assumes "rq_ok wff"
  shows "length (repair_symbols_queue wff) = 6" "repair_symbols_queue_head wff < 6" "repair_symbols_queue_length wff \<le> 6"
    "i < 6 \<Longrightarrow> qi_repair_symbol (repair_symbols_queue wff ! ((repair_symbols_queue_head wff + i) mod 6)) = None \<longleftrightarrow>
      \<not> i < repair_symbols_queue_length wff"
  using assms by (simp_all only: rq_ok_def)

lemma rq_okI:
  assumes "length (repair_symbols_queue wff) = 6" "repair_symbols_queue_head wff < 6" "repair_symbols_queue_length wff \<le> 6"
    "\<And>i. i < 6 \<Longrightarrow> qi_repair_symbol (repair_symbols_queue wff ! ((repair_symbols_queue_head wff + i) mod 6)) = None \<longleftrightarrow>
      \<not> i < repair_symbols_queue_length wff"
  shows "rq_ok wff"
  unfolding rq_ok_def by (intro conjI allI impI assms)

lemma rq_content_nth: "i < repair_symbols_queue_length wff \<Longrightarrow>
    rq_content wff ! i = repair_symbols_queue wff ! ((repair_symbols_queue_head wff + i) mod 6)"
  by (simp add: rq_content_def)

lemma rq_content_length [simp]: "length (rq_content wff) = repair_symbols_queue_length wff"
  by (simp add: rq_content_def)

lemma queue_symbol_room:
  assumes ok: "rq_ok wff" and len: "repair_symbols_queue_length wff < 6"
  shows "\<exists>wff'. queue_repair_symbol rs n first f wff = Some wff' \<and> rq_ok wff' \<and> rq_content wff' = rq_content wff @
    [\<lparr>qi_repair_symbol = Some rs, qi_first_protected_symbol = first, qi_fss = f, qi_n_protected_symbols = n\<rparr>]"
proof -
  let ?q = "repair_symbols_queue wff" and ?h = "repair_symbols_queue_head wff" and ?l = "repair_symbols_queue_length wff"
  let ?it = "\<lparr>qi_repair_symbol = Some rs, qi_first_protected_symbol = first, qi_fss = f, qi_n_protected_symbols = n\<rparr>"
  let ?idx = "(?h + ?l) mod 6"
  note O = rq_okD[OF ok]
  have idx: "u32_add ?h ?l mod 6 = ?idx" "?idx < length ?q" using O(1-3) len by (simp_all add: wrap_simps)
  have has: "has_repair_symbol_at_index wff ?idx = Some False"
    using O(4)[of ?l] len idx by (simp add: has_repair_symbol_at_index_def)
  let ?w = "wff\<lparr>repair_symbols_queue := ?q[?idx := ?it], repair_symbols_queue_length := ?l + 1\<rparr>"
  have "queue_repair_symbol rs n first f wff = Some ?w"
    using has O(1-3) idx by (simp add: queue_repair_symbol_def MAX_QUEUED_REPAIR_SYMBOLS_def Let_def put_item_at_index_def)
  moreover have at: "?q[?idx := ?it] ! ((?h + i) mod 6) = (if i = ?l then ?it else ?q ! ((?h + i) mod 6))" if "i < 6" for i
    using that len idx mod6[of i ?l ?h] by (auto simp: nth_list_update)
  have "rq_ok ?w" by (rule rq_okI) (use O len at in auto)
  moreover have "rq_content ?w = rq_content wff @ [?it]" using at len by (auto simp: rq_content_def)
  ultimately show ?thesis by blast
qed

lemma queue_symbol_full:
  assumes ok: "rq_ok wff" and len: "repair_symbols_queue_length wff = 6"
  shows "\<exists>wff'. queue_repair_symbol rs n first f wff = Some wff' \<and> rq_ok wff' \<and> rq_content wff' = tl (rq_content wff) @
    [\<lparr>qi_repair_symbol = Some rs, qi_first_protected_symbol = first, qi_fss = f, qi_n_protected_symbols = n\<rparr>]"
proof -
  let ?q = "repair_symbols_queue wff" and ?h = "repair_symbols_queue_head wff"
  let ?it = "\<lparr>qi_repair_symbol = Some rs, qi_first_protected_symbol = first, qi_fss = f, qi_n_protected_symbols = n\<rparr>"
  note O = rq_okD[OF ok]
  have idx: "u32_add ?h 6 mod 6 = ?h" "u32_add ?h (Suc 0) mod 6 = Suc ?h mod 6" using O(2) by (simp_all add: wrap_simps)
  have some: "qi_repair_symbol (?q ! ?h) \<noteq> None" using O(4)[of 0] O(2) len by simp
  let ?w = "wff\<lparr>repair_symbols_queue := ?q[?h := ?it], repair_symbols_queue_head := Suc ?h mod 6\<rparr>"
  have "queue_repair_symbol rs n first f wff = Some ?w"
    using some O(1,2) idx len by (cases wff) (simp add: queue_repair_symbol_def MAX_QUEUED_REPAIR_SYMBOLS_def Let_def
      put_item_at_index_def has_repair_symbol_at_index_def remove_item_at_index_def)
  moreover note at = ring_step[OF O(2) _ O(1), of _ ?it]
  have "rq_ok ?w" by (rule rq_okI) (use O(1) len at O(4)[of "Suc i" for i] in auto)
  moreover have "rq_content ?w = tl (rq_content wff) @ [?it]"
    by (rule nth_equalityI) (use at len in \<open>auto simp: rq_content_nth nth_append nth_tl\<close>)
  ultimately show ?thesis by blast
qed

lemma dequeue_symbol_eq:
  assumes ok: "rq_ok wff" and c: "rq_content wff = it # its"
  shows "peek_repair_symbol wff = Some (Some it) \<and> qi_repair_symbol it \<noteq> None \<and>
    (\<exists>wff'. dequeue_repair_symbol wff = Some (Some it, wff') \<and> rq_ok wff' \<and> rq_content wff' = its)"
proof -
  let ?q = "repair_symbols_queue wff" and ?h = "repair_symbols_queue_head wff" and ?l = "repair_symbols_queue_length wff"
  note O = rq_okD[OF ok]
  have l: "?l = Suc (length its)" using arg_cong[OF c, of length] by simp
  then have it: "it = ?q ! ?h" using rq_content_nth[of 0 wff] c O(2) by simp
  have some: "qi_repair_symbol it \<noteq> None" using O(4)[of 0] O(2) l it by simp
  have peek: "peek_repair_symbol wff = Some (Some it)"
    using O(1,2) l it some by (simp add: peek_repair_symbol_def has_repair_symbol_at_index_def)
  let ?e = "it\<lparr>qi_repair_symbol := None, qi_n_protected_symbols := 0\<rparr>"
  let ?w = "wff\<lparr>repair_symbols_queue := ?q[?h := ?e], repair_symbols_queue_head := (if ?l > 1 then Suc ?h mod 6 else ?h),
    repair_symbols_queue_length := ?l - 1\<rparr>"
  have "u32_add ?h (Suc 0) mod 6 = Suc ?h mod 6" using O(2) by (simp add: wrap_simps)
  then have "dequeue_repair_symbol wff = Some (Some it, ?w)"
    using peek O(1,2) l it by (cases wff) (simp add: dequeue_repair_symbol_def remove_item_at_index_def MAX_QUEUED_REPAIR_SYMBOLS_def Let_def)
  moreover note at = ring_step[OF O(2) _ O(1), of _ ?e]
  have at0: "?q[?h := ?e] ! ((?h + i) mod 6) = (if i = 0 then ?e else ?q ! ((?h + i) mod 6))" if "i < 6" for i
    using that O(1,2) mod6[of i 0 ?h] by (auto simp: nth_list_update)
  have "rq_ok ?w"
  proof (cases "?l > 1")
    case True
    have "qi_repair_symbol (?q[?h := ?e] ! ((Suc ?h mod 6 + i) mod 6)) = None \<longleftrightarrow> \<not> i < ?l - 1" if "i < 6" for i
      using at[OF that] O(3) O(4)[of "Suc i"] that l by (cases "i = 5") auto
    with O(1-3) True show ?thesis by (intro rq_okI) simp_all
  next
    case False
    have "qi_repair_symbol (?q[?h := ?e] ! ((?h + i) mod 6)) = None" if "i < 6" for i
      using at0[OF that] O(4)[OF that] l False by auto
    with O(1,2) False l show ?thesis by (intro rq_okI) simp_all
  qed
  moreover have "rq_content ?w = its"
  proof (rule nth_equalityI)
    fix i assume "i < length (rq_content ?w)"
    then have i: "i < length its" "?l > 1" "i < 5" using l O(3) by auto
    then have "rq_content ?w ! i = ?q ! ((?h + Suc i) mod 6)" using at[of i] l by (simp add: rq_content_nth)
    also have "\<dots> = rq_content wff ! Suc i" using i l by (simp add: rq_content_nth)
    finally show "rq_content ?w ! i = its ! i" by (simp add: c)
  qed (simp add: l)
  ultimately show ?thesis using peek some by blast
qed

text \<open>An entry: the symbol, the number of protected symbols, the first of them and the scheme-specific value.\<close>

definition entry :: "queue_item \<Rightarrow> window_repair_symbol \<times> nat \<times> nat \<times> bytes" where
  "entry it = (the (qi_repair_symbol it), qi_n_protected_symbols it, qi_first_protected_symbol it, qi_fss it)"

definition rq_items :: "repair_queue \<Rightarrow> (window_repair_symbol \<times> nat \<times> nat \<times> bytes) list" where
  "rq_items wff = map entry (rq_content wff)"

definition rq_enq :: "window_repair_symbol \<times> nat \<times> nat \<times> bytes \<Rightarrow> repair_queue \<Rightarrow> repair_queue option" where
  "rq_enq = (\<lambda>(rs, n, first, f). queue_repair_symbol rs n first f)"

definition rq_deq :: "repair_queue \<Rightarrow> ((window_repair_symbol \<times> nat \<times> nat \<times> bytes) option \<times> repair_queue) option" where
  "rq_deq wff = map_option (map_prod (map_option entry) id) (dequeue_repair_symbol wff)"

interpretation repair_fifo: bounded_queue rq_ok rq_items 6 rq_enq rq_deq
proof unfold_locales
  fix q :: repair_queue and x :: "window_repair_symbol \<times> nat \<times> nat \<times> bytes"
  assume ok: "rq_ok q"
  obtain rs n first f where x: "x = (rs, n, first, f)" by (cases x) auto
  let ?it = "\<lparr>qi_repair_symbol = Some rs, qi_first_protected_symbol = first, qi_fss = f, qi_n_protected_symbols = n\<rparr>"
  show "\<exists>q'. rq_enq x q = Some q' \<and> rq_ok q' \<and> rq_items q' = drop (length (rq_items q) + 1 - 6) (rq_items q @ [x])"
  proof (cases "repair_symbols_queue_length q < 6")
    case True
    with queue_symbol_room[OF ok True, of rs n first f] show ?thesis
      by (auto simp: rq_enq_def rq_items_def x entry_def)
  next
    case False
    then have "repair_symbols_queue_length q = 6" using rq_okD(3)[OF ok] by simp
    moreover from this have "rq_content q \<noteq> []" using rq_content_length[of q] by force
    ultimately show ?thesis using queue_symbol_full[OF ok, of rs n first f]
      by (auto simp: rq_enq_def rq_items_def x entry_def map_tl drop_Suc)
  qed
next
  fix q y ys assume ok: "rq_ok q" and c: "rq_items q = y # ys"
  then obtain it its where it: "rq_content q = it # its" "y = entry it" "ys = map entry its" by (auto simp: rq_items_def)
  from dequeue_symbol_eq[OF ok it(1)] it show "\<exists>q'. rq_deq q = Some (Some y, q') \<and> rq_ok q' \<and> rq_items q' = ys"
    by (auto simp: rq_deq_def rq_items_def)
next
  fix q assume "rq_ok q" "rq_items q = []"
  then have "repair_symbols_queue_length q = 0" using rq_content_length[of q] by (simp add: rq_items_def)
  then show "rq_deq q = Some (None, q)"
    by (simp add: rq_deq_def dequeue_repair_symbol_def peek_repair_symbol_def has_repair_symbol_at_index_def)
next
  fix q assume "rq_ok q"
  then show "length (rq_items q) \<le> 6" by (simp add: rq_items_def rq_okD(3))
qed

lemma queue_symbols_enq_all: "queue_repair_symbols rss n first wff = enq_all rq_enq (map (\<lambda>rs. (rs, n, first, fss rs)) rss) wff"
proof (induction rss arbitrary: wff)
  case (Cons rs rss)
  then show ?case by (cases "queue_repair_symbol rs n first (fss rs) wff") (simp_all add: rq_enq_def)
qed simp

lemma peek_items:
  assumes "rq_ok wff" "rq_items wff = (rs, n, first, f) # its"
  obtains wff' where "peek_repair_symbol wff = Some (Some \<lparr>qi_repair_symbol = Some rs, qi_first_protected_symbol = first,
      qi_fss = f, qi_n_protected_symbols = n\<rparr>)" "\<exists>it. dequeue_repair_symbol wff = Some (it, wff')"
    "rq_ok wff'" "rq_items wff' = its"
proof -
  obtain it its' where it: "rq_content wff = it # its'" "entry it = (rs, n, first, f)" "its = map entry its'"
    using assms(2) by (auto simp: rq_items_def)
  note D = dequeue_symbol_eq[OF assms(1) it(1)]
  then have "it = \<lparr>qi_repair_symbol = Some rs, qi_first_protected_symbol = first, qi_fss = f, qi_n_protected_symbols = n\<rparr>"
    using it(2) by (cases it) (auto simp: entry_def)
  with D it(3) show thesis by (auto simp: rq_items_def intro: that)
qed

section \<open>The frame\<close>

text \<open>The entries that protect \<open>n\<close> symbols from \<open>first\<close> on and fit into the remaining bytes.\<close>

definition batch :: "nat \<Rightarrow> nat \<Rightarrow> nat \<Rightarrow> nat \<Rightarrow> (window_repair_symbol \<times> nat \<times> nat \<times> bytes) list \<Rightarrow>
    (window_repair_symbol \<times> nat \<times> nat \<times> bytes) list" where
  "batch room s n first its = take (room div s) (takeWhile (\<lambda>(_, n', first', _). n' = n \<and> first' = first) its)"

lemma batch_Cons: "0 < s \<Longrightarrow> batch room s n first ((rs, n', first', f) # its) =
    (if s \<le> room \<and> n' = n \<and> first' = first then (rs, n', first', f) # batch (room - s) s n first its else [])"
  by (simp add: batch_def le_div_geq)

lemma batch_Nil [simp]: "batch room s n first [] = []"
  by (simp add: batch_def)

definition taken :: "repair_queue \<Rightarrow> window_repair_symbol option arraylist \<Rightarrow> window_repair_frame \<Rightarrow>
    (window_repair_symbol \<times> nat \<times> nat \<times> bytes) list \<Rightarrow> (window_repair_symbol \<times> nat \<times> nat \<times> bytes) list \<Rightarrow>
    repair_queue \<times> window_repair_symbol option arraylist \<times> nat \<times> window_repair_frame \<Rightarrow> bool" where
  "taken wff al rf its p r \<longleftrightarrow> (case r of (wff', al', c', rf') \<Rightarrow>
     rq_ok wff' \<and> rq_items wff' = drop (length p) its \<and> al_ok al' \<and> al_list al' = al_list al @ map (Some \<circ> fst) p \<and>
     rf_fss rf' = rf_fss rf \<and> rf_n_protected_symbols rf' = rf_n_protected_symbols rf \<and>
     rf_first_protected_symbol rf' = rf_first_protected_symbol rf)"

lemma take_symbols_eq:
  assumes "\<forall>k. alloc k" "0 < s"
  shows "rq_ok wff \<Longrightarrow> rq_items wff = its \<Longrightarrow> al_ok al \<Longrightarrow> added + length its \<le> m \<Longrightarrow> 0 < added \<Longrightarrow> \<exists>r.
    take_symbols alloc s bm m wff al added c rf = Some r \<and>
    taken wff al rf its (batch (bm - c) s (rf_n_protected_symbols rf) (rf_first_protected_symbol rf) its) r"
proof (induction its arbitrary: wff al added c rf)
  case Nil
  then have "repair_symbols_queue_length wff = 0" using rq_content_length[of wff] by (simp add: rq_items_def)
  with Nil show ?case by (subst take_symbols.simps) (simp add: taken_def)
next
  case (Cons x its)
  obtain rs n first f where x: "x = (rs, n, first, f)" by (cases x) auto
  obtain wff' where w: "peek_repair_symbol wff = Some (Some \<lparr>qi_repair_symbol = Some rs, qi_first_protected_symbol = first,
      qi_fss = f, qi_n_protected_symbols = n\<rparr>)" "\<exists>it. dequeue_repair_symbol wff = Some (it, wff')" "rq_ok wff'" "rq_items wff' = its"
    using Cons.prems(1,2) x by (metis peek_items)
  have l: "repair_symbols_queue_length wff > 0" using arg_cong[OF Cons.prems(2), of length] by (simp add: rq_items_def)
  have m: "added < m" using Cons.prems(4) by simp
  let ?match = "n = rf_n_protected_symbols rf \<and> first = rf_first_protected_symbol rf"
  show ?case
  proof (cases "c + s \<le> bm \<and> ?match")
    case True
    obtain al' where al': "arraylist_push (alloc added) None al (Some rs) = Some (0, al')" "al_ok al'" "al_list al' = al_list al @ [Some rs]"
      using push_eq[OF Cons.prems(3)] assms(1) by metis
    let ?rf = "rf\<lparr>rf_is_fb_fec := rf_is_fb_fec rf \<or> is_fb_fec rs\<rparr>"
    obtain r where r: "take_symbols alloc s bm m wff' al' (added + 1) (c + s) ?rf = Some r"
      "taken wff' al' ?rf its (batch (bm - (c + s)) s (rf_n_protected_symbols rf) (rf_first_protected_symbol rf) its) r"
      using Cons.IH[OF w(3,4) al'(2), of "added + 1" "c + s" ?rf] Cons.prems(4) by auto
    have "take_symbols alloc s bm m wff al added c rf = Some r"
      using True w l m al'(1) r(1) Cons.prems(5) by (subst take_symbols.simps) auto
    moreover have "taken wff al rf (x # its) (batch (bm - c) s (rf_n_protected_symbols rf) (rf_first_protected_symbol rf) (x # its)) r"
      using r(2) al'(3) True assms(2) by (auto simp: taken_def x batch_Cons split: prod.splits)
    ultimately show ?thesis by blast
  next
    case False
    then have "take_symbols alloc s bm m wff al added c rf = Some (wff, al, c, rf)"
      using w(1) l m Cons.prems(5) by (subst take_symbols.simps) auto
    moreover have "batch (bm - c) s (rf_n_protected_symbols rf) (rf_first_protected_symbol rf) (x # its) = []"
      using False assms(2) by (auto simp: x batch_Cons)
    ultimately show ?thesis using Cons.prems by (auto simp: taken_def)
  qed
qed

lemma collect_eq:
  assumes "al_ok al" "al_list al = map Some xs"
  shows "i \<le> length xs \<Longrightarrow> collect al i (length xs - i) = Some (drop i xs)"
proof (induction "length xs - i" arbitrary: i)
  case (Suc k)
  then have i: "i < length xs" "length xs - i = Suc (length xs - (i + 1))" by auto
  have "collect al (i + 1) (length xs - (i + 1)) = Some (drop (i + 1) xs)" using Suc by simp
  moreover have "arraylist_get None al (int i) = Some (Some (xs ! i))" using get_eq[OF assms(1)] assms(2) i by simp
  ultimately show ?case using i by (simp add: Cons_nth_drop_Suc)
qed simp

lemma frame_to_send_eq:
  assumes ok: "rq_ok wff" and its: "rq_items wff = (rs, n, first, f) # its" and al: "\<forall>k. alloc k" and s: "0 < s" "12 + s \<le> bm"
  defines "p \<equiv> batch (bm - 12) s n first (rq_items wff)"
  obtains wff' rf where "get_repair_frame_to_send True alloc True s bm wff = Some (Inr (rf, 12 + length p * s), wff')"
    "rq_ok wff'" "rq_items wff' = drop (length p) (rq_items wff)" "rf_fss rf = f" "rf_first_protected_symbol rf = first"
    "rf_n_protected_symbols rf = n" "rf_n_repair_symbols rf = length p" "rf_symbols rf = map fst p" "0 < length p" "length p \<le> 6"
proof -
  have l6: "length (rq_items wff) \<le> 6" using ok rq_okD(3) by (simp add: rq_items_def)
  have p: "p = (rs, n, first, f) # batch (bm - (12 + s)) s n first its" using s by (simp add: p_def its batch_Cons)
  have p6: "length p \<le> 6" unfolding p_def batch_def
    by (simp add: min.coboundedI1 order.trans[OF length_takeWhile_le l6])
  obtain wff1 where w: "peek_repair_symbol wff = Some (Some \<lparr>qi_repair_symbol = Some rs, qi_first_protected_symbol = first,
      qi_fss = f, qi_n_protected_symbols = n\<rparr>)" "\<exists>it. dequeue_repair_symbol wff = Some (it, wff1)" "rq_ok wff1" "rq_items wff1 = its"
    using peek_items[OF ok its] by metis
  let ?al = "arraylist_init True None 5 :: window_repair_symbol option arraylist"
  obtain al1 where al1: "arraylist_push (alloc 0) None ?al (Some rs) = Some (0, al1)" "al_ok al1" "al_list al1 = [Some rs]"
    using push_eq[of ?al "alloc 0" None "Some rs"] init_eq[of 5 "None :: window_repair_symbol option"] al by auto
  let ?rf = "zero_frame\<lparr>rf_n_protected_symbols := n, rf_first_protected_symbol := first, rf_fss := f,
    rf_is_fb_fec := rf_is_fb_fec zero_frame \<or> is_fb_fec rs\<rparr>"
  have len: "repair_symbols_queue_length wff > 0" using arg_cong[OF its, of length] by (simp add: rq_items_def)
  obtain r where r: "take_symbols alloc s bm 100 wff1 al1 1 (12 + s) ?rf = Some r"
    "taken wff1 al1 ?rf its (batch (bm - (12 + s)) s n first its) r"
    using take_symbols_eq[OF al s(1) w(3,4) al1(2), of 1 100 bm "12 + s" ?rf] l6 its by auto
  obtain wff2 al2 c rf where R: "r = (wff2, al2, c, rf)" by (cases r) auto
  have t: "take_symbols alloc s bm 100 wff ?al 0 12 zero_frame = Some (wff2, al2, c, rf)"
    using w len s al1(1) r(1) R by (subst take_symbols.simps) (auto simp: zero_frame_def)
  have T: "rq_ok wff2" "rq_items wff2 = drop (length p) (rq_items wff)" "al_ok al2" "al_list al2 = map Some (map fst p)"
    "rf_fss rf = f" "rf_n_protected_symbols rf = n" "rf_first_protected_symbol rf = first"
    using r(2) al1(3) by (auto simp: taken_def R p its comp_def)
  have sz: "arraylist_size al2 = length p" using al_length[OF T(3)] T(4) by (simp add: arraylist_size_def)
  have c: "collect al2 0 (length p) = Some (map fst p)" using collect_eq[OF T(3,4), of 0] by simp
  show thesis
    by (rule that[of "rf\<lparr>rf_n_repair_symbols := length p, rf_symbols := map fst p\<rparr>" wff2])
      (use T sz c t len p6 p in \<open>auto simp: get_repair_frame_to_send_def get_repair_symbols_from_queue_def
        predict_window_repair_frame_length_def REPAIR_FRAME_HEADER_SIZE_def\<close>)
qed

text \<open>A repair symbol of two bytes that protects four source symbols from 7 on.\<close>

definition example_symbol :: "bytes \<Rightarrow> window_repair_symbol" where
  "example_symbol ds = constant_term (example_eq 7 [1, 2, 3, 4] ds)"

lemma new_repair_queue_ok: "rq_ok new_repair_queue" "rq_items new_repair_queue = []"
  by (auto simp: rq_ok_def new_repair_queue_def MAX_QUEUED_REPAIR_SYMBOLS_def rq_items_def rq_content_def)

section \<open>Properties\<close>

text \<open>
  C34. The queue of repair symbols is a first-in first-out queue that keeps the newest six symbols:
  whatever was in it, after any number of symbols have been queued it holds the last six of the
  old content followed by the new symbols, in order. The next frame takes symbols from its front
  until one protects different source symbols or the bytes are used up, carries the
  scheme-specific value of the first, and leaves the rest in the queue.
\<close>

theorem repair_queue_frame:
  assumes "rq_ok wff" "\<forall>k. alloc k" "0 < s" "12 + s \<le> bytes_max" "rss \<noteq> []"
  shows "\<exists>wff1 q. queue_repair_symbols rss n first wff = Some wff1 \<and> rq_ok wff1 \<and>
    q = drop (length (rq_items wff) + length rss - 6) (rq_items wff @ map (\<lambda>rs. (rs, n, first, fss rs)) rss) \<and> rq_items wff1 = q \<and>
    (case hd q of (_, n', first', f) \<Rightarrow>
      let p = take ((bytes_max - 12) div s) (takeWhile (\<lambda>(_, n'', first'', _). n'' = n' \<and> first'' = first') q) in
      \<exists>rf wff2. get_repair_frame_to_send True alloc True s bytes_max wff1 = Some (Inr (rf, 12 + length p * s), wff2) \<and>
        rq_ok wff2 \<and> rq_items wff2 = drop (length p) q \<and> rf_fss rf = f \<and> rf_first_protected_symbol rf = first' \<and>
        rf_n_protected_symbols rf = n' \<and> rf_symbols rf = map fst p \<and> rf_n_repair_symbols rf = length p \<and> 0 < length p)"
proof -
  let ?new = "map (\<lambda>rs. (rs, n, first, fss rs)) rss"
  let ?q = "drop (length (rq_items wff) + length rss - 6) (rq_items wff @ ?new)"
  obtain wff1 where w: "queue_repair_symbols rss n first wff = Some wff1" "rq_ok wff1" "rq_items wff1 = ?q"
    using repair_fifo.enq_all_content[OF assms(1), of ?new] unfolding queue_symbols_enq_all by auto
  have "?q \<noteq> []" using assms(5) by (cases rss) auto
  then obtain y its where y: "?q = y # its" unfolding neq_Nil_conv by blast
  obtain rs n' first' f where "y = (rs, n', first', f)" by (cases y) auto
  with y have q: "?q = (rs, n', first', f) # its" by blast
  let ?p = "batch (bytes_max - 12) s n' first' ?q"
  obtain wff2 rf where r: "get_repair_frame_to_send True alloc True s bytes_max wff1 = Some (Inr (rf, 12 + length ?p * s), wff2)"
    "rq_ok wff2" "rq_items wff2 = drop (length ?p) ?q" "rf_fss rf = f" "rf_first_protected_symbol rf = first'"
    "rf_n_protected_symbols rf = n'" "rf_n_repair_symbols rf = length ?p" "rf_symbols rf = map fst ?p" "0 < length ?p"
    by (rule frame_to_send_eq[OF w(2) trans[OF w(3) q] assms(2-4)]) (unfold w(3), blast)
  have hd: "hd ?q = (rs, n', first', f)" using q by simp
  show ?thesis
    unfolding hd[symmetric] by (rule exI[of _ wff1], rule exI[of _ ?q], unfold hd Let_def prod.case batch_def[symmetric])
      (use w r in blast)
qed

theorem repair_queue_frame_witness:
  "\<exists>wff1 wff2 rf. queue_repair_symbols [example_symbol [5, 6], example_symbol [8, 9]] 4 7 new_repair_queue = Some wff1 \<and>
    get_repair_frame_to_send True (\<lambda>_. True) True 2 17 wff1 = Some (Inr (rf, 16), wff2) \<and>
    rf_symbols rf = [example_symbol [5, 6], example_symbol [8, 9]]"
  using repair_queue_frame[OF new_repair_queue_ok(1), of "\<lambda>_. True" 2 17 "[example_symbol [5, 6], example_symbol [8, 9]]" 4 7]
  by (simp add: new_repair_queue_ok(2)) metis

end
