(* ===== verification/FecEncode.thy ===== *)
theory FecEncode
  imports RepairQueue TinyMT Decoding
begin

text \<open>
  The encoder of the erasure code, \<open>get_one_coded_symbol\<close> of
  \<^verbatim>\<open>online_rlc_gf256/protoops/fec_scheme_generate_gf256.c\<close>, and the equation the receiver makes of
  a repair symbol in \<^verbatim>\<open>fec_scheme_receive_repair_symbol.c\<close>. Both ends derive the same coefficients,
  so the equation holds for the source symbols that were sent.
\<close>

section \<open>The encoder\<close>

text \<open>The sum of the source symbols, each multiplied by its coefficient.\<close>

fun combine :: "gf_tables \<Rightarrow> bytes \<Rightarrow> bytes \<Rightarrow> bytes list \<Rightarrow> nat \<Rightarrow> bytes option" where
  "combine gf payload (c # cs) (src # srcs) n = do {
     payload \<leftarrow> symbol_add_scaled (gf_lib gf) payload c src n (mul_table gf);
     combine gf payload cs srcs n
   }"
| "combine gf payload cs srcs n = Some payload"

text \<open>One repair symbol; the inner \<open>None\<close> is a failed allocation.\<close>

definition code_symbol ::
  "gf_tables \<Rightarrow> bool \<times> bool \<Rightarrow> u8 \<Rightarrow> bytes list \<Rightarrow> nat \<Rightarrow> nat \<Rightarrow> u32 \<Rightarrow> window_repair_symbol option option" where
  "code_symbol gf alloc junk srcs symbol_size first_protected_id seed =
     (case create_window_repair_symbol (fst alloc) (snd alloc) junk symbol_size of
        None \<Rightarrow> Some None
      | Some rs \<Rightarrow> do {
          payload \<leftarrow> combine gf (repair_payload rs) (get_coefs fec_prng seed (length srcs)) srcs (align symbol_size);
          f \<leftarrow> encode_u32 seed (fss rs) 0;
          Some (Some (rs\<lparr>repair_payload := payload, n_protected_symbols := length srcs,
            first_id := first_protected_id, payload_length := symbol_size, fss := f\<rparr>))
        })"

text \<open>
  The loop over the symbols to generate. The state is the seed counter \<open>current_repair_symbol\<close>;
  the result says whether all symbols were allocated.
\<close>

function code_loop ::
  "gf_tables \<Rightarrow> (nat \<Rightarrow> bool \<times> bool) \<Rightarrow> u8 \<Rightarrow> bytes list \<Rightarrow> nat \<Rightarrow> nat \<Rightarrow> nat \<Rightarrow> nat \<Rightarrow> u32 \<Rightarrow>
   (bool \<times> window_repair_symbol list \<times> u32) option" where
  "code_loop gf alloc junk srcs symbol_size first_protected_id i n current =
     (if i < n then do {
        let seed = current;
        let current = current + 1;
        r \<leftarrow> code_symbol gf (alloc i) junk srcs symbol_size first_protected_id seed;
        (case r of
           None \<Rightarrow> Some (False, [], current)
         | Some rs \<Rightarrow> do {
             (ok, rss, current) \<leftarrow> code_loop gf alloc junk srcs symbol_size first_protected_id (i + 1) n current;
             Some (ok, rs # rss, current)
           })
      } else Some (True, [], current))"
  by pat_completeness auto
termination by (relation "measure (\<lambda>(gf, alloc, junk, srcs, s, f, i, n, c). n - i)") auto

text \<open>
  The operation: the return code, the symbols, the scheme-specific value of the first one and the
  new seed counter. The buffer of the coefficients is not tested for null.
\<close>

definition get_one_coded_symbol ::
  "gf_tables \<Rightarrow> bool \<Rightarrow> (nat \<Rightarrow> bool \<times> bool) \<Rightarrow> u8 \<Rightarrow> u32 \<Rightarrow> bytes list \<Rightarrow> nat \<Rightarrow> nat \<Rightarrow> nat \<Rightarrow>
   (error option \<times> window_repair_symbol list \<times> bytes \<times> u32) option" where
  "get_one_coded_symbol gf alloc_coefs alloc junk current srcs n_symbols_to_generate symbol_size first_protected_id =
     (if length srcs < 1 then Some (Some ERROR_NO_SOURCE_SYMBOLS, [], [0, 0, 0, 0], current)
      else if \<not> alloc_coefs \<and> n_symbols_to_generate > 0 then None
      else do {
        (ok, rss, next) \<leftarrow> code_loop gf alloc junk srcs symbol_size first_protected_id 0 n_symbols_to_generate current;
        (if \<not> ok then Some (Some PICOQUIC_ERROR_MEMORY, rss, [0, 0, 0, 0], next)
         else do {
           first_seed \<leftarrow> encode_u32 current [0, 0, 0, 0] 0;
           Some (None, rss, first_seed, next)
         })
      })"

section \<open>The receiver's equation\<close>

text \<open>
  The equation is not tested for null before its coefficients are written, the generator is: the
  inner \<open>None\<close> is the early return.
\<close>

definition repair_equation :: "bool \<Rightarrow> bool \<Rightarrow> bool \<Rightarrow> window_repair_symbol \<Rightarrow> equation option option" where
  "repair_equation alloc_eq alloc_coefs alloc_prng rs = do {
     eq \<leftarrow> equation_alloc_with_given_data alloc_eq alloc_coefs rs;
     (if \<not> alloc_prng then Some None
      else do {
        seed \<leftarrow> decode_u32 (fss rs) 0;
        eq \<leftarrow> eq;
        cs \<leftarrow> memcpy_at (coefs eq) 0 (get_coefs fec_prng seed (n_protected_symbols rs)) 0 (n_protected_symbols rs);
        Some (Some (eq\<lparr>coefs := cs\<rparr>))
      })
   }"

declare code_loop.simps [simp del]

section \<open>Correctness\<close>

lemma length_get_coefs [simp]: "length (get_coefs prng seed n) = n"
  by (simp add: get_coefs_def coefs_length)

text \<open>Byte \<open>k\<close> of the combination.\<close>

lemma combine_eq:
  assumes "tables_ok gf" "length cs = length srcs" "\<forall>src \<in> set srcs. n \<le> length src" "n \<le> length payload"
  obtains p where "combine gf payload cs srcs n = Some p" "length p = length payload"
    "\<And>k. k < n \<Longrightarrow> to_gf (p ! k) = to_gf (payload ! k) + (\<Sum>j<length srcs. to_gf (cs ! j) * to_gf (srcs ! j ! k))"
  using assms(2-4)
proof (induction cs srcs arbitrary: payload thesis rule: list_induct2)
  case Nil
  then show ?case by simp
next
  case (Cons c cs src srcs)
  let ?p = "map_range 0 n (\<lambda>k x. x XOR gf256_mul_formula c (src ! k)) payload"
  have add: "symbol_add_scaled (gf_lib gf) payload c src n (mul_table gf) = Some ?p"
    using assms(1) Cons.prems symbol_add_scaled_eq[of "gf_lib gf" n payload src c] by (simp add: tables_ok_def)
  obtain p where p: "combine gf ?p cs srcs n = Some p" "length p = length ?p"
    "\<And>k. k < n \<Longrightarrow> to_gf (p ! k) = to_gf (?p ! k) + (\<Sum>j<length srcs. to_gf (cs ! j) * to_gf (srcs ! j ! k))"
    by (rule Cons.IH[of ?p]) (use Cons.prems in auto)
  show ?case
  proof (rule Cons.prems(1))
    show "combine gf payload (c # cs) (src # srcs) n = Some p" using add p(1) by simp
    show "length p = length payload" using p(2) by simp
    fix k assume k: "k < n"
    have "to_gf (?p ! k) = to_gf (payload ! k) + to_gf c * to_gf (src ! k)"
      using k Cons.prems by (simp add: to_gf_xor to_gf_mul)
    with p(3)[OF k] show "to_gf (p ! k) = to_gf (payload ! k) +
        (\<Sum>j<length (src # srcs). to_gf ((c # cs) ! j) * to_gf ((src # srcs) ! j ! k))"
      by (simp add: sum.lessThan_Suc_shift add.assoc del: sum.lessThan_Suc)
  qed
qed

text \<open>A repair symbol that carries the combination of the source symbols for its seed.\<close>

definition coded :: "bytes list \<Rightarrow> nat \<Rightarrow> nat \<Rightarrow> u32 \<Rightarrow> window_repair_symbol \<Rightarrow> bool" where
  "coded srcs s first seed rs \<longleftrightarrow> fss rs = be_digits 4 (unat seed) \<and> first_id rs = first \<and>
     n_protected_symbols rs = length srcs \<and> payload_length rs = s \<and> length (repair_payload rs) = align s \<and>
     (\<forall>k < s. to_gf (repair_payload rs ! k) =
       (\<Sum>j<length srcs. to_gf (get_coefs fec_prng seed (length srcs) ! j) * to_gf (srcs ! j ! k)))"

lemma code_symbol_eq:
  assumes "tables_ok gf" "\<forall>src \<in> set srcs. align s \<le> length src" "fst alloc" "snd alloc"
  obtains rs where "code_symbol gf alloc junk srcs s first seed = Some (Some rs)" "coded srcs s first seed rs"
proof -
  let ?b = "overlay (replicate (align s) junk) 0 (replicate s 0)"
  have l: "length ?b = align s" using align_le[of s] by simp
  obtain p where p: "combine gf ?b (get_coefs fec_prng seed (length srcs)) srcs (align s) = Some p" "length p = length ?b"
    "\<And>k. k < align s \<Longrightarrow> to_gf (p ! k) = to_gf (?b ! k) +
       (\<Sum>j<length srcs. to_gf (get_coefs fec_prng seed (length srcs) ! j) * to_gf (srcs ! j ! k))"
    by (rule combine_eq[OF assms(1), of "get_coefs fec_prng seed (length srcs)" srcs "align s" ?b]) (use assms(2) l in auto)
  have z: "?b ! k = 0" if "k < s" for k using that align_le[of s] by (simp add: nth_overlay)
  let ?rs = "\<lparr>fss = be_digits 4 (unat seed), first_id = first, n_protected_symbols = length srcs, is_fb_fec = False,
    payload_length = s, repair_payload = p\<rparr>"
  have "code_symbol gf alloc junk srcs s first seed = Some (Some ?rs)"
    using assms p(1) by (simp add: code_symbol_def create_window_repair_symbol_def encode_u32_eq overlay_all del: be_digits.simps)
  moreover have "coded srcs s first seed ?rs"
    using p(2,3) l z align_le[of s] by (simp add: coded_def del: be_digits.simps)
  ultimately show thesis by (rule that)
qed

lemma code_loop_eq:
  assumes "tables_ok gf" "\<forall>src \<in> set srcs. align s \<le> length src" "\<forall>j. alloc j = (True, True)"
  shows "i \<le> n \<Longrightarrow> \<exists>rss. code_loop gf alloc junk srcs s first i n current = Some (True, rss, current + of_nat (n - i)) \<and>
    length rss = n - i \<and> (\<forall>j < n - i. coded srcs s first (current + of_nat j) (rss ! j))"
proof (induction "n - i" arbitrary: i current)
  case 0
  then show ?case by (simp add: code_loop.simps)
next
  case (Suc m)
  then have i: "i < n" "n - i = Suc (n - (i + 1))" by auto
  obtain rs where rs: "code_symbol gf (alloc i) junk srcs s first current = Some (Some rs)" "coded srcs s first current rs"
    by (rule code_symbol_eq[OF assms(1,2), of "alloc i"]) (use assms(3) in auto)
  have m: "m = n - (i + 1)" "i + 1 \<le> n" using Suc.hyps(2) i by auto
  obtain rss where rss: "code_loop gf alloc junk srcs s first (i + 1) n (current + 1) =
      Some (True, rss, current + 1 + of_nat (n - (i + 1)))" "length rss = n - (i + 1)"
    "\<forall>j < n - (i + 1). coded srcs s first (current + 1 + of_nat j) (rss ! j)"
    using Suc.hyps(1)[OF m, of "current + 1"] by blast
  have "code_loop gf alloc junk srcs s first i n current = Some (True, rs # rss, current + of_nat (n - i))"
    using rs rss i by (subst code_loop.simps) (simp add: algebra_simps)
  moreover have "coded srcs s first (current + of_nat j) ((rs # rss) ! j)" if "j < n - i" for j
    using rs rss(3) that i by (cases j) (auto simp: algebra_simps)
  ultimately show ?case using rss(2) i by auto
qed

text \<open>The equation of a coded symbol.\<close>

lemma repair_equation_eq:
  assumes c: "coded srcs s first seed rs" and w: "window lo hi" "lo \<le> first" "first + length srcs \<le> hi"
    and n: "0 < length srcs" and d: "dat_of = (\<lambda>i k. to_gf (srcs ! (i - first) ! k))"
  obtains eq where "repair_equation True True True rs = Some (Some eq)" "wf_eq lo hi s eq" "holds lo hi s dat_of eq"
proof -
  note C = c[unfolded coded_def]
  let ?n = "length srcs" and ?cs = "get_coefs fec_prng seed (length srcs)"
  have "first < 2 ^ 32 - 1" using w(1,3) n unfolding window_def by linarith
  then have first: "first \<noteq> SYMBOL_ID_NONE" by (auto simp: SYMBOL_ID_NONE_def)
  let ?e = "\<lparr>pivot = 0, last_non_zero_id = 0, constant_term = rs, n_coefs = ?n, coefs = replicate (align ?n) 0\<rparr>"
  have wf: "wf_eq lo hi s ?e" using C w n by (simp add: wf_eq_def)
  obtain r a b where adj: "equation_adjust_non_zero_bounds ?e = Some (r, ?e\<lparr>pivot := a, last_non_zero_id := b\<rparr>)"
    by (rule adjust_eq[OF wf])
  let ?eq = "?e\<lparr>pivot := a, last_non_zero_id := b, coefs := overlay (replicate (align ?n) 0) 0 ?cs\<rparr>"
  have "unat seed < 256 ^ 4" using unsigned_less[of seed, where 'a = nat] by simp
  from be_val_digits_0[OF this] have seed: "decode_u32 (fss rs) 0 = Some seed" using C by (simp add: decode_u32_eq del: be_digits.simps)
  have "repair_equation True True True rs = Some (Some ?eq)"
    using C first adj seed align_le[of ?n] by (simp add: repair_equation_def equation_alloc_with_given_data_def memcpy_at_def Let_def)
  moreover have "wf_eq lo hi s ?eq" using C w n align_le[of ?n] by (simp add: wf_eq_def)
  moreover have "holds lo hi s dat_of ?eq"
  proof (unfold holds_def, intro allI impI)
    fix k assume k: "k < s"
    have cf: "cf ?eq i = (if first \<le> i \<and> i < first + ?n then to_gf (?cs ! (i - first)) else 0)" for i
      using C align_le[of ?n] by (auto simp: cf_def nth_overlay)
    have "(\<Sum>i = lo..<hi. cf ?eq i * dat_of i k) = (\<Sum>i = first..<first + ?n. cf ?eq i * dat_of i k)"
      by (rule sum.mono_neutral_right) (use w cf in auto)
    also have "\<dots> = (\<Sum>j = 0..<?n. cf ?eq (j + first) * dat_of (j + first) k)"
      using sum.shift_bounds_nat_ivl[of "\<lambda>i. cf ?eq i * dat_of i k" 0 first ?n] by (simp add: add.commute)
    also have "\<dots> = (\<Sum>j<?n. to_gf (?cs ! j) * to_gf (srcs ! j ! k))"
      unfolding cf d by (rule sum.cong) (auto simp: lessThan_atLeast0)
    also have "\<dots> = dat ?eq k" using C k by (simp add: dat_def)
    finally show "(\<Sum>i = lo..<hi. cf ?eq i * dat_of i k) = dat ?eq k" .
  qed
  ultimately show thesis by (rule that)
qed

text \<open>
  The symbols of a coded batch agree with the symbols the receiver reads from the frame: the
  scheme-specific values count up from that of the first.
\<close>

lemma coded_parsed:
  assumes c: "\<forall>j < n. coded srcs s first (seed + of_nat j) (rss ! j)" and n: "length rss = n" "0 < n" "j < n"
    and rf: "rf_fss rf = fss (rss ! 0)" "rf_n_protected_symbols rf = length srcs" and first: "first < 2 ^ 30"
  shows "coded srcs s first (seed + of_nat j)
    (parsed_symbol (rf\<lparr>rf_first_protected_symbol := first mod 2 ^ 30\<rparr>) junk s j (take s (repair_payload (rss ! j))))"
proof -
  have C: "coded srcs s first seed (rss ! 0)" using c n by force
  note D = c[rule_format, OF n(3), unfolded coded_def]
  have "unat seed < 256 ^ 4" using unsigned_less[of seed, where 'a = nat] by simp
  then have v: "be_val 0 (rf_fss rf) = unat seed" using C rf(1) be_val_digits_0 by (simp add: coded_def del: be_digits.simps)
  have "(unat seed + j) mod 2 ^ 32 = unat (seed + of_nat j)" by (simp add: unat_word_ariths unat_of_nat mod_add_right_eq)
  with v D rf(2) first align_le[of s] show ?thesis by (simp add: coded_def parsed_symbol_def nth_append del: be_digits.simps)
qed

lemma get_one_coded_symbol_eq:
  assumes "tables_ok gf" "srcs \<noteq> []" "\<forall>src \<in> set srcs. align s \<le> length src" "\<forall>j. alloc j = (True, True)"
  obtains rss where "get_one_coded_symbol gf True alloc junk seed srcs n s first =
      Some (None, rss, be_digits 4 (unat seed), seed + of_nat n)" "length rss = n"
    "\<forall>j < n. coded srcs s first (seed + of_nat j) (rss ! j)"
proof -
  obtain rss where r: "code_loop gf alloc junk srcs s first 0 n seed = Some (True, rss, seed + of_nat n)" "length rss = n"
    "\<forall>j < n. coded srcs s first (seed + of_nat j) (rss ! j)"
    using code_loop_eq[OF assms(1,3,4), of 0 n junk first seed] by auto
  have "length srcs \<noteq> 0" using assms(2) by simp
  with r(1) have "get_one_coded_symbol gf True alloc junk seed srcs n s first =
      Some (None, rss, be_digits 4 (unat seed), seed + of_nat n)"
    by (simp add: get_one_coded_symbol_def encode_u32_eq overlay_all Suc_le_eq del: be_digits.simps)
  from this r(2,3) show thesis by (rule that)
qed

text \<open>The frame made of a coded batch that fits into it.\<close>

lemma coded_frame:
  assumes c: "\<forall>j < n. coded srcs s first (seed + of_nat j) (rss ! j)" and n: "length rss = n" "0 < n" "n \<le> 6"
    and s: "0 < s" "12 + n * s \<le> bm" "n * s < 2 ^ 31" and N: "length srcs < 2 ^ 16"
  obtains wff1 rf wff2 where "queue_repair_symbols rss (length srcs) first new_repair_queue = Some wff1"
    "get_repair_frame_to_send True (\<lambda>_. True) True s bm wff1 = Some (Inr (rf, 12 + n * s), wff2)" "frame_ok rf s"
    "rf_fss rf = fss (rss ! 0)" "rf_n_protected_symbols rf = length srcs" "rf_first_protected_symbol rf = first" "rf_symbols rf = rss"
proof -
  let ?its = "map (\<lambda>rs. (rs, length srcs, first, fss rs)) rss"
  obtain wff1 where w: "queue_repair_symbols rss (length srcs) first new_repair_queue = Some wff1" "rq_ok wff1" "rq_items wff1 = ?its"
    using repair_fifo.enq_all_content[OF new_repair_queue_ok(1), of ?its] n
    unfolding queue_symbols_enq_all new_repair_queue_ok(2) by auto
  have its: "?its = (rss ! 0, length srcs, first, fss (rss ! 0)) # tl ?its" using n by (cases rss) auto
  have "length ?its \<le> (bm - 12) div s" using s n(1) by (simp add: less_eq_div_iff_mult_less_eq)
  moreover have "takeWhile (\<lambda>(_, n', first', _). n' = length srcs \<and> first' = first) ?its = ?its"
    by (rule takeWhile_eq_all_conv[THEN iffD2]) auto
  ultimately have b: "batch (bm - 12) s (length srcs) first ?its = ?its" unfolding batch_def by (simp only: take_all)
  have bm: "12 + s \<le> bm" using s n(2) by (cases n) auto
  obtain wff2 rf where r: "get_repair_frame_to_send True (\<lambda>_. True) True s bm wff1 = Some (Inr (rf, 12 + n * s), wff2)"
    "rf_fss rf = fss (rss ! 0)" "rf_n_protected_symbols rf = length srcs" "rf_first_protected_symbol rf = first"
    "rf_n_repair_symbols rf = n" "rf_symbols rf = rss"
    by (rule frame_to_send_eq[OF w(2) trans[OF w(3) its], of "\<lambda>_. True" s bm, unfolded w(3) b])
      (use s(1) n(1) bm in \<open>simp_all add: comp_def\<close>)
  have rs: "length (fss rs) = 4 \<and> payload_length rs = s \<and> s \<le> length (repair_payload rs)" if "rs \<in> set rss" for rs
    using that c n(1) align_le[of s] by (auto simp: in_set_conv_nth coded_def)
  have "frame_ok rf s" using r n s N rs by (simp add: frame_ok_def)
  with w(1) r show thesis by (intro that)
qed

section \<open>Properties\<close>

text \<open>
  C32. From the encoder to the decoder's equations: the repair symbols generated for a window of
  source symbols are queued, put into a frame whose length is predicted, written to a packet and
  parsed by the peer, and the equation the peer makes of each of them holds for the source symbols
  that were sent.
\<close>

theorem repair_symbols_end_to_end:
  assumes "tables_ok gf" "srcs \<noteq> []" "\<forall>src \<in> set srcs. align s \<le> length src" "0 < s" "0 < n" "n \<le> 6"
    "12 + n * s \<le> bytes_max" "bytes_max \<le> length out" "length out < 2 ^ 31"
    "window lo hi" "lo \<le> first" "first + length srcs \<le> hi" "hi \<le> 2 ^ 30" "\<forall>j. alloc j = (True, True)"
  shows "\<exists>rss f seed' wff1 rf wff2 out' rf'.
    get_one_coded_symbol gf True alloc junk seed srcs n s first = Some (None, rss, f, seed') \<and>
    queue_repair_symbols rss (length srcs) first new_repair_queue = Some wff1 \<and>
    get_repair_frame_to_send True (\<lambda>_. True) True s bytes_max wff1 = Some (Inr (rf, 12 + n * s), wff2) \<and>
    serialize_window_repair_frame out bytes_max rf s = Some (Inr (out', 12 + n * s)) \<and>
    parse_window_repair_frame True True alloc junk out' bytes_max s False = Some (Some (rf', 12 + n * s)) \<and>
    length (rf_symbols rf') = n \<and>
    (\<forall>rs \<in> set (rf_symbols rf'). \<exists>eq. repair_equation True True True rs = Some (Some eq) \<and> wf_eq lo hi s eq \<and>
      holds lo hi s (\<lambda>i k. to_gf (srcs ! (i - first) ! k)) eq)"
proof -
  obtain rss where rss: "get_one_coded_symbol gf True alloc junk seed srcs n s first =
      Some (None, rss, be_digits 4 (unat seed), seed + of_nat n)" "length rss = n"
    "\<forall>j < n. coded srcs s first (seed + of_nat j) (rss ! j)"
    by (rule get_one_coded_symbol_eq[OF assms(1-3,14)])
  have N: "0 < length srcs" using assms(2) by blast
  then have N: "0 < length srcs" "length srcs < 2 ^ 16" "first < 2 ^ 30" using assms(10-13) unfolding window_def by linarith+
  have sz: "n * s < 2 ^ 31" "bytes_max < 2 ^ 64" using assms(7-9) by auto
  obtain wff1 rf wff2 where r: "queue_repair_symbols rss (length srcs) first new_repair_queue = Some wff1"
    "get_repair_frame_to_send True (\<lambda>_. True) True s bytes_max wff1 = Some (Inr (rf, 12 + n * s), wff2)" "frame_ok rf s"
    "rf_fss rf = fss (rss ! 0)" "rf_n_protected_symbols rf = length srcs" "rf_first_protected_symbol rf = first" "rf_symbols rf = rss"
    by (rule coded_frame[OF rss(3,2) assms(5,6,4,7) sz(1) N(2)])
  have len: "12 + length (rf_symbols rf) * s \<le> bytes_max" using r(7) rss(2) assms(7) by simp
  have l: "length (frame_bytes rf s) = 12 + n * s"
    using r(3) rss(2) r(7) by (simp add: frame_bytes_def frame_ok_def length_payloads)
  let ?P = "map2 (parsed_symbol (rf\<lparr>rf_first_protected_symbol := first mod 2 ^ 30\<rparr>) junk s) [0..<n] (map (\<lambda>rs. take s (repair_payload rs)) rss)"
  have out: "overlay out 0 (frame_bytes rf s) = frame_bytes rf s @ drop (12 + n * s) out" by (simp add: overlay_def l)
  have P: "\<exists>eq. repair_equation True True True (?P ! j) = Some (Some eq) \<and> wf_eq lo hi s eq \<and>
      holds lo hi s (\<lambda>i k. to_gf (srcs ! (i - first) ! k)) eq" if "j < n" for j
  proof -
    have "coded srcs s first (seed + of_nat j) (?P ! j)"
      using coded_parsed[OF rss(3,2) assms(5) that r(4,5) N(3), of junk] that rss(2) by simp
    from repair_equation_eq[OF this assms(10-12) N(1) refl] show ?thesis by metis
  qed
  have eqs: "\<forall>rs \<in> set ?P. \<exists>eq. repair_equation True True True rs = Some (Some eq) \<and> wf_eq lo hi s eq \<and>
      holds lo hi s (\<lambda>i k. to_gf (srcs ! (i - first) ! k)) eq"
    using P rss(2) by (auto simp: in_set_conv_nth)
  have parse: "parse_window_repair_frame True True alloc junk (overlay out 0 (frame_bytes rf s)) bytes_max s False =
      Some (Some (rf\<lparr>rf_is_fb_fec := False, rf_first_protected_symbol := first mod 2 ^ 30, rf_symbols := ?P\<rparr>, 12 + n * s))"
    unfolding out using parse_frame_eq[OF r(3) assms(14) len sz(2), of junk "drop (12 + n * s) out"] r(6,7) rss(2) by simp
  have ser: "serialize_window_repair_frame out bytes_max rf s = Some (Inr (overlay out 0 (frame_bytes rf s), 12 + n * s))"
    using serialize_frame_eq[OF r(3) len assms(8)] r(7) rss(2) by simp
  show ?thesis
    by (intro exI conjI, rule rss(1), rule r(1), rule r(2), rule ser, rule parse) (use rss(2) eqs in simp_all)
qed

theorem repair_symbols_end_to_end_witness:
  "\<exists>rss f seed' wff1 rf wff2 out' rf'.
    get_one_coded_symbol example_tables True (\<lambda>_. (True, True)) 0 3 [replicate 32 5, replicate 32 7] 2 2 5 = Some (None, rss, f, seed') \<and>
    queue_repair_symbols rss 2 5 new_repair_queue = Some wff1 \<and>
    get_repair_frame_to_send True (\<lambda>_. True) True 2 20 wff1 = Some (Inr (rf, 16), wff2) \<and>
    serialize_window_repair_frame (replicate 30 0) 20 rf 2 = Some (Inr (out', 16)) \<and>
    parse_window_repair_frame True True (\<lambda>_. (True, True)) 0 out' 20 2 False = Some (Some (rf', 16)) \<and> length (rf_symbols rf') = 2"
proof -
  let ?srcs = "[replicate 32 5, replicate 32 7] :: bytes list"
  have a: "\<forall>src \<in> set ?srcs. align 2 \<le> length src" by (simp add: align_def ALIGNMENT_def)
  from repair_symbols_end_to_end[OF example_tables_ok _ a, of 2 20 "replicate 30 0" 5 7 5 "\<lambda>_. (True, True)" 0 3]
  have "\<exists>rss f seed' wff1 rf wff2 out' rf'.
    get_one_coded_symbol example_tables True (\<lambda>_. (True, True)) 0 3 ?srcs 2 2 5 = Some (None, rss, f, seed') \<and>
    queue_repair_symbols rss (length ?srcs) 5 new_repair_queue = Some wff1 \<and>
    get_repair_frame_to_send True (\<lambda>_. True) True 2 20 wff1 = Some (Inr (rf, 12 + 2 * 2), wff2) \<and>
    serialize_window_repair_frame (replicate 30 0) 20 rf 2 = Some (Inr (out', 12 + 2 * 2)) \<and>
    parse_window_repair_frame True True (\<lambda>_. (True, True)) 0 out' 20 2 False = Some (Some (rf', 12 + 2 * 2)) \<and> length (rf_symbols rf') = 2"
    by (simp add: window_def) blast
  then show ?thesis by (simp add: numeral_2_eq_2)
qed

end
