(* ===== verification/PluginMemory.thy ===== *)
theory PluginMemory
  imports UbpfCorrect
begin

text \<open>
  The fixed-block memory manager of a plugin (\<^verbatim>\<open>picoquic/memory.c\<close>): a pool of equal blocks inside
  the memory area of the plugin, with a free list that lives in the first eight bytes of the free
  blocks and is built lazily. The model works on the flat byte memory of the eBPF machine, so what
  the pool stores in the blocks and what the plugin writes into them share one memory.

  The lemmas show that the pool is a correct allocator under every sequence of its operations and
  of writes of the plugin into its own blocks. The result \<open>None\<close> is the call of \<open>exit\<close> for a
  missing pool.
\<close>

section \<open>Pool and operations\<close>

definition PLUGIN_MEMORY :: nat where "PLUGIN_MEMORY = 16 * 1024 * 1024"

definition MAGIC_NUMBER :: u64 where "MAGIC_NUMBER = 0xa110ca7ab1e"

record memory_pool =
  num_of_blocks :: u64
  size_of_each_block :: u64
  num_free_blocks :: u64
  num_initialized :: u64
  mem_start :: u64
  mp_next :: u64

definition addr_from_index :: "memory_pool \<Rightarrow> u64 \<Rightarrow> u64" where
  "addr_from_index mp i = mem_start mp + i * size_of_each_block mp"

definition index_from_addr :: "memory_pool \<Rightarrow> u64 \<Rightarrow> u64" where
  "index_from_addr mp p = (p - mem_start mp) div size_of_each_block mp"

text \<open>The writing of the header word of the next block that was never used.\<close>

definition initialize_block :: "memory_pool \<Rightarrow> memory \<Rightarrow> memory_pool \<times> memory" where
  "initialize_block mp h =
     (if num_initialized mp < num_of_blocks mp
      then (mp\<lparr>num_initialized := num_initialized mp + 1\<rparr>,
        store_mem h (addr_from_index mp (num_initialized mp)) 8 (num_initialized mp + 1))
      else (mp, h))"

text \<open>The removal of the first free block; 0 is the null pointer.\<close>

definition pop_block :: "memory_pool \<Rightarrow> memory \<Rightarrow> u64 \<times> memory_pool" where
  "pop_block mp h =
     (if num_free_blocks mp > 0
      then let n = num_free_blocks mp - 1 in
        (mp_next mp, mp\<lparr>num_free_blocks := n,
          mp_next := (if n > 0 then addr_from_index mp (load_mem h (mp_next mp) 8) else 0)\<rparr>)
      else (0, mp))"

definition my_malloc_block :: "memory_pool option \<Rightarrow> u32 \<Rightarrow> memory \<Rightarrow> (u64 \<times> memory_pool \<times> memory) option" where
  "my_malloc_block ctx sz h = do {
     mp \<leftarrow> ctx;
     (if ucast sz > size_of_each_block mp - 8 then Some (0, mp, h)
      else do {
        let (mp, h) = initialize_block mp h;
        let (ret, mp) = pop_block mp h;
        (if ret \<noteq> 0 then Some (ret + 8, mp, store_mem h ret 8 MAGIC_NUMBER) else Some (0, mp, h))
      })
   }"

text \<open>
  Freeing reports a block without the magic number and a pointer outside the pool, and goes on in
  both cases.
\<close>

datatype report = BAD_METADATA | NOT_BELONGING_TO_THE_PLUGIN

definition my_free_block :: "memory_pool option \<Rightarrow> u64 \<Rightarrow> memory \<Rightarrow> (report list \<times> memory_pool \<times> memory) option" where
  "my_free_block ctx ptr h = do {
     let ptr = ptr - 8;
     let bad = (if load_mem h ptr 8 \<noteq> MAGIC_NUMBER then [BAD_METADATA] else []);
     mp \<leftarrow> ctx;
     let h = store_mem h ptr 8 (if mp_next mp \<noteq> 0 then index_from_addr mp (mp_next mp) else num_of_blocks mp);
     let outside = (if mem_start mp \<le> ptr \<and> ptr < mem_start mp + num_of_blocks mp * size_of_each_block mp
       then [] else [NOT_BELONGING_TO_THE_PLUGIN]);
     Some (bad @ outside, mp\<lparr>mp_next := ptr, num_free_blocks := num_free_blocks mp + 1\<rparr>, h)
   }"

definition my_realloc_block :: "memory_pool option \<Rightarrow> u64 \<Rightarrow> u32 \<Rightarrow> memory \<Rightarrow> (u64 \<times> memory_pool \<times> memory) option" where
  "my_realloc_block ctx ptr sz h = do {
     mp \<leftarrow> ctx;
     (if ucast sz > size_of_each_block mp - 8
      then do { (_, mp, h) \<leftarrow> my_free_block (Some mp) ptr h; Some (0, mp, h) }
      else Some (ptr, mp, h))
   }"

text \<open>
  The product of \<open>my_calloc\<close> has 64 bits, the argument of \<open>my_malloc\<close> has 32, and \<open>my_memset\<close>
  gets the product again.
\<close>

definition my_calloc :: "memory_pool option \<Rightarrow> u64 \<Rightarrow> u64 \<Rightarrow> memory \<Rightarrow> (u64 \<times> memory_pool \<times> memory) option" where
  "my_calloc ctx nmemb sz h = do {
     (ret, mp, h) \<leftarrow> my_malloc_block ctx (ucast (nmemb * sz)) h;
     Some (ret, mp, if ret \<noteq> 0 then write_bytes h ret (replicate (unat (nmemb * sz)) 0) else h)
   }"

definition init_block_memory_management :: "bool \<Rightarrow> u64 \<Rightarrow> memory_pool option" where
  "init_block_memory_management alloc memory =
     (if alloc then Some \<lparr>num_of_blocks = of_nat (PLUGIN_MEMORY div 2100), size_of_each_block = 2100,
        num_free_blocks = of_nat (PLUGIN_MEMORY div 2100), num_initialized = 0, mem_start = memory, mp_next = memory\<rparr>
      else None)"

definition IS_IN_PLUGIN_MEMORY :: "u64 \<Rightarrow> u64 \<Rightarrow> bool" where
  "IS_IN_PLUGIN_MEMORY memory ptr \<longleftrightarrow> ptr = 0 \<or> memory < ptr \<and> ptr < memory + of_nat PLUGIN_MEMORY"

section \<open>Words in the flat memory\<close>

lemma unat_ucast_u32: "unat (ucast (w :: u32) :: u64) = unat w"
  by transfer simp

lemma offset_eq: "a < 2 ^ 64 \<Longrightarrow> b < 2 ^ 64 \<Longrightarrow> (m0 :: u64) + of_nat a = m0 + of_nat b \<longleftrightarrow> a = b"
  by (simp add: word_of_nat_eq_iff take_bit_nat_eq_self)

lemma write_bytes_offset:
  "off + length bs \<le> 2 ^ 64 \<Longrightarrow> k < 2 ^ 64 \<Longrightarrow>
   write_bytes h (m0 + of_nat off) bs (m0 + of_nat k) =
     (if off \<le> k \<and> k < off + length bs then bs ! (k - off) else h (m0 + of_nat k))"
proof (induction bs arbitrary: h off)
  case Nil
  then show ?case by auto
next
  case (Cons b bs)
  have s: "m0 + of_nat off + 1 = m0 + of_nat (Suc off)" by simp
  have "write_bytes h (m0 + of_nat off) (b # bs) (m0 + of_nat k) =
    (if Suc off \<le> k \<and> k < Suc off + length bs then bs ! (k - Suc off) else (h(m0 + of_nat off := b)) (m0 + of_nat k))"
    using Cons.IH[of "Suc off"] Cons.prems unfolding s[symmetric] by simp
  also have "(h(m0 + of_nat off := b)) (m0 + of_nat k) = (if k = off then b else h (m0 + of_nat k))"
    using offset_eq[of k off m0] Cons.prems by simp
  finally show ?case by (auto simp: nth_Cons' Suc_diff_Suc)
qed

lemma value_of_bytes_of: "n \<le> 8 \<Longrightarrow> value_of (bytes_of n x) = take_bit (8 * n) x"
proof (induction n arbitrary: x)
  case 0
  then show ?case by simp
next
  case (Suc n)
  show ?case
    by (rule bit_word_eqI) (use Suc in \<open>auto simp: bit_simps\<close>)
qed

lemma load_mem_offset:
  assumes "off + 8 \<le> 2 ^ 64"
  shows "load_mem h (m0 + of_nat off) 8 = value_of (map (\<lambda>i. h (m0 + of_nat (off + i))) [0..<8])"
  by (simp add: load_mem_def add.assoc)

lemma load_write:
  assumes "off + length bs \<le> 2 ^ 64" "k + 8 \<le> 2 ^ 64" "k + 8 \<le> off \<or> off + length bs \<le> k"
  shows "load_mem (write_bytes h (m0 + of_nat off) bs) (m0 + of_nat k) 8 = load_mem h (m0 + of_nat k) 8"
proof -
  have "map (\<lambda>i. write_bytes h (m0 + of_nat off) bs (m0 + of_nat (k + i))) [0..<8] = map (\<lambda>i. h (m0 + of_nat (k + i))) [0..<8]"
  proof (rule map_cong)
    fix i assume "i \<in> set [0..<8 :: nat]"
    then show "write_bytes h (m0 + of_nat off) bs (m0 + of_nat (k + i)) = h (m0 + of_nat (k + i))"
      using assms by (subst write_bytes_offset) auto
  qed simp
  then show ?thesis by (simp only: load_mem_offset[OF assms(2)])
qed

lemma load_store:
  assumes "off + 8 \<le> 2 ^ 64"
  shows "load_mem (store_mem h (m0 + of_nat off) 8 v) (m0 + of_nat off) 8 = v"
proof -
  have "map (\<lambda>i. store_mem h (m0 + of_nat off) 8 v (m0 + of_nat (off + i))) [0..<8] = bytes_of 8 v"
  proof (rule nth_equalityI)
    fix i assume "i < length (map (\<lambda>i. store_mem h (m0 + of_nat off) 8 v (m0 + of_nat (off + i))) [0..<8])"
    then have i: "i < 8" by simp
    then have "write_bytes h (m0 + of_nat off) (bytes_of 8 v) (m0 + of_nat (off + i)) = bytes_of 8 v ! i"
      using assms by (subst write_bytes_offset) auto
    then show "map (\<lambda>i. store_mem h (m0 + of_nat off) 8 v (m0 + of_nat (off + i))) [0..<8] ! i = bytes_of 8 v ! i"
      using i by (simp add: store_mem_def)
  qed simp
  then show ?thesis using value_of_bytes_of[of 8 v] by (simp only: load_mem_offset[OF assms]) (simp add: take_bit_word_eq_self)
qed

lemma load_store_other:
  assumes "off + 8 \<le> 2 ^ 64" "k + 8 \<le> 2 ^ 64" "k + 8 \<le> off \<or> off + 8 \<le> k"
  shows "load_mem (store_mem h (m0 + of_nat off) 8 v) (m0 + of_nat k) 8 = load_mem h (m0 + of_nat k) 8"
  unfolding store_mem_def by (rule load_write) (use assms in simp_all)

section \<open>The invariant of the pool\<close>

text \<open>
  The area of the plugin starts at \<open>m0\<close>. Block \<open>i\<close> starts \<open>2100 * i\<close> bytes later; its header is
  its first word.
\<close>

definition NB :: nat where "NB = PLUGIN_MEMORY div 2100"

definition blk :: "u64 \<Rightarrow> nat \<Rightarrow> u64" where
  "blk m0 i = m0 + of_nat (2100 * i)"

definition header :: "memory \<Rightarrow> u64 \<Rightarrow> nat \<Rightarrow> u64" where
  "header h m0 i = load_mem h (blk m0 i) 8"

definition area_ok :: "u64 \<Rightarrow> bool" where
  "area_ok m0 \<longleftrightarrow> m0 \<noteq> 0 \<and> unat m0 + PLUGIN_MEMORY < 2 ^ 64"

text \<open>
  The free list holds some of the first \<open>I\<close> blocks in any order, linked by their headers, and then
  all blocks that were never used, in order and not yet linked.
\<close>

definition free_list :: "memory \<Rightarrow> u64 \<Rightarrow> nat \<Rightarrow> nat list \<Rightarrow> bool" where
  "free_list h m0 I L \<longleftrightarrow> distinct L \<and> (\<exists>L1. L = L1 @ [I..<NB] \<and> set L1 \<subseteq> {..<I}) \<and>
     (\<forall>k. Suc k < length L \<longrightarrow> L ! k < I \<longrightarrow> header h m0 (L ! k) = of_nat (L ! Suc k))"

definition pool_inv :: "u64 \<Rightarrow> memory_pool \<Rightarrow> memory \<Rightarrow> nat list \<Rightarrow> nat \<Rightarrow> nat set \<Rightarrow> bool" where
  "pool_inv m0 mp h L I live \<longleftrightarrow> area_ok m0 \<and>
     num_of_blocks mp = of_nat NB \<and> size_of_each_block mp = 2100 \<and> mem_start mp = m0 \<and>
     I \<le> NB \<and> num_initialized mp = of_nat I \<and> num_free_blocks mp = of_nat (length L) \<and>
     mp_next mp = (case L of [] \<Rightarrow> 0 | i # _ \<Rightarrow> blk m0 i) \<and>
     free_list h m0 I L \<and> set L \<inter> live = {} \<and> set L \<union> live = {..<NB} \<and>
     (\<forall>i \<in> live. header h m0 i = MAGIC_NUMBER)"

lemma NB_eq: "NB = 7989"
  by (simp add: NB_def PLUGIN_MEMORY_def)

lemma blk_nonzero: "area_ok m0 \<Longrightarrow> i < NB \<Longrightarrow> blk m0 i \<noteq> 0"
proof
  assume a: "area_ok m0" "i < NB" "blk m0 i = 0"
  then have "unat m0 + 2100 * i < 2 ^ 64" by (simp add: area_ok_def PLUGIN_MEMORY_def NB_eq)
  then have "unat (blk m0 i) = unat m0 + 2100 * i"
    unfolding blk_def by (subst unat_add_lem[THEN iffD1]) (auto simp: unat_of_nat_u64 simp del: of_nat_mult)
  then show False using a by (simp add: area_ok_def unat_eq_0)
qed

lemma blk_eq_iff: "i < NB \<Longrightarrow> j < NB \<Longrightarrow> blk m0 i = blk m0 j \<longleftrightarrow> i = j"
  unfolding blk_def by (subst offset_eq) (auto simp: NB_eq)

lemma header_store:
  "i < NB \<Longrightarrow> j < NB \<Longrightarrow> header (store_mem h (blk m0 i) 8 v) m0 j = (if j = i then v else header h m0 j)"
  unfolding header_def blk_def by (auto simp: NB_eq load_store intro!: load_store_other simp del: of_nat_mult)

lemma addr_index: "size_of_each_block mp = 2100 \<Longrightarrow> mem_start mp = m0 \<Longrightarrow> addr_from_index mp (of_nat i) = blk m0 i"
  by (simp add: addr_from_index_def blk_def)

lemma index_addr:
  assumes "size_of_each_block mp = 2100" "mem_start mp = m0" "i < NB"
  shows "index_from_addr mp (blk m0 i) = of_nat i"
proof -
  have "(of_nat (2100 * i) :: u64) div 2100 = of_nat i"
    using assms(3) by (simp add: word_unat_eq_iff unat_div unat_of_nat_u64 NB_eq del: of_nat_mult)
  then show ?thesis using assms by (simp add: index_from_addr_def blk_def)
qed

text \<open>The bytes that differ belong to the headers of the blocks in \<open>S\<close>.\<close>

definition only_headers :: "u64 \<Rightarrow> nat set \<Rightarrow> memory \<Rightarrow> memory \<Rightarrow> bool" where
  "only_headers m0 S h h' \<longleftrightarrow> (\<forall>a. h' a \<noteq> h a \<longrightarrow> (\<exists>i \<in> S. \<exists>k < 8. a = blk m0 i + of_nat k))"

lemma only_headers_refl: "only_headers m0 S h h"
  by (simp add: only_headers_def)

lemma only_headers_trans: "only_headers m0 S h h' \<Longrightarrow> only_headers m0 S h' h'' \<Longrightarrow> only_headers m0 S h h''"
  unfolding only_headers_def by metis

lemma only_headers_store: "i \<in> S \<Longrightarrow> only_headers m0 S h (store_mem h (blk m0 i) 8 v)"
  unfolding only_headers_def store_mem_def using write_bytes_other[of "bytes_of 8 v" _ "blk m0 i" h] by fastforce

lemma free_list_header:
  assumes "free_list h m0 I L" "\<And>i. i < I \<Longrightarrow> i \<in> set L \<Longrightarrow> header h' m0 i = header h m0 i"
  shows "free_list h' m0 I L"
  using assms unfolding free_list_def by (metis Suc_lessD nth_mem)

lemma free_list_step:
  assumes "free_list h m0 I L" "I < NB"
  shows "free_list (store_mem h (blk m0 I) 8 (of_nat I + 1)) m0 (Suc I) L" (is "free_list ?h _ _ _")
proof -
  obtain L1 where L: "L = L1 @ [I..<NB]" "set L1 \<subseteq> {..<I}" and d: "distinct L"
    and ch: "\<And>k. Suc k < length L \<Longrightarrow> L ! k < I \<Longrightarrow> header h m0 (L ! k) = of_nat (L ! Suc k)"
    using assms(1) unfolding free_list_def by blast
  have "header ?h m0 (L ! k) = of_nat (L ! Suc k)" if k: "Suc k < length L" "L ! k < Suc I" for k
  proof (cases "L ! k = I")
    case True
    have "L ! length L1 = I" "length L1 < length L" using L(1) assms(2) by (auto simp: nth_append)
    then have "k = length L1" using True k(1) nth_eq_iff_index_eq[OF d, of k "length L1"] by simp
    then have "L ! Suc k = Suc I" using k(1) L(1) by (simp add: nth_append)
    then show ?thesis using True assms(2) by (simp add: header_store)
  next
    case False
    then show ?thesis using ch[of k] k assms(2) by (simp add: header_store)
  qed
  moreover have "L = (L1 @ [I]) @ [Suc I..<NB]" "set (L1 @ [I]) \<subseteq> {..<Suc I}"
    using L assms(2) by (auto simp: upt_rec)
  ultimately show ?thesis using d unfolding free_list_def by blast
qed

lemma free_list_le: "free_list h m0 I L \<Longrightarrow> I \<le> NB \<Longrightarrow> set L \<subseteq> {..<NB}"
  unfolding free_list_def by auto

lemma free_list_length: "free_list h m0 I L \<Longrightarrow> I \<le> NB \<Longrightarrow> length L \<le> NB"
  using card_mono[OF _ free_list_le[of h m0 I L]] distinct_card[of L] unfolding free_list_def by auto

lemma free_listE:
  assumes "free_list h m0 I L"
  obtains L1 where "L = L1 @ [I..<NB]" "set L1 \<subseteq> {..<I}" "distinct L"
  using assms unfolding free_list_def by blast

lemma free_listD: "free_list h m0 I L \<Longrightarrow> Suc k < length L \<Longrightarrow> L ! k < I \<Longrightarrow> header h m0 (L ! k) = of_nat (L ! Suc k)"
  unfolding free_list_def by blast

lemma free_listI:
  assumes "distinct (L1 @ [I..<NB])" "set L1 \<subseteq> {..<I}"
    "\<And>k. Suc k < length (L1 @ [I..<NB]) \<Longrightarrow> (L1 @ [I..<NB]) ! k < I \<Longrightarrow>
      header h m0 ((L1 @ [I..<NB]) ! k) = of_nat ((L1 @ [I..<NB]) ! Suc k)"
  shows "free_list h m0 I (L1 @ [I..<NB])"
  using assms unfolding free_list_def by blast

lemma free_list_tl:
  assumes "free_list h m0 I (i # L)" "i < I"
  shows "free_list h m0 I L"
proof -
  obtain L1 where L: "i # L = L1 @ [I..<NB]" "set L1 \<subseteq> {..<I}" "distinct (i # L)" by (rule free_listE[OF assms(1)])
  have "L1 \<noteq> []" using L(1) assms(2) by (cases "I < NB") (auto simp: upt_rec)
  then have "L = tl L1 @ [I..<NB]" "set (tl L1) \<subseteq> {..<I}" using L(1,2) by (cases L1; auto)+
  moreover have "header h m0 (L ! k) = of_nat (L ! Suc k)" if "Suc k < length L" "L ! k < I" for k
    using free_listD[OF assms(1), of "Suc k"] that by simp
  ultimately show ?thesis using L(3) free_listI[of "tl L1" I h m0] by auto
qed

lemma free_list_Cons:
  assumes "free_list h m0 I L" "i < I" "i \<notin> set L" "L \<noteq> [] \<Longrightarrow> header h m0 i = of_nat (hd L)"
  shows "free_list h m0 I (i # L)"
proof -
  obtain L1 where L: "L = L1 @ [I..<NB]" "set L1 \<subseteq> {..<I}" "distinct L" by (rule free_listE[OF assms(1)])
  then have L': "i # L = (i # L1) @ [I..<NB]" "set (i # L1) \<subseteq> {..<I}" using assms(2) by auto
  have "header h m0 ((i # L) ! k) = of_nat ((i # L) ! Suc k)" if "Suc k < length (i # L)" "(i # L) ! k < I" for k
    using that assms(4) free_listD[OF assms(1)] by (cases k) (auto simp: hd_conv_nth)
  with L' show ?thesis using L(3) assms(3) free_listI[of "i # L1" I h m0] by (simp only: L'(1)[symmetric]) simp
qed

section \<open>The operations keep the invariant\<close>

lemma init_pool_inv:
  "area_ok m0 \<Longrightarrow> \<exists>mp. init_block_memory_management True m0 = Some mp \<and> pool_inv m0 mp h [0..<NB] 0 {}"
proof -
  assume a: "area_ok m0"
  have "0 < NB" by (simp add: NB_eq)
  then have "[0..<NB] = 0 # [Suc 0..<NB]" by (rule upt_conv_Cons)
  then have "(case [0..<NB] of [] \<Rightarrow> 0 | i # _ \<Rightarrow> blk m0 i) = m0" by (simp add: blk_def)
  moreover have "free_list h m0 0 [0..<NB]" using free_listI[of "[]" 0 h m0] by simp
  ultimately show ?thesis using a
    by (auto simp: init_block_memory_management_def pool_inv_def NB_def[symmetric])
qed

lemma initialize_inv:
  assumes "pool_inv m0 mp h L I live" "initialize_block mp h = (mp', h')"
  obtains I' where "pool_inv m0 mp' h' L I' live" "L \<noteq> [] \<Longrightarrow> hd L < I'" "only_headers m0 (set L) h h'"
proof (cases "I < NB")
  case True
  have inv: "free_list h m0 I L" "num_initialized mp = of_nat I" "num_of_blocks mp = of_nat NB" "set L \<inter> live = {}" "live \<subseteq> {..<NB}"
    "addr_from_index mp (of_nat I) = blk m0 I" "\<forall>i \<in> live. header h m0 i = MAGIC_NUMBER"
    using assms(1) addr_index[of mp m0 I] unfolding pool_inv_def by auto
  have lt: "(of_nat I :: u64) < of_nat NB" using True by (simp add: word_less_nat_alt unat_of_nat_u64 NB_eq)
  have r: "mp' = mp\<lparr>num_initialized := of_nat I + 1\<rparr>" "h' = store_mem h (blk m0 I) 8 (of_nat I + 1)"
    using assms(2) lt inv by (auto simp: initialize_block_def)
  obtain L1 where L: "L = L1 @ [I..<NB]" "set L1 \<subseteq> {..<I}" using inv(1) unfolding free_list_def by blast
  have I: "I \<in> set L" "L \<noteq> [] \<Longrightarrow> hd L < Suc I" using L True by (auto simp: hd_append split: if_splits dest: hd_in_set)
  have "header h' m0 j = MAGIC_NUMBER" if "j \<in> live" for j
  proof -
    have "j < NB" "j \<noteq> I" using that inv(4,5) I(1) by auto
    then show ?thesis using inv(7) that by (simp add: r(2) header_store[OF True])
  qed
  then have "pool_inv m0 mp' h' L (Suc I) live"
    using assms(1) free_list_step[OF inv(1) True] True unfolding pool_inv_def r by (auto simp: add.commute)
  then show thesis using that I only_headers_store[OF I(1)] unfolding r(2) by blast
next
  case False
  then have "mp' = mp" "h' = h" "I = NB"
    using assms unfolding initialize_block_def pool_inv_def by (auto split: if_splits)
  moreover have "hd L < NB" if "L \<noteq> []"
    using that assms(1) free_list_le[of h m0 I L] hd_in_set[of L] unfolding pool_inv_def by auto
  ultimately show thesis using that[of I] assms(1) only_headers_refl by simp
qed

lemma pop_inv:
  assumes "pool_inv m0 mp h (i # L) I live" "i < I"
  obtains mp' where "pop_block mp h = (blk m0 i, mp')"
    "pool_inv m0 mp' (store_mem h (blk m0 i) 8 MAGIC_NUMBER) L I (insert i live)"
proof -
  let ?h = "store_mem h (blk m0 i) 8 MAGIC_NUMBER"
  have inv: "free_list h m0 I (i # L)" "I \<le> NB" "num_free_blocks mp = of_nat (Suc (length L))" "mp_next mp = blk m0 i"
    "set (i # L) \<inter> live = {}" "set (i # L) \<union> live = {..<NB}" "\<forall>i \<in> live. header h m0 i = MAGIC_NUMBER" "i \<notin> set L"
    using assms(1) unfolding pool_inv_def free_list_def by auto
  have len: "Suc (length L) \<le> NB" using free_list_length[OF inv(1,2)] by simp
  then have n: "num_free_blocks mp > 0" "num_free_blocks mp - 1 = of_nat (length L)"
    "(of_nat (length L) :: u64) > 0 \<longleftrightarrow> L \<noteq> []"
    using inv(3) by (auto simp: word_less_nat_alt unat_of_nat_u64 NB_eq simp del: of_nat_Suc) simp
  have nxt: "addr_from_index mp (load_mem h (mp_next mp) 8) = blk m0 (hd L)" if "L \<noteq> []"
  proof -
    have "header h m0 i = of_nat (L ! 0)"
      using inv(1) assms(2) that unfolding free_list_def by (metis Suc_less_eq length_Cons length_greater_0_conv nth_Cons_0 nth_Cons_Suc)
    then show ?thesis using addr_index[of mp m0 "hd L"] assms(1) that inv(4) unfolding pool_inv_def header_def by (simp add: hd_conv_nth)
  qed
  let ?mp = "mp\<lparr>num_free_blocks := of_nat (length L), mp_next := (case L of [] \<Rightarrow> 0 | i # _ \<Rightarrow> blk m0 i)\<rparr>"
  have p: "pop_block mp h = (blk m0 i, ?mp)"
    using n nxt inv(4) unfolding pop_block_def by (cases L) (auto simp: Let_def)
  have i: "i < NB" using assms(2) inv(2) by simp
  have "header ?h m0 j = header h m0 j" if "j \<in> set L" for j
    using that inv(6,8) i by (subst header_store) auto
  then have "free_list ?h m0 I L" using free_list_header[OF free_list_tl[OF inv(1) assms(2)]] by blast
  moreover have "header ?h m0 j = MAGIC_NUMBER" if "j \<in> insert i live" for j
  proof -
    have "j < NB" using that inv(6) i by auto
    then show ?thesis using inv(7) that by (auto simp: header_store[OF i])
  qed
  ultimately have "pool_inv m0 ?mp ?h L I (insert i live)"
    using assms(1) inv(5,6,8) unfolding pool_inv_def by auto
  with p show thesis by (rule that)
qed

text \<open>Allocation succeeds exactly while blocks are free, and frees give the block back.\<close>

lemma malloc_inv:
  assumes "pool_inv m0 mp h L I live" "unat sz \<le> 2092"
  shows "\<exists>mp' h' I'. my_malloc_block (Some mp) sz h = Some (case L of [] \<Rightarrow> 0 | i # _ \<Rightarrow> blk m0 i + 8, mp', h') \<and>
    pool_inv m0 mp' h' (tl L) I' (case L of [] \<Rightarrow> live | i # _ \<Rightarrow> insert i live) \<and> only_headers m0 (set L) h h'"
proof -
  obtain mp1 h1 where i: "initialize_block mp h = (mp1, h1)" by fastforce
  obtain I1 where I1: "pool_inv m0 mp1 h1 L I1 live" "L \<noteq> [] \<Longrightarrow> hd L < I1" "only_headers m0 (set L) h h1"
    using initialize_inv[OF assms(1) i] by metis
  have sz: "\<not> size_of_each_block mp - 8 < ucast sz"
    using assms unfolding pool_inv_def by (simp add: word_less_nat_alt unat_ucast_u32)
  show ?thesis
  proof (cases L)
    case Nil
    then have "pop_block mp1 h1 = (0, mp1)" using I1(1) by (simp add: pool_inv_def pop_block_def)
    then have "my_malloc_block (Some mp) sz h = Some (0, mp1, h1)" using i sz by (simp add: my_malloc_block_def)
    then show ?thesis using Nil I1 by auto
  next
    case (Cons j L')
    obtain mp2 where p: "pop_block mp1 h1 = (blk m0 j, mp2)"
      "pool_inv m0 mp2 (store_mem h1 (blk m0 j) 8 MAGIC_NUMBER) L' I1 (insert j live)"
      using pop_inv[of m0 mp1 h1 j L' I1 live] I1 Cons by auto
    have "blk m0 j \<noteq> 0" using I1(1) Cons blk_nonzero[of m0 j] unfolding pool_inv_def by auto
    then have "my_malloc_block (Some mp) sz h = Some (blk m0 j + 8, mp2, store_mem h1 (blk m0 j) 8 MAGIC_NUMBER)"
      using i sz p(1) by (simp add: my_malloc_block_def)
    then show ?thesis using Cons p(2) only_headers_trans[OF I1(3) only_headers_store[of j]] by auto
  qed
qed

lemma malloc_large:
  assumes "pool_inv m0 mp h L I live" "\<not> unat sz \<le> 2092"
  shows "my_malloc_block (Some mp) sz h = Some (0, mp, h)"
proof -
  have "size_of_each_block mp - 8 < ucast sz"
    using assms unfolding pool_inv_def by (simp add: word_less_nat_alt unat_ucast_u32)
  then show ?thesis by (simp add: my_malloc_block_def)
qed

lemma free_inv:
  assumes "pool_inv m0 mp h L I live" "i \<in> live"
  shows "\<exists>mp' h'. my_free_block (Some mp) (blk m0 i + 8) h = Some ([], mp', h') \<and>
    pool_inv m0 mp' h' (i # L) I (live - {i}) \<and> only_headers m0 {i} h h'"
proof -
  have inv: "area_ok m0" "size_of_each_block mp = 2100" "mem_start mp = m0" "num_of_blocks mp = of_nat NB" "free_list h m0 I L" "I \<le> NB"
    "mp_next mp = (case L of [] \<Rightarrow> 0 | i # _ \<Rightarrow> blk m0 i)" "num_free_blocks mp = of_nat (length L)"
    "set L \<inter> live = {}" "set L \<union> live = {..<NB}" "header h m0 i = MAGIC_NUMBER" "\<forall>i \<in> live. header h m0 i = MAGIC_NUMBER"
    using assms unfolding pool_inv_def by auto
  have i: "i < NB" "i \<notin> set L" using assms(2) inv(9,10) by auto
  obtain L1 where "L = L1 @ [I..<NB]" by (rule free_listE[OF inv(5)])
  then have iI: "i < I" using i by auto
  let ?v = "if mp_next mp \<noteq> 0 then index_from_addr mp (mp_next mp) else num_of_blocks mp"
  let ?h = "store_mem h (blk m0 i) 8 ?v"
  let ?mp = "mp\<lparr>mp_next := blk m0 i, num_free_blocks := num_free_blocks mp + 1\<rparr>"
  have e: "unat m0 + 2100 * NB < 2 ^ 64" using inv(1) by (simp add: area_ok_def PLUGIN_MEMORY_def NB_eq)
  then have "m0 \<le> blk m0 i" "blk m0 i < m0 + of_nat NB * 2100"
  proof -
    have "unat (blk m0 i) = unat m0 + 2100 * i" "unat (m0 + of_nat (2100 * NB)) = unat m0 + 2100 * NB"
      unfolding blk_def using e i by (subst unat_add_lem[THEN iffD1]; auto simp: unat_of_nat_u64 NB_eq simp del: of_nat_mult)+
    then show "m0 \<le> blk m0 i" "blk m0 i < m0 + of_nat NB * 2100"
      using i by (simp_all add: word_le_nat_alt word_less_nat_alt mult.commute)
  qed
  then have f: "my_free_block (Some mp) (blk m0 i + 8) h = Some ([], ?mp, ?h)"
    using inv unfolding my_free_block_def header_def by (simp add: Let_def)
  have v: "?v = of_nat (hd L)" if "L \<noteq> []"
    using that inv(7) i(2) inv(10) blk_nonzero[OF inv(1), of "hd L"] index_addr[OF inv(2,3), of "hd L"]
    by (cases L) auto
  have other: "header ?h m0 j = header h m0 j" if "j \<in> set L \<union> (live - {i})" for j
  proof -
    have "j < NB" "j \<noteq> i" using that i inv(10) by auto
    then show ?thesis by (simp add: header_store[OF i(1)])
  qed
  have "free_list ?h m0 I (i # L)"
    by (rule free_list_Cons[OF free_list_header[OF inv(5)] iI i(2)]) (use other v header_store[OF i(1,1)] in auto)
  moreover have "set (i # L) \<union> (live - {i}) = {..<NB}" "set (i # L) \<inter> (live - {i}) = {}" using inv(9,10) assms(2) by auto
  ultimately have "pool_inv m0 ?mp ?h (i # L) I (live - {i})"
    using assms(1) inv(12) other unfolding pool_inv_def by (simp add: add.commute)
  then show ?thesis using f only_headers_store[of i "{i}"] by blast
qed

lemma pool_inv_headers:
  assumes "pool_inv m0 mp h L I live" "\<And>j. j < NB \<Longrightarrow> header h' m0 j = header h m0 j"
  shows "pool_inv m0 mp h' L I live"
proof -
  have "free_list h m0 I L" "I \<le> NB" "live \<subseteq> {..<NB}" using assms(1) unfolding pool_inv_def by auto
  then have "free_list h' m0 I L" "\<forall>i \<in> live. header h' m0 i = header h m0 i"
    using free_list_header[of h m0 I L h'] assms(2) by auto
  then show ?thesis using assms(1) unfolding pool_inv_def by auto
qed

lemma blk_offset: "blk m0 i + 8 + of_nat k = m0 + of_nat (2100 * i + 8 + k)"
  by (simp add: blk_def)

lemma write_inv:
  assumes "pool_inv m0 mp h L I live" "i \<in> live" "off + length bs \<le> 2092"
  shows "pool_inv m0 mp (write_bytes h (blk m0 i + 8 + of_nat off) bs) L I live"
proof (rule pool_inv_headers[OF assms(1)])
  fix j assume j: "j < NB"
  have i: "i < NB" using assms(1,2) unfolding pool_inv_def by auto
  have "2100 * j + 8 \<le> 2100 * i + 8 + off \<or> 2100 * i + 8 + off + length bs \<le> 2100 * j"
    using assms(3) by (cases "j \<le> i") auto
  then show "header (write_bytes h (blk m0 i + 8 + of_nat off) bs) m0 j = header h m0 j"
    unfolding header_def blk_offset unfolding blk_def
    by (intro load_write) (use i j assms(3) in \<open>simp_all add: NB_eq\<close>)
qed

section \<open>Runs of a plugin\<close>

text \<open>
  A state is the pool, the memory and the pointers the plugin holds. The plugin allocates, frees
  and reallocates what it holds and writes inside its blocks.
\<close>

type_synonym plugin_state = "memory_pool \<times> memory \<times> u64 set"

inductive plugin_step :: "plugin_state \<Rightarrow> plugin_state \<Rightarrow> bool" where
  malloc: "my_malloc_block (Some mp) sz h = Some (p, mp', h') \<Longrightarrow>
    plugin_step (mp, h, A) (mp', h', if p = 0 then A else insert p A)"
| calloc: "my_calloc (Some mp) n sz h = Some (p, mp', h') \<Longrightarrow> unat n * unat sz < 2 ^ 32 \<Longrightarrow>
    plugin_step (mp, h, A) (mp', h', if p = 0 then A else insert p A)"
| realloc: "p \<in> A \<Longrightarrow> my_realloc_block (Some mp) p sz h = Some (q, mp', h') \<Longrightarrow>
    plugin_step (mp, h, A) (mp', h', if q = 0 then A - {p} else A)"
| free: "p \<in> A \<Longrightarrow> my_free_block (Some mp) p h = Some (r, mp', h') \<Longrightarrow> plugin_step (mp, h, A) (mp', h', A - {p})"
| store: "p \<in> A \<Longrightarrow> off + length bs \<le> 2092 \<Longrightarrow>
    plugin_step (mp, h, A) (mp, write_bytes h (p + of_nat off) bs, A)"

inductive plugin_run :: "u64 \<Rightarrow> plugin_state \<Rightarrow> bool" for m0 where
  start: "init_block_memory_management True m0 = Some mp \<Longrightarrow> plugin_run m0 (mp, h, {})"
| step: "plugin_run m0 s \<Longrightarrow> plugin_step s s' \<Longrightarrow> plugin_run m0 s'"

text \<open>The pointers held are those of the live blocks.\<close>

definition state_ok :: "u64 \<Rightarrow> plugin_state \<Rightarrow> bool" where
  "state_ok m0 s \<longleftrightarrow> (case s of (mp, h, A) \<Rightarrow> \<exists>L I live. pool_inv m0 mp h L I live \<and> A = (\<lambda>i. blk m0 i + 8) ` live)"

lemma pointer_nonzero:
  assumes "area_ok m0" "i < NB"
  shows "blk m0 i + 8 \<noteq> 0"
proof
  assume z: "blk m0 i + 8 = 0"
  have "unat m0 + (2100 * i + 8) < 2 ^ 64" using assms by (simp add: area_ok_def PLUGIN_MEMORY_def NB_eq)
  then have "unat (m0 + of_nat (2100 * i + 8)) = unat m0 + (2100 * i + 8)"
    by (subst unat_add_lem[THEN iffD1]) (auto simp: unat_of_nat_u64 simp del: of_nat_mult of_nat_add)
  moreover have "m0 + of_nat (2100 * i + 8) = 0" using z by (simp add: blk_def add.assoc)
  ultimately show False by simp
qed

lemma only_headers_kept:
  assumes "only_headers m0 S h h'" "S \<subseteq> {..<NB}" "i < NB" "k < 2092"
  shows "h' (blk m0 i + 8 + of_nat k) = h (blk m0 i + 8 + of_nat k)"
proof (rule ccontr)
  assume "h' (blk m0 i + 8 + of_nat k) \<noteq> h (blk m0 i + 8 + of_nat k)"
  then obtain j l where j: "j < NB" "l < 8" "blk m0 i + 8 + of_nat k = blk m0 j + of_nat l"
    using assms(1,2) unfolding only_headers_def by blast
  then have "m0 + of_nat (2100 * i + 8 + k) = m0 + of_nat (2100 * j + l)" unfolding blk_offset by (simp add: blk_def add.assoc)
  then have "2100 * i + 8 + k = 2100 * j + l" using assms(3,4) j(1,2) by (subst (asm) offset_eq) (auto simp: NB_eq)
  then show False using assms(4) j(2) by (cases "j \<le> i") linarith+
qed

lemma state_okE:
  assumes "state_ok m0 (mp, h, A)"
  obtains L I live where "pool_inv m0 mp h L I live" "A = (\<lambda>i. blk m0 i + 8) ` live" "live \<subseteq> {..<NB}" "set L \<subseteq> {..<NB}"
    "card A = NB - length L" "length L \<le> NB"
proof -
  obtain L I live where l: "pool_inv m0 mp h L I live" "A = (\<lambda>i. blk m0 i + 8) ` live"
    using assms unfolding state_ok_def prod.case by blast
  then have s: "set L \<union> live = {..<NB}" "set L \<inter> live = {}" "distinct L" unfolding pool_inv_def free_list_def by auto
  then have sub: "live \<subseteq> {..<NB}" "set L \<subseteq> {..<NB}" by blast+
  have "inj_on (\<lambda>i. blk m0 i + 8) live"
  proof (rule inj_onI)
    fix i j assume "i \<in> live" "j \<in> live" "blk m0 i + 8 = blk m0 j + 8"
    then show "i = j" using sub(1) blk_eq_iff[of i j m0] by auto
  qed
  then have "card A = card live" using l(2) by (simp add: card_image)
  moreover have fin: "finite live" using finite_subset[OF sub(1)] by simp
  then have "card (set L) + card live = NB" using s card_Un_disjoint[OF _ fin s(2)] by simp
  ultimately show thesis using that[OF l sub] distinct_card[OF s(3)] by simp
qed

lemma malloc_ok:
  assumes "state_ok m0 (mp, h, A)"
  obtains p mp' h' where "my_malloc_block (Some mp) sz h = Some (p, mp', h')" "state_ok m0 (mp', h', if p = 0 then A else insert p A)"
    "p \<notin> A" "p \<noteq> 0 \<longleftrightarrow> unat sz \<le> 2092 \<and> card A < NB" "only_headers m0 {..<NB} h h'"
proof -
  obtain L I live where l: "pool_inv m0 mp h L I live" "A = (\<lambda>i. blk m0 i + 8) ` live" "live \<subseteq> {..<NB}" "set L \<subseteq> {..<NB}"
    "card A = NB - length L" "length L \<le> NB"
    by (rule state_okE[OF assms])
  have a: "area_ok m0" "set L \<inter> live = {}" using l(1) unfolding pool_inv_def by auto
  have z: "0 \<notin> A" using pointer_nonzero[OF a(1)] l(2,3) by auto
  show thesis
  proof (cases "unat sz \<le> 2092")
    case False
    then show thesis using that[OF malloc_large[OF l(1) False]] assms z only_headers_refl by simp
  next
    case True
    obtain mp' h' I' where m: "my_malloc_block (Some mp) sz h = Some (case L of [] \<Rightarrow> 0 | i # _ \<Rightarrow> blk m0 i + 8, mp', h')"
      "pool_inv m0 mp' h' (tl L) I' (case L of [] \<Rightarrow> live | i # _ \<Rightarrow> insert i live)" "only_headers m0 (set L) h h'"
      using malloc_inv[OF l(1) True] by blast
    have oh: "only_headers m0 {..<NB} h h'" using m(3) l(4) unfolding only_headers_def by blast
    show thesis
    proof (cases L)
      case Nil
      have "state_ok m0 (mp', h', A)" using m(2) Nil l(2) unfolding state_ok_def by auto
      then show thesis using that[OF m(1)] Nil z l(5) True oh by simp
    next
      case (Cons i L')
      have i: "i < NB" "i \<notin> live" using Cons l(4) a(2) by auto
      have p: "blk m0 i + 8 \<noteq> 0" "blk m0 i + 8 \<notin> A"
        using pointer_nonzero[OF a(1) i(1)] i l(2,3) by (auto simp: blk_eq_iff)
      have "state_ok m0 (mp', h', insert (blk m0 i + 8) A)" using m(2) Cons l(2) unfolding state_ok_def by auto
      then show thesis using that[OF m(1)] Cons p l(5,6) True oh by simp
    qed
  qed
qed

lemma free_ok:
  assumes "state_ok m0 (mp, h, A)" "p \<in> A"
  obtains mp' h' where "my_free_block (Some mp) p h = Some ([], mp', h')" "state_ok m0 (mp', h', A - {p})" "only_headers m0 {..<NB} h h'"
proof -
  obtain L I live where l: "pool_inv m0 mp h L I live" "A = (\<lambda>i. blk m0 i + 8) ` live" "live \<subseteq> {..<NB}" by (rule state_okE[OF assms(1)])
  obtain i where i: "i \<in> live" "p = blk m0 i + 8" using assms(2) l(2) by blast
  obtain mp' h' where f: "my_free_block (Some mp) p h = Some ([], mp', h')" "pool_inv m0 mp' h' (i # L) I (live - {i})" "only_headers m0 {i} h h'"
    using free_inv[OF l(1) i(1)] i(2) by blast
  have "A - {p} = (\<lambda>i. blk m0 i + 8) ` (live - {i})" using l(2,3) i by (auto simp: blk_eq_iff subset_iff)
  then have "state_ok m0 (mp', h', A - {p})" using f(2) unfolding state_ok_def by auto
  moreover have "only_headers m0 {..<NB} h h'" using f(3) i(1) l(3) unfolding only_headers_def by blast
  ultimately show thesis using that[OF f(1)] by blast
qed

lemma store_ok:
  assumes "state_ok m0 (mp, h, A)" "p \<in> A" "off + length bs \<le> 2092"
  shows "state_ok m0 (mp, write_bytes h (p + of_nat off) bs, A)"
proof -
  obtain L I live where l: "pool_inv m0 mp h L I live" "A = (\<lambda>i. blk m0 i + 8) ` live" by (rule state_okE[OF assms(1)])
  then show ?thesis using assms(2,3) write_inv[OF l(1)] unfolding state_ok_def by blast
qed

lemma plugin_step_ok: "plugin_step s s' \<Longrightarrow> state_ok m0 s \<Longrightarrow> state_ok m0 s'"
proof (induction rule: plugin_step.induct)
  case (malloc mp sz h p mp' h' A)
  show ?case by (rule malloc_ok[OF malloc.prems, of sz]) (use malloc.hyps in auto)
next
  case (calloc mp n sz h p mp' h' A)
  obtain q mp1 h1 where m: "my_malloc_block (Some mp) (ucast (n * sz)) h = Some (q, mp1, h1)"
    "state_ok m0 (mp1, h1, if q = 0 then A else insert q A)" "q \<noteq> 0 \<longleftrightarrow> unat (ucast (n * sz) :: u32) \<le> 2092 \<and> card A < NB"
    by (rule malloc_ok[OF calloc.prems])
  have r: "p = q" "mp' = mp1" "h' = (if q \<noteq> 0 then write_bytes h1 q (replicate (unat (n * sz)) 0) else h1)"
    using calloc.hyps(1) m(1) by (auto simp: my_calloc_def)
  have "unat (n * sz) = unat n * unat sz" using calloc.hyps(2) by (simp add: unat_mult_lem[THEN iffD1])
  then have "unat (ucast (n * sz) :: u32) = unat (n * sz)" using calloc.hyps(2) by (simp add: unsigned_ucast_eq take_bit_nat_eq_self)
  then show ?case using r m(2,3) store_ok[of m0 mp1 h1 "insert q A" q 0 "replicate (unat (n * sz)) 0"] by (cases "q = 0") auto
next
  case (realloc p A mp sz h q mp' h')
  obtain L I live where l: "pool_inv m0 mp h L I live" "A = (\<lambda>i. blk m0 i + 8) ` live" "live \<subseteq> {..<NB}" by (rule state_okE[OF realloc.prems])
  have "p \<noteq> 0" using realloc.hyps(1) l pointer_nonzero[of m0] unfolding pool_inv_def by auto
  obtain mp1 h1 where f: "my_free_block (Some mp) p h = Some ([], mp1, h1)" "state_ok m0 (mp1, h1, A - {p})"
    by (rule free_ok[OF realloc.prems realloc.hyps(1)])
  show ?case
  proof (cases "size_of_each_block mp - 8 < ucast sz")
    case True
    then show ?thesis using f realloc.hyps(2) by (simp add: my_realloc_block_def)
  next
    case False
    then show ?thesis using realloc.prems realloc.hyps(2) \<open>p \<noteq> 0\<close> by (simp add: my_realloc_block_def)
  qed
next
  case (free p A mp h r mp' h')
  show ?case by (rule free_ok[OF free.prems free.hyps(1)]) (use free.hyps(2) in auto)
next
  case (store p A off bs mp h)
  then show ?case by (intro store_ok)
qed

lemma plugin_run_ok: "plugin_run m0 s \<Longrightarrow> area_ok m0 \<Longrightarrow> state_ok m0 s"
proof (induction rule: plugin_run.induct)
  case (start mp h)
  then show ?case using init_pool_inv[OF start.prems, of h] unfolding state_ok_def by auto
next
  case (step s s')
  then show ?case using plugin_step_ok by blast
qed

lemma blk_unat:
  assumes "area_ok m0" "i < NB" "k \<le> 2092"
  shows "unat (blk m0 i + 8 + of_nat k) = unat m0 + (2100 * i + 8 + k)"
proof -
  have "unat m0 + (2100 * i + 8 + k) < 2 ^ 64" using assms by (simp add: area_ok_def PLUGIN_MEMORY_def NB_eq)
  then show ?thesis
    unfolding blk_offset by (subst unat_add_lem[THEN iffD1]) (auto simp: unat_of_nat_u64 simp del: of_nat_mult of_nat_add)
qed

text \<open>Every block handed out lies in the area of the plugin, and two of them do not overlap.\<close>

lemma state_ok_pointer:
  assumes "state_ok m0 (mp, h, A)" "p \<in> A"
  shows "IS_IN_PLUGIN_MEMORY m0 p" "unat m0 < unat p" "unat p + 2092 \<le> unat m0 + PLUGIN_MEMORY"
proof -
  obtain L I live where l: "pool_inv m0 mp h L I live" "A = (\<lambda>i. blk m0 i + 8) ` live" "live \<subseteq> {..<NB}" by (rule state_okE[OF assms(1)])
  obtain i where i: "i < NB" "p = blk m0 i + 8" using assms(2) l(2,3) by auto
  have a: "area_ok m0" using l(1) unfolding pool_inv_def by simp
  have u: "unat p = unat m0 + (2100 * i + 8)" using blk_unat[OF a i(1), of 0] i(2) by simp
  then show r: "unat m0 < unat p" "unat p + 2092 \<le> unat m0 + PLUGIN_MEMORY" using i(1) by (auto simp: NB_eq PLUGIN_MEMORY_def)
  have "unat (m0 + of_nat PLUGIN_MEMORY) = unat m0 + PLUGIN_MEMORY"
    using a unfolding area_ok_def by (subst unat_add_lem[THEN iffD1]) (auto simp: unat_of_nat_u64)
  then show "IS_IN_PLUGIN_MEMORY m0 p" using r unfolding IS_IN_PLUGIN_MEMORY_def by (simp add: word_less_nat_alt)
qed

lemma state_ok_disjoint:
  assumes "state_ok m0 (mp, h, A)" "p \<in> A" "q \<in> A" "p \<noteq> q" "k < 2092" "l < 2092"
  shows "p + of_nat k \<noteq> q + of_nat l"
proof
  assume e: "p + of_nat k = q + of_nat l"
  then have e: "unat (p + of_nat k) = unat (q + of_nat l)" by (rule arg_cong)
  obtain L I live where s: "pool_inv m0 mp h L I live" "A = (\<lambda>i. blk m0 i + 8) ` live" "live \<subseteq> {..<NB}" by (rule state_okE[OF assms(1)])
  obtain i j where i: "i < NB" "j < NB" "p = blk m0 i + 8" "q = blk m0 j + 8" using assms(2,3) s(2,3) by auto
  have "area_ok m0" using s(1) unfolding pool_inv_def by simp
  then have "2100 * i + k = 2100 * j + l" using e blk_unat[of m0 i k] blk_unat[of m0 j l] i assms(5,6) by simp
  moreover have "i \<noteq> j" using assms(4) i by auto
  ultimately show False using assms(5,6) by (cases "i < j") linarith+
qed

lemma state_ok_kept:
  assumes "state_ok m0 (mp, h, A)" "only_headers m0 {..<NB} h h'" "p \<in> A" "k < 2092"
  shows "h' (p + of_nat k) = h (p + of_nat k)"
proof -
  obtain L I live where l: "pool_inv m0 mp h L I live" "A = (\<lambda>i. blk m0 i + 8) ` live" "live \<subseteq> {..<NB}" by (rule state_okE[OF assms(1)])
  obtain i where i: "i < NB" "p = blk m0 i + 8" using assms(3) l(2,3) by auto
  show ?thesis using only_headers_kept[OF assms(2) _ i(1) assms(4)] i(2) by simp
qed

section \<open>The pool is a correct allocator\<close>

text \<open>
  C8. After any run of a plugin that allocates, frees, reallocates and writes inside its blocks, the
  blocks it holds lie inside its memory area and do not overlap. The next allocation succeeds
  exactly when the size fits a block and fewer than 7989 blocks are held; it returns a block that
  is not held and leaves the content of all held blocks alone. Freeing a held block reports no
  corruption and leaves the content of the other blocks alone.
\<close>

theorem plugin_memory_safe:
  assumes "plugin_run m0 (mp, h, A)" "m0 \<noteq> 0" "unat m0 + PLUGIN_MEMORY < 2 ^ 64"
  shows "(\<forall>p \<in> A. IS_IN_PLUGIN_MEMORY m0 p \<and> unat m0 < unat p \<and> unat p + 2092 \<le> unat m0 + PLUGIN_MEMORY) \<and>
    (\<forall>p \<in> A. \<forall>q \<in> A. p \<noteq> q \<longrightarrow> (\<forall>k < 2092. \<forall>l < 2092. p + of_nat k \<noteq> q + of_nat l)) \<and>
    (\<exists>p mp' h'. my_malloc_block (Some mp) sz h = Some (p, mp', h') \<and> p \<notin> A \<and>
      (p \<noteq> 0 \<longleftrightarrow> unat sz \<le> 2092 \<and> card A < 7989) \<and> (\<forall>q \<in> A. \<forall>k < 2092. h' (q + of_nat k) = h (q + of_nat k))) \<and>
    (\<forall>p \<in> A. \<exists>mp' h'. my_free_block (Some mp) p h = Some ([], mp', h') \<and>
      (\<forall>q \<in> A. \<forall>k < 2092. h' (q + of_nat k) = h (q + of_nat k)))"
proof (intro conjI ballI impI allI)
  have ok: "state_ok m0 (mp, h, A)" using plugin_run_ok[OF assms(1)] assms(2,3) by (simp add: area_ok_def)
  show "IS_IN_PLUGIN_MEMORY m0 p" "unat m0 < unat p" "unat p + 2092 \<le> unat m0 + PLUGIN_MEMORY" if "p \<in> A" for p
    using state_ok_pointer[OF ok that] by blast+
  show "p + of_nat k \<noteq> q + of_nat l" if "p \<in> A" "q \<in> A" "p \<noteq> q" "k < 2092" "l < 2092" for p q k l
    using state_ok_disjoint[OF ok that] .
  obtain p mp' h' where m: "my_malloc_block (Some mp) sz h = Some (p, mp', h')" "p \<notin> A"
    "p \<noteq> 0 \<longleftrightarrow> unat sz \<le> 2092 \<and> card A < NB" "only_headers m0 {..<NB} h h'"
    by (rule malloc_ok[OF ok])
  show "\<exists>p mp' h'. my_malloc_block (Some mp) sz h = Some (p, mp', h') \<and> p \<notin> A \<and>
      (p \<noteq> 0 \<longleftrightarrow> unat sz \<le> 2092 \<and> card A < 7989) \<and> (\<forall>q \<in> A. \<forall>k < 2092. h' (q + of_nat k) = h (q + of_nat k))"
    using m state_ok_kept[OF ok m(4)] by (auto simp: NB_eq)
  fix p assume "p \<in> A"
  then obtain mp' h' where "my_free_block (Some mp) p h = Some ([], mp', h')" "only_headers m0 {..<NB} h h'" by (rule free_ok[OF ok])
  then show "\<exists>mp' h'. my_free_block (Some mp) p h = Some ([], mp', h') \<and>
      (\<forall>q \<in> A. \<forall>k < 2092. h' (q + of_nat k) = h (q + of_nat k))"
    using state_ok_kept[OF ok] by blast
qed

text \<open>Two allocations of a fresh pool give the payloads of its first two blocks.\<close>

lemma two_blocks:
  "\<exists>mp h. plugin_run 0x1000 (mp, h, {0x1008, 0x183c})"
proof -
  have a: "area_ok 0x1000" by (simp add: area_ok_def PLUGIN_MEMORY_def)
  obtain mp where mp: "init_block_memory_management True 0x1000 = Some mp" "pool_inv 0x1000 mp (\<lambda>_. 0) [0..<NB] 0 {}"
    using init_pool_inv[OF a] by blast
  have "0 < NB" "Suc 0 < NB" by (simp_all add: NB_eq)
  then have L: "[0..<NB] = 0 # Suc 0 # [Suc (Suc 0)..<NB]" by (simp only: upt_conv_Cons)
  obtain mp1 h1 I1 where m1: "my_malloc_block (Some mp) 100 (\<lambda>_. 0) = Some (0x1008, mp1, h1)"
    "pool_inv 0x1000 mp1 h1 (Suc 0 # [Suc (Suc 0)..<NB]) I1 {0}"
    using malloc_inv[OF mp(2), of 100] unfolding L by (auto simp: blk_def)
  obtain mp2 h2 where m2: "my_malloc_block (Some mp1) 100 h1 = Some (0x183c, mp2, h2)"
    using malloc_inv[OF m1(2), of 100] by (auto simp: blk_def)
  have "plugin_run 0x1000 (mp1, h1, {0x1008})"
    using plugin_run.step[OF plugin_run.start[OF mp(1)] plugin_step.malloc[OF m1(1)]] by simp
  from plugin_run.step[OF this plugin_step.malloc[OF m2]]
  have "plugin_run 0x1000 (mp2, h2, {0x1008, 0x183c})" by (simp add: insert_commute)
  then show ?thesis by blast
qed

theorem plugin_memory_safe_witness:
  "\<exists>mp h. plugin_run 0x1000 (mp, h, {0x1008, 0x183c}) \<and> IS_IN_PLUGIN_MEMORY 0x1000 0x183c \<and>
    (\<exists>p mp' h'. my_malloc_block (Some mp) 2092 h = Some (p, mp', h') \<and> p \<noteq> 0) \<and>
    (\<exists>mp' h'. my_free_block (Some mp) 0x1008 h = Some ([], mp', h'))"
proof -
  obtain mp h where r: "plugin_run 0x1000 (mp, h, {0x1008, 0x183c})" using two_blocks by blast
  have b: "(0x1000 :: u64) \<noteq> 0" "unat (0x1000 :: u64) + PLUGIN_MEMORY < 2 ^ 64" by (simp_all add: PLUGIN_MEMORY_def)
  have "IS_IN_PLUGIN_MEMORY 0x1000 0x183c" "\<exists>p mp' h'. my_malloc_block (Some mp) 2092 h = Some (p, mp', h') \<and> p \<noteq> 0"
    "\<exists>mp' h'. my_free_block (Some mp) 0x1008 h = Some ([], mp', h')"
    using plugin_memory_safe[OF r b, of 2092] by auto
  with r show ?thesis by blast
qed

section \<open>Misuse\<close>

text \<open>A product of 2^32 in \<open>my_calloc\<close> allocates a block for 0 bytes and clears 2^32 bytes from there on.\<close>

lemma my_calloc_overflow:
  assumes "my_malloc_block (Some mp) 0 h = Some (p, mp', h')" "p \<noteq> 0"
  shows "my_calloc (Some mp) (2 ^ 16) (2 ^ 16) h = Some (p, mp', write_bytes h' p (replicate (2 ^ 32) 0))"
proof -
  have m: "(2 ^ 16 * 2 ^ 16 :: u64) = 0x100000000" by simp
  have c: "(ucast (0x100000000 :: u64) :: u32) = 0" by code_simp
  have u: "unat (0x100000000 :: u64) = 2 ^ 32" by simp
  show ?thesis
    unfolding my_calloc_def m c u by (simp only: assms Option.bind.simps prod.case simp_thms if_True)
qed

text \<open>A second free of the same block is reported, and still makes it its own successor in the free list.\<close>

lemma double_free:
  assumes "pool_inv m0 mp h L I live" "i \<in> live" "my_free_block (Some mp) (blk m0 i + 8) h = Some (r, mp1, h1)"
  shows "\<exists>r' mp2 h2. my_free_block (Some mp1) (blk m0 i + 8) h1 = Some (r', mp2, h2) \<and> mp_next mp2 = blk m0 i \<and>
    header h2 m0 i = of_nat i \<and> num_free_blocks mp2 = num_free_blocks mp + 2"
proof -
  have i: "i < NB" "area_ok m0" "size_of_each_block mp = 2100" "mem_start mp = m0" using assms(1,2) unfolding pool_inv_def by auto
  have r: "mp1 = mp\<lparr>mp_next := blk m0 i, num_free_blocks := num_free_blocks mp + 1\<rparr>"
    using assms(3) by (simp add: my_free_block_def Let_def)
  show ?thesis
    using i blk_nonzero[OF i(2,1)] index_addr[of mp1 m0 i] header_store[OF i(1,1), of h1 m0 "of_nat i"]
    by (simp add: my_free_block_def Let_def r)
qed

end
