(* ===== verification/RecoveredFrame.thy ===== *)
theory RecoveredFrame
  imports FecWire
begin

text \<open>
  Recovered frames (\<^verbatim>\<open>window_framework/types.h\<close>): the receiver tells the sender which lost packets it
  recovered, as ranges of packet numbers followed by ranges of symbol identifiers in the same
  format. The lemmas show that the packet ranges survive writing and reading, that the identifiers
  do when the gaps of both sequences coincide, and that they do not in general.

  Packet numbers and sizes are 64-bit values held as naturals, identifiers are 32-bit values.
\<close>

section \<open>Frames and ranges\<close>

record window_recovered_range =
  rg_pn :: nat
  rg_id :: nat
  rg_n_symbols :: nat

record window_recovered_frame =
  packet_numbers :: "nat list"
  ids :: "nat list"
  n_packets :: nat
  max_packets :: nat

text \<open>The three allocations of a new frame are arguments; \<open>None\<close> is the null pointer.\<close>

definition create_window_recovered_frame :: "bool \<Rightarrow> bool \<Rightarrow> bool \<Rightarrow> window_recovered_frame option" where
  "create_window_recovered_frame alloc alloc_pn alloc_ids =
     (if alloc \<and> alloc_pn \<and> alloc_ids
      then Some \<lparr>packet_numbers = replicate 1000 0, ids = replicate 1000 0, n_packets = 0, max_packets = 1000\<rparr>
      else None)"

definition add_packet_to_recovered_frame ::
  "window_recovered_frame \<Rightarrow> nat \<Rightarrow> nat \<Rightarrow> (bool \<times> window_recovered_frame) option" where
  "add_packet_to_recovered_frame rf packet_number i =
     (if n_packets rf = max_packets rf then Some (False, rf)
      else do {
        _ \<leftarrow> rd (packet_numbers rf) (n_packets rf);
        _ \<leftarrow> rd (ids rf) (n_packets rf);
        Some (True, rf\<lparr>packet_numbers := (packet_numbers rf)[n_packets rf := packet_number],
          ids := (ids rf)[n_packets rf := i], n_packets := n_packets rf + 1\<rparr>)
      })"

section \<open>Writing\<close>

text \<open>
  The loop over the packets from index \<open>i\<close> on. Results are the error code, the buffer and the value
  of \<open>consumed\<close>; the write position is \<open>off + consumed\<close>.
\<close>

function write_ranges ::
  "bytes \<Rightarrow> nat \<Rightarrow> nat \<Rightarrow> nat list \<Rightarrow> nat \<Rightarrow> nat \<Rightarrow> nat \<Rightarrow> nat \<Rightarrow> (int \<times> bytes \<times> nat) option" where
  "write_ranges out off buffer_length pns n i consumed range_length =
     (if i < n then do {
        p \<leftarrow> rd pns i;
        q \<leftarrow> rd pns (i - 1);
        (if p \<le> q then Some (-1, out, 0)
         else if p = q + 1 \<or> p = q
         then write_ranges out off buffer_length pns n (Suc i) consumed (range_length + 1)
         else if u64_sub buffer_length consumed < 2 then Some (-1, out, consumed)
         else do {
           (out, size) \<leftarrow> varint_encode_at out (off + consumed) (u64_sub buffer_length consumed) (of_nat range_length);
           let consumed = consumed + size;
           (out, size) \<leftarrow> varint_encode_at out (off + consumed) (u64_sub buffer_length consumed) (of_nat (p - q - 1));
           write_ranges out off buffer_length pns n (Suc i) (consumed + size) 0
         })
      }
      else if range_length > 0 then
        (if u64_sub buffer_length consumed < 2 then Some (-1, out, 0)
         else do {
           (out, size) \<leftarrow> varint_encode_at out (off + consumed) (u64_sub buffer_length consumed) (of_nat range_length);
           Some (0, out, consumed + size)
         })
      else Some (0, out, consumed))"
  by pat_completeness auto
termination by (relation "measure (\<lambda>(_, _, _, _, n, i, _, _). n - i)") auto

declare write_ranges.simps [simp del]

definition serialize_packet_ranges :: "bytes \<Rightarrow> nat \<Rightarrow> nat \<Rightarrow> nat list \<Rightarrow> nat \<Rightarrow> (int \<times> bytes \<times> nat) option" where
  "serialize_packet_ranges out off buffer_length pns n = do {
     (out, consumed) \<leftarrow> varint_encode_at out off buffer_length (of_nat n);
     p \<leftarrow> rd pns 0;
     out \<leftarrow> encode_u64 (of_nat p OR 0xC000000000000000) out (off + consumed);
     write_ranges out off buffer_length pns n 1 (consumed + 8) 0
   }"

definition serialize_id_ranges ::
  "bool \<Rightarrow> bytes \<Rightarrow> nat \<Rightarrow> nat \<Rightarrow> window_recovered_frame \<Rightarrow> (int \<times> bytes \<times> nat) option" where
  "serialize_id_ranges alloc out off buffer_length rf =
     (if \<not> alloc then Some (0x405, out, 0)
      else if length (ids rf) < n_packets rf then None
      else serialize_packet_ranges out off buffer_length (take (n_packets rf) (ids rf)) (n_packets rf))"

definition serialize_window_recovered_frame ::
  "bool \<Rightarrow> bytes \<Rightarrow> nat \<Rightarrow> window_recovered_frame \<Rightarrow> (int \<times> bytes \<times> nat) option" where
  "serialize_window_recovered_frame alloc out buffer_length rf = do {
     (err, out, consumed_packets) \<leftarrow> serialize_packet_ranges out 0 buffer_length (packet_numbers rf) (n_packets rf);
     (if err \<noteq> 0 then Some (err, out, consumed_packets)
      else do {
        (err, out, consumed) \<leftarrow> serialize_id_ranges alloc out consumed_packets (u64_sub buffer_length consumed_packets) rf;
        Some (err, out, consumed + consumed_packets)
      })
   }"

section \<open>Reading\<close>

definition zero_range :: window_recovered_range where
  "zero_range = \<lparr>rg_pn = 0, rg_id = 0, rg_n_symbols = 0\<rparr>"

text \<open>
  The loop that reads streaks and gaps in turn. \<open>Some None\<close> is the error return; the results are the
  position, the number of packets, the number of ranges, whether a gap is next, and the ranges.
  The number of packets is an \<open>int\<close>; a value outside of its range counts as a fault.
\<close>

function read_ranges ::
  "bytes \<Rightarrow> nat \<Rightarrow> nat \<Rightarrow> nat \<Rightarrow> nat \<Rightarrow> nat \<Rightarrow> bool \<Rightarrow> nat \<Rightarrow> window_recovered_range list \<Rightarrow>
   (nat \<times> nat \<times> nat \<times> bool \<times> window_recovered_range list) option option" where
  "read_ranges buf bytes_max number pos parsed next range_is_gap n_ranges ranges =
     (if parsed < number \<and> pos < bytes_max then do {
        (size, w) \<leftarrow> picoquic_varint_decode (drop pos buf) (bytes_max - pos);
        let range_size = unat w;
        let pos = pos + size;
        (if \<not> range_is_gap then
           (if parsed + range_size > number then Some None
            else if parsed + range_size \<ge> 2 ^ 31 then None
            else do {
              r \<leftarrow> rd ranges n_ranges;
              let r = (if rg_n_symbols r = 0 then r\<lparr>rg_pn := next, rg_n_symbols := range_size\<rparr>
                       else r\<lparr>rg_n_symbols := (rg_n_symbols r + range_size) mod 2 ^ 64\<rparr>);
              read_ranges buf bytes_max number pos (parsed + range_size) ((next + range_size) mod 2 ^ 64) True
                (Suc n_ranges) (ranges[n_ranges := r])
            })
         else if Suc parsed \<ge> 2 ^ 31 then None
         else do {
           let next = (next + range_size) mod 2 ^ 64;
           r \<leftarrow> rd ranges n_ranges;
           read_ranges buf bytes_max number pos (Suc parsed) ((next + 1) mod 2 ^ 64) False n_ranges
             (ranges[n_ranges := r\<lparr>rg_pn := next, rg_n_symbols := 1\<rparr>])
         })
      }
      else Some (Some (pos, parsed, n_ranges, range_is_gap, ranges)))"
  by pat_completeness auto
termination
  by (relation "measure (\<lambda>(_, _, number, _, parsed, _, gap, _, _). 2 * (number - parsed) + (if gap then 0 else 1))") auto

declare read_ranges.simps [simp del]

text \<open>
  The ranges and their number share one allocated object. Its size is computed with 64 bits, the
  allocator takes 32, and the clearing of the object uses the full size. What is tested after the
  allocation is the length of the first integer, not the pointer.
\<close>

definition parse_packets_range ::
  "bool \<Rightarrow> bytes \<Rightarrow> nat \<Rightarrow> nat \<Rightarrow> (nat \<times> window_recovered_range list \<times> nat) option option" where
  "parse_packets_range alloc buf pos bytes_max = do {
     (size, w) \<leftarrow> picoquic_varint_decode (drop pos buf) (u64_sub bytes_max pos);
     let number = unat w;
     first \<leftarrow> decode_u64 buf (pos + size);
     let first = unat (first AND 0x3FFFFFFFFFFFFFFF);
     let allocated_size = (8 + number * 24) mod 2 ^ 64;
     (if size = 0 then Some None
      else if \<not> alloc \<or> allocated_size \<ge> 2 ^ 32 then None
      else do {
        let ranges = replicate ((allocated_size - 8) div 24) zero_range;
        r \<leftarrow> rd ranges 0;
        let ranges = ranges[0 := r\<lparr>rg_pn := first, rg_n_symbols := 1\<rparr>];
        res \<leftarrow> read_ranges buf bytes_max number (pos + size + 8) 1 (first + 1) False 0 ranges;
        (case res of
           None \<Rightarrow> Some None
         | Some (pos', parsed, n_ranges, range_is_gap, ranges) \<Rightarrow>
             if parsed \<noteq> number \<or> pos' > bytes_max then Some None
             else Some (Some (if range_is_gap then n_ranges else Suc n_ranges, ranges, pos' - pos)))
      })
   }"

text \<open>The loop that copies identifiers to the packet ranges; \<open>remaining\<close> is an \<open>int\<close> modulo \<open>2 ^ 32\<close>.\<close>

function assign_ids ::
  "window_recovered_range list \<Rightarrow> nat \<Rightarrow> nat \<Rightarrow> nat \<Rightarrow> nat \<Rightarrow> nat \<Rightarrow> window_recovered_range list \<Rightarrow>
   window_recovered_range list option" where
  "assign_ids ranges64 n_ranges idx next_range_start remaining i ranges =
     (if idx < n_ranges \<and> i < length ranges then do {
        let r = ranges ! i;
        let ranges = ranges[i := r\<lparr>rg_id := next_range_start mod 2 ^ 32\<rparr>];
        q \<leftarrow> rd ranges64 idx;
        let next_range_start = (rg_pn q + rg_n_symbols r) mod 2 ^ 64;
        let remaining = u32_sub remaining (rg_n_symbols r mod 2 ^ 32);
        (if remaining = 0 then
           (if Suc idx < n_ranges then do {
              q \<leftarrow> rd ranges64 (Suc idx);
              assign_ids ranges64 n_ranges (Suc idx) (rg_pn q) (rg_n_symbols q mod 2 ^ 32) (Suc i) ranges
            }
            else assign_ids ranges64 n_ranges (Suc idx) next_range_start 0 (Suc i) ranges)
         else assign_ids ranges64 n_ranges idx next_range_start remaining (Suc i) ranges)
      }
      else if idx < n_ranges then None
      else Some ranges)"
  by pat_completeness auto
termination by (relation "measure (\<lambda>(_, _, _, _, _, i, ranges). length ranges - i)") auto

declare assign_ids.simps [simp del]

definition parse_ids_range ::
  "bool \<Rightarrow> bytes \<Rightarrow> nat \<Rightarrow> nat \<Rightarrow> window_recovered_range list \<Rightarrow> nat \<Rightarrow> (error + window_recovered_range list \<times> nat) option" where
  "parse_ids_range alloc buf pos bytes_max ranges n_max_ranges = do {
     res \<leftarrow> parse_packets_range alloc buf pos bytes_max;
     (case res of
        None \<Rightarrow> Some (Inl PICOQUIC_ERROR_MEMORY)
      | Some (n_ranges, ranges64, consumed) \<Rightarrow>
          if n_ranges > n_max_ranges then Some (Inl PICOQUIC_ERROR_MEMORY)
          else do {
            (next_range_start, remaining) \<leftarrow> (if n_ranges > 0
              then map_option (\<lambda>q. (rg_pn q, rg_n_symbols q mod 2 ^ 32)) (rd ranges64 0) else Some (2 ^ 64 - 1, 0));
            ranges \<leftarrow> assign_ids ranges64 n_ranges 0 next_range_start remaining 0 ranges;
            Some (Inr (ranges, consumed))
          })
   }"

definition parse_window_recovered_frame ::
  "bool \<Rightarrow> bool \<Rightarrow> bytes \<Rightarrow> nat \<Rightarrow> nat \<Rightarrow> (nat \<times> window_recovered_range list \<times> nat) option option" where
  "parse_window_recovered_frame alloc alloc_ids buf pos bytes_max = do {
     res \<leftarrow> parse_packets_range alloc buf pos bytes_max;
     (case res of
        None \<Rightarrow> Some None
      | Some (n_ranges, ranges, consumed_packets) \<Rightarrow> do {
          res \<leftarrow> parse_ids_range alloc_ids buf (pos + consumed_packets) bytes_max ranges n_ranges;
          (case res of
             Inl _ \<Rightarrow> Some None
           | Inr (ranges, consumed) \<Rightarrow> Some (Some (n_ranges, ranges, consumed + consumed_packets)))
        })
   }"

section \<open>The format\<close>

text \<open>
  The numbers written after the first packet: the length of a streak and the length of the gap
  after it, in turn. \<open>r\<close> packets follow without a gap up to \<open>prev\<close>.
\<close>

fun streaks :: "nat \<Rightarrow> nat \<Rightarrow> nat list \<Rightarrow> nat list" where
  "streaks prev r [] = (if r > 0 then [r] else [])"
| "streaks prev r (p # ps) = (if p = prev + 1 then streaks p (r + 1) ps else r # (p - prev - 1) # streaks p 0 ps)"

definition vb :: "nat \<Rightarrow> bytes" where
  "vb n = varint_bytes 8 (of_nat n)"

definition range_bytes :: "nat list \<Rightarrow> bytes" where
  "range_bytes vs = concat (map vb vs)"

definition packet_bytes :: "nat list \<Rightarrow> bytes" where
  "packet_bytes pns = vb (length pns) @ be_digits 8 (unat (of_nat (hd pns) OR 0xC000000000000000 :: u64)) @
     range_bytes (streaks (hd pns) 0 (tl pns))"

text \<open>The maximal runs of consecutive numbers, as start and length.\<close>

fun runs :: "nat \<Rightarrow> nat \<Rightarrow> nat list \<Rightarrow> (nat \<times> nat) list" where
  "runs s c [] = [(s, c)]"
| "runs s c (p # ps) = (if p = s + c then runs s (c + 1) ps else (s, c) # runs p 1 ps)"

lemma varint_bytes_max: "8 \<le> m \<Longrightarrow> varint_bytes m n = varint_bytes 8 n"
  by (simp add: varint_bytes_def)

lemma length_vb: "1 \<le> length (vb n)" "length (vb n) \<le> 8"
  by (simp_all add: vb_def length_varint_bytes)

lemma vb_nonempty [simp]: "vb n \<noteq> []"
  using length_vb(1)[of n] by auto

lemma decode_vb:
  assumes "n < 2 ^ 62" "length (vb n) \<le> avail"
  shows "picoquic_varint_decode (vb n @ rest) avail = Some (length (vb n), of_nat n)"
  using decode_varint_bytes[of 8 "of_nat n" avail rest] assms unat_of_nat_u64[of n] by (simp add: vb_def)

lemma encode_vb:
  assumes "8 \<le> u64_sub bl consumed" "consumed \<le> bl" "bl < 2 ^ 64" "off + bl \<le> length out"
  shows "varint_encode_at out (off + consumed) (u64_sub bl consumed) (of_nat n) = Some (overlay out (off + consumed) (vb n), length (vb n))"
  using varint_encode_at_eq[of "u64_sub bl consumed" "off + consumed" out "of_nat n"] varint_bytes_max[OF assms(1)] assms
  by (simp add: vb_def u64_sub_le)

lemma length_range_bytes: "length (range_bytes vs) \<le> 8 * length vs"
  unfolding range_bytes_def
proof (induction vs)
  case (Cons v vs)
  then show ?case using length_vb(2)[of v] by simp
qed simp

lemma length_streaks: "length (streaks prev r ps) \<le> 2 * length ps + (if r > 0 then 1 else 0)"
  by (induction prev r ps rule: streaks.induct) (auto split: if_splits)

lemma range_bytes_Cons [simp]: "range_bytes (v # vs) = vb v @ range_bytes vs" "range_bytes [] = []"
  by (simp_all add: range_bytes_def)

section \<open>What the writer writes\<close>

lemma write_ranges_eq:
  assumes "drop i (take n pns) = ps" "0 < i" "i \<le> n" "n \<le> length pns" "sorted_wrt (<) (pns ! (i - 1) # ps)"
    "consumed + 8 * length (streaks (pns ! (i - 1)) r ps) \<le> bl" "bl < 2 ^ 64" "off + bl \<le> length out"
  shows "write_ranges out off bl pns n i consumed r =
    Some (0, overlay out (off + consumed) (range_bytes (streaks (pns ! (i - 1)) r ps)),
      consumed + length (range_bytes (streaks (pns ! (i - 1)) r ps)))"
  using assms
proof (induction ps arbitrary: i consumed r out)
  case Nil
  then have "n = i" by simp
  have c: "consumed \<le> bl" using Nil.prems by simp
  show ?case
  proof (cases "r = 0")
    case True
    then show ?thesis using \<open>n = i\<close> by (simp add: write_ranges.simps overlay_def)
  next
    case False
    then have "8 \<le> u64_sub bl consumed" using Nil.prems c by (simp add: u64_sub_le)
    then show ?thesis using False \<open>n = i\<close> encode_vb[OF _ c Nil.prems(7,8)] by (simp add: write_ranges.simps Let_def)
  qed
next
  case (Cons p ps)
  have i: "i < n" using Cons.prems(1,3) by (cases "i = n") auto
  then have p: "pns ! i = p" "drop (Suc i) (take n pns) = ps"
    using Cons.prems(1,4) Cons_nth_drop_Suc[of i "take n pns"] by auto
  let ?q = "pns ! (i - 1)"
  have r: "rd pns i = Some p" "rd pns (i - 1) = Some ?q" using i p Cons.prems(4) by (auto simp: rd_def)
  have gt: "?q < p" "sorted_wrt (<) (pns ! (Suc i - 1) # ps)" using Cons.prems(5) p by auto
  show ?case
  proof (cases "p = ?q + 1")
    case True
    have "write_ranges out off bl pns n (Suc i) consumed (r + 1) =
      Some (0, overlay out (off + consumed) (range_bytes (streaks p (r + 1) ps)), consumed + length (range_bytes (streaks p (r + 1) ps)))"
      using Cons.IH[of "Suc i" consumed "r + 1" out] p(2) i Cons.prems gt(2) True p(1) by simp
    then show ?thesis using i r gt True by (subst write_ranges.simps) simp
  next
    case False
    have "\<not> p \<le> ?q" "p \<noteq> ?q" using gt(1) by simp_all
    let ?c1 = "consumed + length (vb r)" let ?g = "p - ?q - 1"
    let ?o1 = "overlay out (off + consumed) (vb r)"
    let ?o2 = "overlay ?o1 (off + ?c1) (vb ?g)"
    have len: "consumed + 16 + 8 * length (streaks p 0 ps) \<le> bl" using Cons.prems(6) False by simp
    have l: "length (vb r) \<le> 8" "length (vb ?g) \<le> 8" by (rule length_vb)+
    have e1: "varint_encode_at out (off + consumed) (u64_sub bl consumed) (of_nat r) = Some (?o1, length (vb r))"
      by (rule encode_vb) (use len Cons.prems(7,8) in \<open>simp_all add: u64_sub_le\<close>)
    have e2: "varint_encode_at ?o1 (off + ?c1) (u64_sub bl ?c1) (of_nat ?g) = Some (?o2, length (vb ?g))"
      by (rule encode_vb) (use len l Cons.prems(7,8) in \<open>simp_all add: u64_sub_le overlay_def\<close>)
    have o: "?o2 = overlay out (off + consumed) (vb r @ vb ?g)"
      using overlay_overlay[of "off + consumed" "vb r" "vb ?g" out] len l Cons.prems(8) by (simp add: add.assoc)
    let ?b = "range_bytes (streaks p 0 ps)"
    have lb: "length ?b \<le> 8 * length (streaks p 0 ps)" by (rule length_range_bytes)
    have "?c1 + length (vb ?g) + 8 * length (streaks (pns ! (Suc i - 1)) 0 ps) \<le> bl" using len l p(1) by simp
    moreover have "off + bl \<le> length ?o2" using len l Cons.prems(8) by (simp add: overlay_def)
    ultimately have "write_ranges ?o2 off bl pns n (Suc i) (?c1 + length (vb ?g)) 0 =
      Some (0, overlay ?o2 (off + (?c1 + length (vb ?g))) ?b, ?c1 + length (vb ?g) + length ?b)"
      using Cons.IH[of "Suc i" "?c1 + length (vb ?g)" 0 ?o2, OF p(2) zero_less_Suc Suc_leI[OF i] Cons.prems(4) gt(2) _ Cons.prems(7)]
      by (simp only: diff_Suc_1 p(1))
    moreover have "overlay ?o2 (off + (?c1 + length (vb ?g))) ?b = overlay out (off + consumed) ((vb r @ vb ?g) @ ?b)"
      unfolding o using overlay_overlay[of "off + consumed" "vb r @ vb ?g" ?b out] len l lb Cons.prems(8) by (simp add: add.assoc)
    moreover have "streaks ?q r (p # ps) = r # ?g # streaks p 0 ps" using False by simp
    moreover have "\<not> u64_sub bl consumed < 2" using len Cons.prems(7) by (simp add: u64_sub_le)
    then have "write_ranges out off bl pns n i consumed r = write_ranges ?o2 off bl pns n (Suc i) (?c1 + length (vb ?g)) 0"
      using i r False e1 e2 \<open>\<not> p \<le> ?q\<close> \<open>p \<noteq> ?q\<close>
      by (subst write_ranges.simps) (simp only: Let_def Option.bind.simps prod.case if_True if_False simp_thms)
    ultimately show ?thesis by (simp only: range_bytes_Cons append_assoc length_append add.assoc)
  qed
qed

lemma length_packet_bytes: "pns \<noteq> [] \<Longrightarrow> length (packet_bytes pns) \<le> 16 * length pns" "9 \<le> length (packet_bytes pns)"
proof -
  have "length (range_bytes (streaks (hd pns) 0 (tl pns))) \<le> 16 * length (tl pns)"
    using length_range_bytes[of "streaks (hd pns) 0 (tl pns)"] length_streaks[of "hd pns" 0 "tl pns"] by simp
  then show "pns \<noteq> [] \<Longrightarrow> length (packet_bytes pns) \<le> 16 * length pns"
    using length_vb(2)[of "length pns"] by (cases pns) (simp_all add: packet_bytes_def)
  show "9 \<le> length (packet_bytes pns)"
    using length_vb(1)[of "length pns"] by (simp add: packet_bytes_def)
qed

lemma serialize_packet_ranges_eq:
  assumes "0 < n" "n \<le> length pns" "sorted_wrt (<) (take n pns)" "16 * n \<le> bl" "bl < 2 ^ 64" "off + bl \<le> length out"
  shows "serialize_packet_ranges out off bl pns n =
    Some (0, overlay out off (packet_bytes (take n pns)), length (packet_bytes (take n pns)))"
proof -
  let ?p = "pns ! 0" let ?ps = "drop 1 (take n pns)"
  have pns: "take n pns = ?p # ?ps" using assms(1,2) by (cases pns; cases n) auto
  let ?o1 = "overlay out off (vb n)"
  let ?d = "be_digits 8 (unat (of_nat ?p OR 0xC000000000000000 :: u64))"
  let ?o2 = "overlay ?o1 (off + length (vb n)) ?d"
  have l: "length (vb n) \<le> 8" by (rule length_vb)
  have e1: "varint_encode_at out off bl (of_nat n) = Some (?o1, length (vb n))"
    using encode_vb[of bl 0 off out n] assms by (simp add: u64_sub_le)
  have e2: "encode_u64 (of_nat ?p OR 0xC000000000000000) ?o1 (off + length (vb n)) = Some ?o2"
    unfolding encode_u64_def by (rule encode_un_eq) (use l assms in \<open>simp_all add: overlay_def\<close>)
  have o: "?o2 = overlay out off (vb n @ ?d)"
    using overlay_overlay[of off "vb n" ?d out] l assms by (simp del: be_digits.simps)
  have st: "length (streaks ?p 0 ?ps) \<le> 2 * length ?ps" using length_streaks[of ?p 0 ?ps] by simp
  have ps: "length ?ps = n - 1" using assms(2) by simp
  let ?b = "range_bytes (streaks ?p 0 ?ps)"
  have so: "sorted_wrt (<) (pns ! (1 - 1) # ?ps)" using assms(3) pns by simp
  have lo: "length ?o2 = length out" using l assms by (simp add: overlay_def)
  have "length (vb n) + 8 + 8 * length (streaks (pns ! (1 - 1)) 0 ?ps) \<le> bl" using l st ps assms(1,4) by simp
  from write_ranges_eq[OF refl _ _ assms(2) so this assms(5), of off ?o2]
  have w: "write_ranges ?o2 off bl pns n 1 (length (vb n) + 8) 0 = Some (0, overlay ?o2 (off + (length (vb n) + 8)) ?b, length (vb n) + 8 + length ?b)"
    using assms(1,6) lo by simp
  have lb: "length ?b \<le> 8 * length (streaks ?p 0 ?ps)" by (rule length_range_bytes)
  have ov: "overlay ?o2 (off + (length (vb n) + 8)) ?b = overlay out off ((vb n @ ?d) @ ?b)"
    unfolding o using overlay_overlay[of off "vb n @ ?d" ?b out] l st ps lb assms by (simp del: be_digits.simps)
  have "length (take n pns) = n" "rd pns 0 = Some ?p" using assms(1,2) by (auto intro: rd_Some)
  moreover have "hd (take n pns) = ?p" "tl (take n pns) = ?ps" using pns by (metis list.sel(1), metis list.sel(3))
  ultimately have "packet_bytes (take n pns) = (vb n @ ?d) @ ?b" "rd pns 0 = Some ?p" by (simp_all only: packet_bytes_def append_assoc)
  then show ?thesis
    using ov e1 e2 w by (simp add: serialize_packet_ranges_def del: be_digits.simps)
qed

section \<open>What the reader reads\<close>

definition range_of :: "nat \<times> nat \<Rightarrow> window_recovered_range" where
  "range_of sc = zero_range\<lparr>rg_pn := fst sc, rg_n_symbols := snd sc\<rparr>"

lemma runs_length: "length (runs s c ps) \<le> Suc (length ps)" "runs s c ps \<noteq> []"
  by (induction s c ps rule: runs.induct) auto

lemma read_streak:
  assumes "drop pos buf = vb v @ rest" "v < 2 ^ 62" "pos + length (vb v) \<le> bytes_max" "parsed < number" "parsed + v \<le> number"
    "number < 2 ^ 31" "n < length ranges" "ranges ! n = range_of (s, 1)" "s + v < 2 ^ 63"
  shows "read_ranges buf bytes_max number pos parsed (s + 1) False n ranges =
    read_ranges buf bytes_max number (pos + length (vb v)) (parsed + v) (s + 1 + v) True (Suc n) (ranges[n := range_of (s, v + 1)])"
proof -
  have d: "picoquic_varint_decode (drop pos buf) (bytes_max - pos) = Some (length (vb v), of_nat v)"
    unfolding assms(1) by (rule decode_vb) (use assms in simp_all)
  have u: "unat (of_nat v :: u64) = v" using assms(2) by (intro unat_of_nat_u64) simp
  have r: "(range_of (s, 1))\<lparr>rg_n_symbols := (1 + v) mod 2 ^ 64\<rparr> = range_of (s, v + 1)"
    using assms(2) by (simp add: range_of_def)
  have p: "pos < bytes_max" using assms(3) length_vb(1)[of v] by simp
  have m: "(s + 1 + v) mod 2 ^ 64 = s + 1 + v" using assms(9) by simp
  show ?thesis
    using d u p m r assms(4-8) by (subst read_ranges.simps) (simp add: Let_def range_of_def zero_range_def)
qed

lemma read_gap:
  assumes "drop pos buf = vb v @ rest" "v < 2 ^ 62" "pos + length (vb v) \<le> bytes_max" "parsed < number"
    "number < 2 ^ 31" "n < length ranges" "rg_id (ranges ! n) = 0" "next + v < 2 ^ 63"
  shows "read_ranges buf bytes_max number pos parsed next True n ranges =
    read_ranges buf bytes_max number (pos + length (vb v)) (Suc parsed) (next + v + 1) False n (ranges[n := range_of (next + v, 1)])"
proof -
  have d: "picoquic_varint_decode (drop pos buf) (bytes_max - pos) = Some (length (vb v), of_nat v)"
    unfolding assms(1) by (rule decode_vb) (use assms in simp_all)
  have u: "unat (of_nat v :: u64) = v" using assms(2) by (intro unat_of_nat_u64) simp
  have p: "pos < bytes_max" using assms(3) length_vb(1)[of v] by simp
  have m: "(next + v) mod 2 ^ 64 = next + v" "(next + v + 1) mod 2 ^ 64 = next + v + 1" using assms(8) by simp_all
  have r: "(ranges ! n)\<lparr>rg_pn := next + v, rg_n_symbols := 1\<rparr> = range_of (next + v, 1)"
    using assms(7) by (simp add: range_of_def zero_range_def)
  show ?thesis
    using d u p m r assms(4-6) by (subst read_ranges.simps) (simp add: Let_def)
qed

lemma read_ranges_eq:
  assumes "drop pos buf = range_bytes (streaks (s + r) r ps) @ rest" "pos + length (range_bytes (streaks (s + r) r ps)) \<le> bytes_max"
    "number = parsed + r + length ps" "number < 2 ^ 31" "n + Suc (length ps) \<le> length ranges" "ranges ! n = range_of (s, 1)"
    "\<forall>k. n < k \<and> k < length ranges \<longrightarrow> rg_id (ranges ! k) = 0" "sorted_wrt (<) ((s + r) # ps)" "\<forall>p \<in> set ((s + r) # ps). p < 2 ^ 62"
  shows "\<exists>n' g ranges'. read_ranges buf bytes_max number pos parsed (s + 1) False n ranges =
      Some (Some (pos + length (range_bytes (streaks (s + r) r ps)), number, n', g, ranges')) \<and>
    (if g then n' else Suc n') = n + length (runs s (r + 1) ps) \<and> length ranges' = length ranges \<and>
    take (n + length (runs s (r + 1) ps)) ranges' = take n ranges @ map range_of (runs s (r + 1) ps)"
  using assms
proof (induction ps arbitrary: s r pos parsed n ranges)
  case Nil
  then show ?case
  proof (cases "r = 0")
    case True
    then show ?thesis using Nil.prems
      by (subst read_ranges.simps) (auto simp: take_Suc_conv_app_nth)
  next
    case False
    have "read_ranges buf bytes_max number pos parsed (s + 1) False n ranges =
      read_ranges buf bytes_max number (pos + length (vb r)) (parsed + r) (s + 1 + r) True (Suc n) (ranges[n := range_of (s, r + 1)])"
      by (rule read_streak[where rest = rest]) (use Nil.prems False in simp_all)
    also have "\<dots> = Some (Some (pos + length (vb r), number, Suc n, True, ranges[n := range_of (s, r + 1)]))"
      using Nil.prems by (subst read_ranges.simps) simp
    finally show ?thesis using Nil.prems False by (auto simp: take_Suc_conv_app_nth)
  qed
next
  case (Cons p ps)
  have gt: "s + r < p" "sorted_wrt (<) (p # ps)" "\<forall>q \<in> set (p # ps). q < 2 ^ 62" using Cons.prems(8,9) by auto
  show ?case
  proof (cases "p = s + r + 1")
    case True
    have "\<exists>n' g ranges'. read_ranges buf bytes_max number pos parsed (s + 1) False n ranges =
      Some (Some (pos + length (range_bytes (streaks (s + (r + 1)) (r + 1) ps)), number, n', g, ranges')) \<and>
    (if g then n' else Suc n') = n + length (runs s (r + 1 + 1) ps) \<and> length ranges' = length ranges \<and>
    take (n + length (runs s (r + 1 + 1) ps)) ranges' = take n ranges @ map range_of (runs s (r + 1 + 1) ps)"
      by (rule Cons.IH) (use Cons.prems True gt in simp_all)
    then show ?thesis using True by simp
  next
    case False
    let ?g = "p - (s + r) - 1"
    let ?R1 = "ranges[n := range_of (s, r + 1)]" let ?R2 = "?R1[Suc n := range_of (p, 1)]"
    let ?p1 = "pos + length (vb r)" let ?p2 = "?p1 + length (vb ?g)"
    have dr: "drop pos buf = vb r @ vb ?g @ range_bytes (streaks p 0 ps) @ rest" using Cons.prems(1) False by simp
    have d1: "drop ?p1 buf = vb ?g @ range_bytes (streaks p 0 ps) @ rest"
      using arg_cong[OF dr, of "drop (length (vb r))"] by (simp add: add.commute)
    have d2: "drop ?p2 buf = range_bytes (streaks p 0 ps) @ rest"
      using arg_cong[OF d1, of "drop (length (vb ?g))"] by (simp add: add.commute)
    have g: "?g < 2 ^ 62" using gt(3) less_imp_diff_less[of p "2 ^ 62" "s + r"] by simp
    have len: "?p2 + length (range_bytes (streaks p 0 ps)) \<le> bytes_max" using Cons.prems(2) False by simp
    have "read_ranges buf bytes_max number pos parsed (s + 1) False n ranges =
      read_ranges buf bytes_max number ?p1 (parsed + r) (s + 1 + r) True (Suc n) ?R1"
      by (rule read_streak[OF dr]) (use Cons.prems gt len in simp_all)
    also have "\<dots> = read_ranges buf bytes_max number ?p2 (Suc (parsed + r)) (s + 1 + r + ?g + 1) False (Suc n) (?R1[Suc n := range_of (s + 1 + r + ?g, 1)])"
      by (rule read_gap[OF d1 g]) (use Cons.prems gt len False in simp_all)
    also have "s + 1 + r + ?g = p" using gt(1) by simp
    finally have e: "read_ranges buf bytes_max number pos parsed (s + 1) False n ranges =
      read_ranges buf bytes_max number ?p2 (Suc (parsed + r)) (p + 1) False (Suc n) ?R2" .
    have "\<exists>n' g ranges'. read_ranges buf bytes_max number ?p2 (Suc (parsed + r)) (p + 1) False (Suc n) ?R2 =
      Some (Some (?p2 + length (range_bytes (streaks (p + 0) 0 ps)), number, n', g, ranges')) \<and>
    (if g then n' else Suc n') = Suc n + length (runs p (0 + 1) ps) \<and> length ranges' = length ?R2 \<and>
    take (Suc n + length (runs p (0 + 1) ps)) ranges' = take (Suc n) ?R2 @ map range_of (runs p (0 + 1) ps)"
      by (rule Cons.IH) (use Cons.prems d2 len gt in simp_all)
    then show ?thesis unfolding e using False Cons.prems(5) by (auto simp: take_Suc_conv_app_nth add.assoc)
  qed
qed

lemma first_packet:
  assumes "p < 2 ^ 62"
  shows "of_nat (be_val 0 (be_digits 8 (unat (of_nat p OR 0xC000000000000000 :: u64)))) AND 0x3FFFFFFFFFFFFFFF = (of_nat p :: u64)"
proof -
  let ?w = "of_nat p OR 0xC000000000000000 :: u64"
  have "be_val 0 (be_digits 8 (unat ?w)) = unat ?w"
    using be_val_digits_0[of "unat ?w" 8] unsigned_less[of ?w, where ?'a=nat] by (simp del: be_digits.simps)
  then have "of_nat (be_val 0 (be_digits 8 (unat ?w))) AND 0x3FFFFFFFFFFFFFFF = ?w AND 0x3FFFFFFFFFFFFFFF" by simp
  also have "\<dots> = of_nat p AND 0x3FFFFFFFFFFFFFFF" by (simp add: bit.conj_disj_distrib2)
  also have "\<dots> = take_bit 62 (of_nat p)" by (simp add: take_bit_eq_mask mask_eq_exp_minus_1)
  also have "\<dots> = of_nat p" using varint_value_mask[of "of_nat p"] unat_of_nat_u64[of p] assms by simp
  finally show ?thesis .
qed

lemma parse_packets_range_eq:
  assumes "drop pos buf = packet_bytes pns @ rest" "pns \<noteq> []" "length pns \<le> 1000" "sorted_wrt (<) pns" "\<forall>p \<in> set pns. p < 2 ^ 62"
    "pos + length (packet_bytes pns) \<le> bytes_max" "bytes_max < 2 ^ 64"
  shows "\<exists>ranges. parse_packets_range True buf pos bytes_max =
      Some (Some (length (runs (hd pns) 1 (tl pns)), ranges, length (packet_bytes pns))) \<and>
    length ranges = length pns \<and> take (length (runs (hd pns) 1 (tl pns))) ranges = map range_of (runs (hd pns) 1 (tl pns))"
proof -
  let ?n = "length pns" let ?p = "hd pns" let ?b = "range_bytes (streaks ?p 0 (tl pns))"
  let ?d = "be_digits 8 (unat (of_nat ?p OR 0xC000000000000000 :: u64))"
  have p: "?p < 2 ^ 62" using assms(2,5) by simp
  have u: "unat (of_nat ?n :: u64) = ?n" "unat (of_nat ?p :: u64) = ?p" using assms(3) p by (intro unat_of_nat_u64; simp)+
  have dr: "drop pos buf = vb ?n @ ?d @ ?b @ rest" using assms(1) by (simp add: packet_bytes_def)
  have len: "pos + (length (vb ?n) + 8 + length ?b) \<le> bytes_max" using assms(6) by (simp add: packet_bytes_def)
  have d1: "picoquic_varint_decode (drop pos buf) (u64_sub bytes_max pos) = Some (length (vb ?n), of_nat ?n)"
    unfolding dr by (rule decode_vb) (use assms(3,7) len in \<open>simp_all add: u64_sub_le\<close>)
  have dr1: "drop (pos + length (vb ?n)) buf = ?d @ ?b @ rest" using arg_cong[OF dr, of "drop (length (vb ?n))"] by (simp add: add.commute del: be_digits.simps)
  have dr2: "drop (pos + length (vb ?n) + 8) buf = ?b @ rest" using arg_cong[OF dr1, of "drop 8"] by (simp add: add.commute add.left_commute del: be_digits.simps)
  have "length (vb ?n @ ?d @ ?b @ rest) \<le> length buf - pos" using arg_cong[OF dr, of length] by (simp del: be_digits.simps)
  then have "pos + length (vb ?n) + 8 \<le> length buf" using length_vb(1)[of ?n] by (simp del: be_digits.simps)
  then have d2: "decode_u64 buf (pos + length (vb ?n)) = Some (of_nat (be_val 0 ?d))"
    unfolding decode_u64_def using decode_un_eq[of 8 "pos + length (vb ?n)" buf] dr1 by (simp del: be_digits.simps)
  let ?R = "(replicate ?n zero_range)[0 := range_of (?p, 1)]"
  have al: "(8 + ?n * 24) mod 2 ^ 64 = 8 + ?n * 24" using assms(3) by simp
  have so: "sorted_wrt (<) ((?p + 0) # tl pns)" "\<forall>p \<in> set ((?p + 0) # tl pns). p < 2 ^ 62" using assms(2,4,5) by (cases pns; simp)+
  have "\<exists>n' g ranges'. read_ranges buf bytes_max ?n (pos + length (vb ?n) + 8) 1 (?p + 1) False 0 ?R =
      Some (Some (pos + length (vb ?n) + 8 + length (range_bytes (streaks (?p + 0) 0 (tl pns))), ?n, n', g, ranges')) \<and>
    (if g then n' else Suc n') = 0 + length (runs ?p (0 + 1) (tl pns)) \<and> length ranges' = length ?R \<and>
    take (0 + length (runs ?p (0 + 1) (tl pns))) ranges' = take 0 ?R @ map range_of (runs ?p (0 + 1) (tl pns))"
    by (rule read_ranges_eq[OF _ _ _ _ _ _ _ so]) (use dr2 len assms(2,3) in \<open>simp_all add: nth_list_update zero_range_def\<close>)
  then obtain n' g R' where r: "read_ranges buf bytes_max ?n (pos + length (vb ?n) + 8) 1 (?p + 1) False 0 ?R =
      Some (Some (pos + length (vb ?n) + 8 + length ?b, ?n, n', g, R'))"
    "(if g then n' else Suc n') = length (runs ?p 1 (tl pns))" "length R' = ?n"
    "take (length (runs ?p 1 (tl pns))) R' = map range_of (runs ?p 1 (tl pns))"
    by auto
  have "zero_range\<lparr>rg_pn := ?p, rg_n_symbols := 1\<rparr> = range_of (?p, 1)" by (simp add: range_of_def)
  moreover have "rd (replicate ?n zero_range) 0 = Some zero_range" using assms(2) by (simp add: rd_def)
  ultimately have "parse_packets_range True buf pos bytes_max = Some (Some (length (runs ?p 1 (tl pns)), R', length (vb ?n) + 8 + length ?b))"
    using d1 d2 r(1,2) u al len length_vb(1)[of ?n] assms(3) first_packet[OF p]
    unfolding parse_packets_range_def by (simp add: Let_def del: be_digits.simps)
  moreover have "length (packet_bytes pns) = length (vb ?n) + 8 + length ?b" by (simp add: packet_bytes_def)
  ultimately show ?thesis using r(3,4) by auto
qed

section \<open>Identifiers\<close>

lemma runs_snd_pos: "0 < c \<Longrightarrow> \<forall>sc \<in> set (runs s c ps). 0 < snd sc"
  by (induction s c ps rule: runs.induct) auto

lemma runs_sum: "sum_list (map snd (runs s c ps)) = c + length ps"
  by (induction s c ps rule: runs.induct) auto

lemma runs_snd_le: "sc \<in> set (runs s c ps) \<Longrightarrow> snd sc \<le> c + length ps"
  using member_le_sum_list[of "snd sc" "map snd (runs s c ps)"] runs_sum[of s c ps] by simp

lemma runs_fst: "sc \<in> set (runs s c ps) \<Longrightarrow> fst sc \<in> set (s # ps)"
  by (induction s c ps rule: runs.induct) (auto split: if_splits)

lemma runs_expand: "concat (map (\<lambda>sc. [fst sc..<fst sc + snd sc]) (runs s c ps)) = [s..<s + c] @ ps"
  by (induction s c ps rule: runs.induct) auto

lemma runs_aligned:
  "length qs = length ps \<Longrightarrow> 0 < c \<Longrightarrow>
   \<forall>j < length ps. ps ! j = ((s + c - 1) # ps) ! j + 1 \<longleftrightarrow> qs ! j = ((t + c - 1) # qs) ! j + 1 \<Longrightarrow>
   map snd (runs s c ps) = map snd (runs t c qs)"
proof (induction ps arbitrary: s t c qs)
  case (Cons p ps)
  then obtain q qs' where qs: "qs = q # qs'" "length qs' = length ps" by (cases qs) auto
  have h: "p = s + c \<longleftrightarrow> q = t + c" using Cons.prems(2,3) qs by force
  have tl: "\<forall>j < length ps. ps ! j = (p # ps) ! j + 1 \<longleftrightarrow> qs' ! j = (q # qs') ! j + 1"
    using Cons.prems(3) qs by auto
  show ?case using h Cons.IH[OF qs(2), of "c + 1" s t] Cons.IH[OF qs(2), of 1 p q] tl qs(1) by auto
qed simp

lemma zip_runs:
  "map snd A = map snd B \<Longrightarrow>
   concat (map2 (\<lambda>sc tc. zip [fst sc..<fst sc + snd sc] [fst tc..<fst tc + snd sc]) A B) =
     zip (concat (map (\<lambda>sc. [fst sc..<fst sc + snd sc]) A)) (concat (map (\<lambda>sc. [fst sc..<fst sc + snd sc]) B))"
proof (induction A arbitrary: B)
  case (Cons a A)
  then obtain b B' where "B = b # B'" "snd b = snd a" "map snd A = map snd B'" by (cases B) auto
  then show ?case using Cons.IH[of B'] by (simp add: zip_append)
qed simp

lemma assign_ids_aligned:
  assumes "n \<le> length ranges" "n \<le> length Q" "i < n" "\<forall>j < n. rg_n_symbols (ranges ! j) = rg_n_symbols (Q ! j)"
    "\<forall>j < n. rg_n_symbols (Q ! j) < 2 ^ 32 \<and> rg_pn (Q ! j) < 2 ^ 32"
  shows "assign_ids Q n i (rg_pn (Q ! i)) (rg_n_symbols (Q ! i) mod 2 ^ 32) i ranges =
    Some (map_range i n (\<lambda>k r. r\<lparr>rg_id := rg_pn (Q ! k)\<rparr>) ranges)"
  using assms
proof (induction "n - i" arbitrary: i ranges)
  case (Suc m)
  let ?f = "\<lambda>k r. r\<lparr>rg_id := rg_pn (Q ! k)\<rparr>" let ?R = "ranges[i := ?f i (ranges ! i)]"
  have "rg_n_symbols (Q ! i) < 2 ^ 32" using Suc.prems(3,5) by blast
  then have sub: "u32_sub (rg_n_symbols (Q ! i)) (rg_n_symbols (Q ! i)) = 0" by (simp add: u32_sub_def)
  have step: "map_range (Suc i) n ?f ?R = map_range i n ?f ranges" using Suc.prems by (intro map_range_step) auto
  have n: "\<forall>j < n. rg_n_symbols (?R ! j) = rg_n_symbols (Q ! j)" using Suc.prems by (auto simp: nth_list_update)
  show ?case
  proof (cases "Suc i < n")
    case True
    have "assign_ids Q n (Suc i) (rg_pn (Q ! Suc i)) (rg_n_symbols (Q ! Suc i) mod 2 ^ 32) (Suc i) ?R =
      Some (map_range (Suc i) n ?f ?R)"
      by (rule Suc.hyps(1)) (use Suc.hyps(2) Suc.prems True n in auto)
    then show ?thesis using Suc.prems True sub step by (subst assign_ids.simps) (simp add: Let_def)
  next
    case False
    then show ?thesis using Suc.prems sub step
      by (subst assign_ids.simps, subst assign_ids.simps) (simp add: Let_def)
  qed
qed simp

text \<open>A frame that announces no packet makes the reader write past the end of the allocated ranges.\<close>

lemma parse_no_packets:
  assumes "8 \<le> length bs" "1 \<le> bytes_max" "bytes_max < 2 ^ 64"
  shows "parse_packets_range True (0 # bs) 0 bytes_max = None"
proof -
  have "picoquic_varint_decode (0 # bs) bytes_max = Some (1, 0)"
    using assms(2) by (simp add: picoquic_varint_decode_def varint_prefix_len_def)
  moreover have "decode_u64 (0 # bs) 1 = Some (of_nat (be_val 0 (take 8 bs)))"
    using assms(1) decode_un_eq[of 8 1 "0 # bs"] by (simp add: decode_u64_def)
  ultimately show ?thesis using assms(3) by (simp add: parse_packets_range_def u64_sub_le rd_def)
qed

section \<open>Frames\<close>

definition recovered_ok :: "window_recovered_frame \<Rightarrow> bool" where
  "recovered_ok rf \<longleftrightarrow> length (packet_numbers rf) = max_packets rf \<and> length (ids rf) = max_packets rf \<and>
     n_packets rf \<le> max_packets rf \<and> max_packets rf = 1000"

definition recovered_list :: "window_recovered_frame \<Rightarrow> (nat \<times> nat) list" where
  "recovered_list rf = zip (take (n_packets rf) (packet_numbers rf)) (take (n_packets rf) (ids rf))"

lemma create_recovered:
  "create_window_recovered_frame True True True = Some rf \<Longrightarrow> recovered_ok rf \<and> recovered_list rf = []"
  by (auto simp: create_window_recovered_frame_def recovered_ok_def recovered_list_def)

lemma add_recovered:
  assumes "recovered_ok rf"
  shows "\<exists>rf'. add_packet_to_recovered_frame rf p i = Some (length (recovered_list rf) < 1000, rf') \<and> recovered_ok rf' \<and>
    recovered_list rf' = recovered_list rf @ (if length (recovered_list rf) < 1000 then [(p, i)] else [])"
  using assms by (auto simp: add_packet_to_recovered_frame_def recovered_ok_def recovered_list_def take_Suc_conv_app_nth)

lemma recovered_fst: "recovered_ok rf \<Longrightarrow> map fst (recovered_list rf) = take (n_packets rf) (packet_numbers rf)"
  "recovered_ok rf \<Longrightarrow> map snd (recovered_list rf) = take (n_packets rf) (ids rf)"
  by (simp_all add: recovered_ok_def recovered_list_def)

lemma serialize_recovered:
  assumes "recovered_ok rf" "recovered_list rf \<noteq> []" "sorted_wrt (<) (map fst (recovered_list rf))" "sorted_wrt (<) (map snd (recovered_list rf))"
    "32 * length (recovered_list rf) \<le> bl" "bl \<le> length out" "bl < 2 ^ 64"
  shows "serialize_window_recovered_frame True out bl rf =
    Some (0, overlay out 0 (packet_bytes (map fst (recovered_list rf)) @ packet_bytes (map snd (recovered_list rf))),
      length (packet_bytes (map fst (recovered_list rf)) @ packet_bytes (map snd (recovered_list rf))))"
proof -
  let ?P = "map fst (recovered_list rf)" let ?I = "map snd (recovered_list rf)" let ?n = "n_packets rf"
  have n: "length (recovered_list rf) = ?n" "?n \<le> length (packet_numbers rf)" "?n \<le> length (ids rf)" "0 < ?n"
    using assms(1,2) unfolding recovered_ok_def recovered_list_def by auto
  have l: "length (packet_bytes ?P) \<le> 16 * ?n" "length (packet_bytes ?I) \<le> 16 * ?n" using length_packet_bytes(1)[of ?P] length_packet_bytes(1)[of ?I] assms(2) n(1) by auto
  have e: "take ?n (packet_numbers rf) = ?P" "take ?n (take ?n (ids rf)) = ?I" using recovered_fst[OF assms(1)] by simp_all
  have s1: "serialize_packet_ranges out 0 bl (packet_numbers rf) ?n = Some (0, overlay out 0 (packet_bytes ?P), length (packet_bytes ?P))"
    using serialize_packet_ranges_eq[of ?n "packet_numbers rf" bl 0 out] n assms(3,5-7) e(1) by simp
  let ?o = "overlay out 0 (packet_bytes ?P)" let ?bl = "u64_sub bl (length (packet_bytes ?P))"
  have bl: "?bl = bl - length (packet_bytes ?P)" "16 * ?n \<le> ?bl" using l(1) n(1) assms(5,7) by (simp_all add: u64_sub_le)
  have "length (packet_bytes ?P) + ?bl \<le> length ?o" using bl(1) l(1) n(1) assms(5,6) by (simp add: overlay_def)
  then have s2: "serialize_packet_ranges ?o (length (packet_bytes ?P)) ?bl (take ?n (ids rf)) ?n =
      Some (0, overlay ?o (length (packet_bytes ?P)) (packet_bytes ?I), length (packet_bytes ?I))"
    using serialize_packet_ranges_eq[of ?n "take ?n (ids rf)" ?bl "length (packet_bytes ?P)" ?o] n assms(4,7) e(2) bl by simp
  have "overlay ?o (length (packet_bytes ?P)) (packet_bytes ?I) = overlay out 0 (packet_bytes ?P @ packet_bytes ?I)"
    using overlay_overlay[of 0 "packet_bytes ?P" "packet_bytes ?I" out] l n(1) assms(5,6) by simp
  then show ?thesis
    using s1 s2 n(3) by (simp add: serialize_window_recovered_frame_def serialize_id_ranges_def)
qed

text \<open>
  Reading a frame back up to the assignment of the identifiers: the packet ranges and the identifier
  ranges are the runs of the two sequences.
\<close>

lemma parse_recovered:
  assumes "ps \<noteq> []" "length ps \<le> 1000" "sorted_wrt (<) (map fst ps)" "sorted_wrt (<) (map snd ps)"
    "\<forall>p \<in> set ps. fst p < 2 ^ 62 \<and> snd p < 2 ^ 32" "buf = packet_bytes (map fst ps) @ packet_bytes (map snd ps) @ rest"
    "length (packet_bytes (map fst ps) @ packet_bytes (map snd ps)) \<le> bl" "bl < 2 ^ 64"
    "A = runs (fst (hd ps)) 1 (map fst (tl ps))" "B = runs (snd (hd ps)) 1 (map snd (tl ps))" "length B \<le> length A"
  shows "\<exists>R Q. take (length A) R = map range_of A \<and> take (length B) Q = map range_of B \<and>
    parse_window_recovered_frame True True buf 0 bl =
      map_option (\<lambda>R. Some (length A, R, length (packet_bytes (map fst ps) @ packet_bytes (map snd ps))))
        (assign_ids Q (length B) 0 (rg_pn (Q ! 0)) (rg_n_symbols (Q ! 0) mod 2 ^ 32) 0 R)"
proof -
  let ?P = "map fst ps" let ?I = "map snd ps"
  have h: "hd ?P = fst (hd ps)" "tl ?P = map fst (tl ps)" "hd ?I = snd (hd ps)" "tl ?I = map snd (tl ps)"
    using assms(1) by (simp_all add: hd_map map_tl)
  obtain R where R: "parse_packets_range True buf 0 bl = Some (Some (length A, R, length (packet_bytes ?P)))"
    "take (length A) R = map range_of A"
    using parse_packets_range_eq[of 0 buf ?P "packet_bytes ?I @ rest" bl] assms h by auto
  have "\<forall>i \<in> set ?I. i < 2 ^ 62" using assms(5) by fastforce
  then obtain Q where Q: "parse_packets_range True buf (length (packet_bytes ?P)) bl = Some (Some (length B, Q, length (packet_bytes ?I)))"
    "take (length B) Q = map range_of B" "length Q = length ps"
    using parse_packets_range_eq[of "length (packet_bytes ?P)" buf ?I rest bl] assms h by auto
  have "0 < length B" "rd Q 0 = Some (Q ! 0)" using assms(1,10) runs_length(2) Q(3) by (auto intro: rd_Some)
  then have "parse_window_recovered_frame True True buf 0 bl =
      map_option (\<lambda>R. Some (length A, R, length (packet_bytes ?P @ packet_bytes ?I)))
        (assign_ids Q (length B) 0 (rg_pn (Q ! 0)) (rg_n_symbols (Q ! 0) mod 2 ^ 32) 0 R)"
    using R(1) Q(1) assms(11)
    by (simp add: parse_window_recovered_frame_def parse_ids_range_def add.commute
        split: Option.bind_split option.splits)
  then show ?thesis using R(2) Q(2) by blast
qed

lemma take_map_nth: "take n xs = map f ys \<Longrightarrow> n = length ys \<Longrightarrow> j < n \<Longrightarrow> xs ! j = f (ys ! j) \<and> n \<le> length xs"
  by (metis length_map length_take min.absorb_iff2 nth_map nth_take)

lemma parse_recovered_aligned:
  assumes "take (length A) R = map range_of A" "take (length B) Q = map range_of B" "map snd A = map snd B" "A \<noteq> []"
    "\<forall>tc \<in> set B. snd tc < 2 ^ 32 \<and> fst tc < 2 ^ 32"
  shows "\<exists>R'. assign_ids Q (length B) 0 (rg_pn (Q ! 0)) (rg_n_symbols (Q ! 0) mod 2 ^ 32) 0 R = Some R' \<and>
    take (length A) R' = map2 (\<lambda>sc tc. (range_of sc)\<lparr>rg_id := fst tc\<rparr>) A B"
proof -
  have len: "length A = length B" using assms(3) by (metis length_map)
  have RA: "length A \<le> length R" "\<And>j. j < length A \<Longrightarrow> R ! j = range_of (A ! j)" using take_map_nth[OF assms(1)] assms(4) by auto
  have "B \<noteq> []" using len assms(4) by auto
  then have QB: "length B \<le> length Q" "\<And>j. j < length B \<Longrightarrow> Q ! j = range_of (B ! j)" using take_map_nth[OF assms(2)] assms(4) len by auto
  have sn: "snd (A ! j) = snd (B ! j)" if "j < length A" for j using arg_cong[OF assms(3), of "\<lambda>xs. xs ! j"] that len by simp
  let ?R = "map_range 0 (length B) (\<lambda>k r. r\<lparr>rg_id := rg_pn (Q ! k)\<rparr>) R"
  have "assign_ids Q (length B) 0 (rg_pn (Q ! 0)) (rg_n_symbols (Q ! 0) mod 2 ^ 32) 0 R = Some ?R"
    by (rule assign_ids_aligned) (use RA QB sn len assms(4,5) in \<open>auto simp: range_of_def\<close>)
  moreover have "take (length A) ?R = map2 (\<lambda>sc tc. (range_of sc)\<lparr>rg_id := fst tc\<rparr>) A B"
    by (rule nth_equalityI) (use RA QB len in \<open>auto simp: range_of_def\<close>)
  ultimately show ?thesis by blast
qed

text \<open>
  When all identifiers are in one range, a packet range gets the identifier after as many as the
  packet range before it has packets.
\<close>

definition single_id :: "nat \<Rightarrow> (nat \<times> nat) list \<Rightarrow> nat \<Rightarrow> nat" where
  "single_id i0 A j = (if j = 0 then i0 else i0 + snd (A ! (j - 1)))"

lemma sum_take_Suc: "j < length xs \<Longrightarrow> sum_list (take (Suc j) xs) = sum_list (take j xs) + (xs ! j :: nat)"
  by (simp add: take_Suc_conv_app_nth)

lemma sum_drop_Suc: "j < length xs \<Longrightarrow> sum_list (drop j xs) = xs ! j + sum_list (drop (Suc j) (xs :: nat list))"
  by (simp flip: Cons_nth_drop_Suc)

lemma assign_ids_single:
  assumes "length A \<le> length ranges" "i < length A" "\<forall>j < length A. rg_n_symbols (ranges ! j) = snd (A ! j) \<and> 0 < snd (A ! j)"
    "rd Q 0 = Some q" "rg_pn q = i0" "i0 + sum_list (map snd A) < 2 ^ 32"
  shows "assign_ids Q 1 0 (single_id i0 A i) (sum_list (drop i (map snd A))) i ranges =
    Some (map_range i (length A) (\<lambda>k r. r\<lparr>rg_id := single_id i0 A k\<rparr>) ranges)"
  using assms
proof (induction "length A - i" arbitrary: i ranges)
  case (Suc m)
  let ?f = "\<lambda>k r. r\<lparr>rg_id := single_id i0 A k\<rparr>" let ?R = "ranges[i := ?f i (ranges ! i)]"
  have n: "rg_n_symbols (ranges ! i) = snd (A ! i)" using Suc.prems(2,3) by simp
  have small: "i0 + snd (A ! j) < 2 ^ 32" if "j < length A" for j
    using member_le_sum_list[of "snd (A ! j)" "map snd A"] that Suc.prems(6) by (simp add: nth_mem)
  have id: "single_id i0 A i < 2 ^ 32" using small[of "i - 1"] Suc.prems(2,6) by (simp add: single_id_def)
  have sd: "sum_list (drop i (map snd A)) = snd (A ! i) + sum_list (drop (Suc i) (map snd A))"
    using sum_drop_Suc[of i "map snd A"] Suc.prems(2) by simp
  have "sum_list (drop i (map snd A)) \<le> sum_list (map snd A)"
    using arg_cong[OF append_take_drop_id[of i "map snd A"], of sum_list] by (simp only: sum_list_append)
  then have sub: "u32_sub (sum_list (drop i (map snd A))) (snd (A ! i)) = sum_list (drop (Suc i) (map snd A))"
    using sd Suc.prems(6) by (simp add: u32_sub_def)
  have step: "map_range (Suc i) (length A) ?f ?R = map_range i (length A) ?f ranges" using Suc.prems by (intro map_range_step) auto
  have nx: "(rg_pn q + snd (A ! i)) mod 2 ^ 64 = single_id i0 A (Suc i)"
    using small[OF Suc.prems(2)] Suc.prems(5) by (simp add: single_id_def)
  have un: "assign_ids Q 1 0 (single_id i0 A i) (sum_list (drop i (map snd A))) i ranges =
    (if sum_list (drop (Suc i) (map snd A)) = 0 then assign_ids Q 1 1 (single_id i0 A (Suc i)) 0 (Suc i) ?R
     else assign_ids Q 1 0 (single_id i0 A (Suc i)) (sum_list (drop (Suc i) (map snd A))) (Suc i) ?R)"
    using Suc.prems(1,2,4) n id sub nx small[OF Suc.prems(2)] by (subst assign_ids.simps) (simp add: Let_def del: sum_list_eq_0_iff)
  show ?case
  proof (cases "Suc i < length A")
    case True
    then have "sum_list (drop (Suc i) (map snd A)) \<noteq> 0"
      using sum_drop_Suc[of "Suc i" "map snd A"] Suc.prems(3) by (simp del: sum_list_eq_0_iff)
    moreover have "assign_ids Q 1 0 (single_id i0 A (Suc i)) (sum_list (drop (Suc i) (map snd A))) (Suc i) ?R =
      Some (map_range (Suc i) (length A) ?f ?R)"
    proof (rule Suc.hyps(1))
      show "\<forall>j < length A. rg_n_symbols (?R ! j) = snd (A ! j) \<and> 0 < snd (A ! j)" using Suc.prems by (simp add: nth_list_update)
    qed (use Suc.hyps(2) Suc.prems True in auto)
    ultimately show ?thesis using un step by (simp del: sum_list_eq_0_iff)
  next
    case False
    then have "assign_ids Q 1 1 (single_id i0 A (Suc i)) 0 (Suc i) ?R = Some ?R" by (subst assign_ids.simps) simp
    moreover have "map_range (Suc i) (length A) ?f ?R = ?R" using False by simp
    ultimately show ?thesis using un step False by simp
  qed
qed simp


lemma concat_runs_nth:
  "j < length A \<Longrightarrow> 0 < snd (A ! j) \<Longrightarrow>
   sum_list (take j (map snd A)) < length (concat (map (\<lambda>sc. [fst sc..<fst sc + snd sc]) A)) \<and>
   concat (map (\<lambda>sc. [fst sc..<fst sc + snd sc]) A) ! sum_list (take j (map snd A)) = (fst (A ! j) :: nat)"
proof (induction A arbitrary: j)
  case (Cons a A)
  then show ?case by (cases j) (auto simp: nth_append)
qed simp

lemma single_id_right:
  assumes "j < length A" "\<forall>k < length A. 0 < snd (A ! k)"
  shows "single_id i0 A j = i0 + sum_list (take j (map snd A)) \<longleftrightarrow> j \<le> 1"
proof (cases j)
  case (Suc k)
  have "sum_list (take j (map snd A)) = sum_list (take k (map snd A)) + snd (A ! k)"
    using sum_take_Suc[of k "map snd A"] assms(1) Suc by simp
  moreover have "sum_list (take k (map snd A)) = 0 \<longleftrightarrow> k = 0"
    using sum_take_Suc[of "k - 1" "map snd A"] assms Suc by (cases k) (auto simp del: sum_list_eq_0_iff)
  ultimately show ?thesis using Suc by (simp add: single_id_def del: sum_list_eq_0_iff)
qed (simp add: single_id_def)

lemma runs_consecutive: "runs s c [s + c..<s + c + n] = [(s, c + n)]"
proof (induction n arbitrary: c)
  case (Suc n)
  have "[s + c..<s + c + Suc n] = (s + c) # [s + Suc c..<s + Suc c + n]" by (simp add: upt_rec)
  with Suc.IH[of "Suc c"] show ?case by simp
qed simp

lemma single_ids_first:
  assumes "ps \<noteq> []" "map snd ps = [i0..<i0 + length ps]"
  shows "snd (hd ps) = i0" "map snd (tl ps) = [i0 + 1..<i0 + 1 + (length ps - 1)]"
    "sorted_wrt (<) (map snd ps)" "\<forall>k < length ps. snd (ps ! k) = i0 + k"
proof -
  show k: "\<forall>k < length ps. snd (ps ! k) = i0 + k"
  proof (intro allI impI)
    fix k assume "k < length ps"
    then show "snd (ps ! k) = i0 + k" using arg_cong[OF assms(2), of "\<lambda>xs. xs ! k"] by simp
  qed
  then show "snd (hd ps) = i0" using assms(1) by (simp add: hd_conv_nth)
  have "[i0 + 1..<i0 + 1 + (length ps - 1)] = tl [i0..<i0 + length ps]" using assms(1) by (cases ps) (simp_all add: upt_rec)
  then show "map snd (tl ps) = [i0 + 1..<i0 + 1 + (length ps - 1)]" using assms(2) by (simp add: map_tl)
  show "sorted_wrt (<) (map snd ps)" unfolding assms(2) by (rule sorted_wrt_upt)
qed

section \<open>Properties\<close>

text \<open>
  C37. Round trip of recovered frames: a frame that was filled with packets in increasing order,
  whose identifiers have gaps exactly where the packet numbers have gaps, is written and read back
  as ranges that stand for exactly the packets and identifiers of the frame, in order.
\<close>

theorem recovered_frame_roundtrip:
  assumes "recovered_ok rf" "recovered_list rf = ps" "ps \<noteq> []" "sorted_wrt (<) (map fst ps)" "sorted_wrt (<) (map snd ps)"
    "\<forall>p \<in> set ps. fst p < 2 ^ 62 \<and> snd p < 2 ^ 32"
    "\<forall>j. Suc j < length ps \<longrightarrow> (fst (ps ! Suc j) = fst (ps ! j) + 1 \<longleftrightarrow> snd (ps ! Suc j) = snd (ps ! j) + 1)"
    "32 * length ps \<le> bl" "bl \<le> length out" "bl < 2 ^ 64"
  shows "\<exists>out' consumed n ranges. serialize_window_recovered_frame True out bl rf = Some (0, out', consumed) \<and>
    drop consumed out' = drop consumed out \<and>
    parse_window_recovered_frame True True out' 0 bl = Some (Some (n, ranges, consumed)) \<and>
    concat (map (\<lambda>r. zip [rg_pn r..<rg_pn r + rg_n_symbols r] [rg_id r..<rg_id r + rg_n_symbols r]) (take n ranges)) = ps"
proof -
  let ?b = "packet_bytes (map fst ps) @ packet_bytes (map snd ps)"
  let ?A = "runs (fst (hd ps)) 1 (map fst (tl ps))" let ?B = "runs (snd (hd ps)) 1 (map snd (tl ps))"
  have len: "length ps \<le> 1000" using assms(1,2) unfolding recovered_ok_def recovered_list_def by auto
  have ser: "serialize_window_recovered_frame True out bl rf = Some (0, overlay out 0 ?b, length ?b)"
    using serialize_recovered[OF assms(1)] assms by simp
  have lb: "length ?b \<le> bl" using length_packet_bytes(1)[of "map fst ps"] length_packet_bytes(1)[of "map snd ps"] assms(3,8) by simp
  have p: "ps = hd ps # tl ps" using assms(3) by simp
  have ali: "map snd ?A = map snd ?B"
  proof (rule runs_aligned, simp_all, intro allI impI)
    fix j assume "j < length ps - Suc 0"
    then have "Suc j < length ps" by simp
    moreover have "ps ! Suc j = tl ps ! j" "ps ! j = (hd ps # tl ps) ! j" using p by (metis nth_Cons_Suc, metis)
    ultimately show "(fst (tl ps ! j) = Suc ((fst (hd ps) # map fst (tl ps)) ! j)) =
        (snd (tl ps ! j) = Suc ((snd (hd ps) # map snd (tl ps)) ! j))"
      using assms(7) by (cases j) auto
  qed
  have leq: "length ?B \<le> length ?A" using arg_cong[OF ali, of length] by simp
  have out: "overlay out 0 ?b = packet_bytes (map fst ps) @ packet_bytes (map snd ps) @ drop (length ?b) out" by (simp add: overlay_def)
  obtain R Q where R: "take (length ?A) R = map range_of ?A" "take (length ?B) Q = map range_of ?B"
    "parse_window_recovered_frame True True (overlay out 0 ?b) 0 bl =
      map_option (\<lambda>R. Some (length ?A, R, length ?b)) (assign_ids Q (length ?B) 0 (rg_pn (Q ! 0)) (rg_n_symbols (Q ! 0) mod 2 ^ 32) 0 R)"
    using parse_recovered[OF assms(3) len assms(4-6) out lb assms(10) refl refl leq] by blast
  have "\<forall>tc \<in> set ?B. snd tc < 2 ^ 32 \<and> fst tc < 2 ^ 32"
  proof
    fix tc assume tc: "tc \<in> set ?B"
    then have "fst tc \<in> snd ` set ps" using runs_fst[OF tc] p by (metis image_set list.simps(9) set_map)
    then show "snd tc < 2 ^ 32 \<and> fst tc < 2 ^ 32" using runs_snd_le[OF tc] len assms(6) by auto
  qed
  then obtain R' where R': "assign_ids Q (length ?B) 0 (rg_pn (Q ! 0)) (rg_n_symbols (Q ! 0) mod 2 ^ 32) 0 R = Some R'"
    "take (length ?A) R' = map2 (\<lambda>sc tc. (range_of sc)\<lparr>rg_id := fst tc\<rparr>) ?A ?B"
    using parse_recovered_aligned[OF R(1,2) ali runs_length(2)] by blast
  have "concat (map (\<lambda>r. zip [rg_pn r..<rg_pn r + rg_n_symbols r] [rg_id r..<rg_id r + rg_n_symbols r]) (take (length ?A) R')) =
      concat (map2 (\<lambda>sc tc. zip [fst sc..<fst sc + snd sc] [fst tc..<fst tc + snd sc]) ?A ?B)"
    unfolding R'(2) by (simp add: range_of_def comp_def case_prod_unfold)
  also have "\<dots> = zip (fst (hd ps) # map fst (tl ps)) (snd (hd ps) # map snd (tl ps))"
    unfolding zip_runs[OF ali] runs_expand by simp
  also have "\<dots> = ps" using p zip_map_fst_snd[of ps] by (metis list.simps(9))
  finally show ?thesis using ser R(3) R'(1) by (auto simp: overlay_def)
qed

text \<open>A frame with the given packets.\<close>

definition example_recovered :: "(nat \<times> nat) list \<Rightarrow> window_recovered_frame" where
  "example_recovered ps = \<lparr>packet_numbers = map fst ps @ replicate (1000 - length ps) 0,
     ids = map snd ps @ replicate (1000 - length ps) 0, n_packets = length ps, max_packets = 1000\<rparr>"

lemma example_recovered_ok:
  "length ps \<le> 1000 \<Longrightarrow> recovered_ok (example_recovered ps) \<and> recovered_list (example_recovered ps) = ps"
  by (simp add: recovered_ok_def recovered_list_def example_recovered_def zip_map_fst_snd)

theorem recovered_frame_roundtrip_witness:
  "\<exists>out' consumed n ranges.
    serialize_window_recovered_frame True (replicate 96 0) 96 (example_recovered [(5, 10), (6, 11), (9, 20)]) = Some (0, out', consumed) \<and>
    parse_window_recovered_frame True True out' 0 96 = Some (Some (n, ranges, consumed)) \<and>
    concat (map (\<lambda>r. zip [rg_pn r..<rg_pn r + rg_n_symbols r] [rg_id r..<rg_id r + rg_n_symbols r]) (take n ranges)) =
      [(5, 10), (6, 11), (9, 20)]"
proof -
  let ?ps = "[(5, 10), (6, 11), (9, 20)] :: (nat \<times> nat) list" let ?out = "replicate 96 0 :: bytes"
  have ex: "recovered_ok (example_recovered ?ps)" "recovered_list (example_recovered ?ps) = ?ps"
    using example_recovered_ok[of ?ps] by simp_all
  have al: "\<forall>j. Suc j < length ?ps \<longrightarrow> (fst (?ps ! Suc j) = fst (?ps ! j) + 1 \<longleftrightarrow> snd (?ps ! Suc j) = snd (?ps ! j) + 1)"
    by (auto simp: less_Suc_eq)
  have b: "?ps \<noteq> []" "sorted_wrt (<) (map fst ?ps)" "sorted_wrt (<) (map snd ?ps)" "\<forall>p \<in> set ?ps. fst p < 2 ^ 62 \<and> snd p < 2 ^ 32"
    "32 * length ?ps \<le> 96" "96 \<le> length ?out" "(96 :: nat) < 2 ^ 64" by simp_all
  show ?thesis using recovered_frame_roundtrip[OF ex b(1-4) al b(5-7)] by blast
qed

text \<open>
  C38. When the identifiers of the packets of a frame follow each other without a gap, reading
  gives back the runs of the packet numbers, but every range from the second one on gets as its
  identifier the first one plus the length of the run just before it. So the identifiers are right
  for at most two ranges, and wrong for every range from the third one on.
\<close>

theorem recovered_ids_wrong:
  assumes "recovered_ok rf" "recovered_list rf = ps" "ps \<noteq> []" "sorted_wrt (<) (map fst ps)"
    "map snd ps = [i0..<i0 + length ps]" "\<forall>p \<in> set ps. fst p < 2 ^ 62" "i0 + length ps < 2 ^ 32"
    "32 * length ps \<le> bl" "bl \<le> length out" "bl < 2 ^ 64"
    "A = runs (fst (hd ps)) 1 (map fst (tl ps))"
  shows "\<exists>out' consumed ranges. serialize_window_recovered_frame True out bl rf = Some (0, out', consumed) \<and>
    parse_window_recovered_frame True True out' 0 bl = Some (Some (length A, ranges, consumed)) \<and>
    (\<forall>j < length A. rg_pn (ranges ! j) = fst (A ! j) \<and> rg_n_symbols (ranges ! j) = snd (A ! j) \<and>
      rg_id (ranges ! j) = (if j = 0 then i0 else i0 + snd (A ! (j - 1))) \<and>
      (\<forall>k < length ps. fst (ps ! k) = rg_pn (ranges ! j) \<longrightarrow> (rg_id (ranges ! j) = snd (ps ! k) \<longleftrightarrow> j \<le> 1)))"
proof -
  let ?b = "packet_bytes (map fst ps) @ packet_bytes (map snd ps)" let ?B = "[(i0, length ps)]"
  note sf = single_ids_first[OF assms(3,5)]
  have len: "length ps \<le> 1000" using assms(1,2) unfolding recovered_ok_def recovered_list_def by auto
  have ser: "serialize_window_recovered_frame True out bl rf = Some (0, overlay out 0 ?b, length ?b)"
    using serialize_recovered[OF assms(1)] assms sf(3) by simp
  have lb: "length ?b \<le> bl" using length_packet_bytes(1)[of "map fst ps"] length_packet_bytes(1)[of "map snd ps"] assms(3,8) by simp
  have out: "overlay out 0 ?b = packet_bytes (map fst ps) @ packet_bytes (map snd ps) @ drop (length ?b) out" by (simp add: overlay_def)
  have bound: "\<forall>p \<in> set ps. fst p < 2 ^ 62 \<and> snd p < 2 ^ 32"
    using assms(6,7) sf(4) by (fastforce simp: in_set_conv_nth)
  have B: "?B = runs (snd (hd ps)) 1 (map snd (tl ps))"
    unfolding sf(1,2) runs_consecutive using assms(3) by (cases ps) auto
  have A: "A \<noteq> []" "sum_list (map snd A) = length ps" "\<forall>j < length A. 0 < snd (A ! j)"
    "concat (map (\<lambda>sc. [fst sc..<fst sc + snd sc]) A) = map fst ps"
    using runs_length(2) runs_sum runs_snd_pos[of 1 "fst (hd ps)" "map fst (tl ps)"] runs_expand assms(3,11)
    by (cases ps; simp add: all_set_conv_all_nth)+
  have "length ?B \<le> length A" using A(1) by (cases A) auto
  from parse_recovered[OF assms(3) len assms(4) sf(3) bound out lb assms(10,11) B this] obtain R Q where
    R: "take (length A) R = map range_of A" "take (length ?B) Q = map range_of ?B"
    "parse_window_recovered_frame True True (overlay out 0 ?b) 0 bl =
      map_option (\<lambda>R. Some (length A, R, length ?b)) (assign_ids Q (length ?B) 0 (rg_pn (Q ! 0)) (rg_n_symbols (Q ! 0) mod 2 ^ 32) 0 R)"
    by blast
  have RA: "length A \<le> length R" "\<And>j. j < length A \<Longrightarrow> R ! j = range_of (A ! j)" using take_map_nth[OF R(1)] A(1) by auto
  obtain Q' where Q: "Q = range_of (i0, length ps) # Q'" using R(2) by (cases Q) auto
  let ?R = "map_range 0 (length A) (\<lambda>k r. r\<lparr>rg_id := single_id i0 A k\<rparr>) R"
  have "assign_ids Q 1 0 (single_id i0 A 0) (sum_list (drop 0 (map snd A))) 0 R = Some ?R"
    by (rule assign_ids_single[where q = "range_of (i0, length ps)"]) (use RA A assms(7) in \<open>simp_all add: range_of_def Q\<close>)
  then have p: "parse_window_recovered_frame True True (overlay out 0 ?b) 0 bl = Some (Some (length A, ?R, length ?b))"
    using R(3) A(2) assms(7) by (simp add: single_id_def Q range_of_def)
  have ok: "rg_pn (?R ! j) = fst (A ! j) \<and> rg_n_symbols (?R ! j) = snd (A ! j) \<and> rg_id (?R ! j) = single_id i0 A j"
    if "j < length A" for j using RA that by (simp add: range_of_def)
  have id: "single_id i0 A j = snd (ps ! k) \<longleftrightarrow> j \<le> 1" if j: "j < length A" "k < length ps" "fst (ps ! k) = fst (A ! j)" for j k
  proof -
    have s: "sum_list (take j (map snd A)) < length ps" "fst (ps ! sum_list (take j (map snd A))) = fst (A ! j)"
      using concat_runs_nth[OF j(1)] A(3,4) j(1) by auto
    have "distinct (map fst ps)" using assms(4) by (simp add: strict_sorted_iff)
    then have "k = sum_list (take j (map snd A))" using s j by (metis distinct_conv_nth length_map nth_map)
    then show ?thesis using single_id_right[OF j(1) A(3)] sf(4) j(2) by simp
  qed
  have "\<forall>j < length A. rg_pn (?R ! j) = fst (A ! j) \<and> rg_n_symbols (?R ! j) = snd (A ! j) \<and>
      rg_id (?R ! j) = (if j = 0 then i0 else i0 + snd (A ! (j - 1))) \<and>
      (\<forall>k < length ps. fst (ps ! k) = rg_pn (?R ! j) \<longrightarrow> (rg_id (?R ! j) = snd (ps ! k) \<longleftrightarrow> j \<le> 1))"
    using ok id unfolding single_id_def[symmetric] by (simp del: nth_map_range)
  with ser p show ?thesis by blast
qed

theorem recovered_ids_wrong_witness:
  "\<exists>out' consumed ranges.
    serialize_window_recovered_frame True (replicate 96 0) 96 (example_recovered [(1, 10), (3, 11), (5, 12)]) = Some (0, out', consumed) \<and>
    parse_window_recovered_frame True True out' 0 96 = Some (Some (3, ranges, consumed)) \<and>
    rg_pn (ranges ! 2) = 5 \<and> rg_id (ranges ! 2) = 11"
proof -
  let ?ps = "[(1, 10), (3, 11), (5, 12)] :: (nat \<times> nat) list" and ?out = "replicate 96 0 :: bytes"
  have ex: "recovered_ok (example_recovered ?ps)" "recovered_list (example_recovered ?ps) = ?ps"
    using example_recovered_ok[of ?ps] by simp_all
  have b: "?ps \<noteq> []" "sorted_wrt (<) (map fst ?ps)" "map snd ?ps = [10..<10 + length ?ps]" "\<forall>p \<in> set ?ps. fst p < 2 ^ 62"
    "10 + length ?ps < 2 ^ 32" "32 * length ?ps \<le> 96" "96 \<le> length ?out" "(96 :: nat) < 2 ^ 64" by (simp_all add: upt_rec)
  have A: "runs (fst (hd ?ps)) 1 (map fst (tl ?ps)) = [(1, 1), (3, 1), (5, 1)]" by simp
  show ?thesis
    using recovered_ids_wrong[OF ex b A[symmetric]]
  proof (elim exE conjE)
    fix out' consumed ranges
    let ?A = "[(1, 1), (3, 1), (5, 1)] :: (nat \<times> nat) list"
    assume r: "serialize_window_recovered_frame True ?out 96 (example_recovered ?ps) = Some (0, out', consumed)"
      "parse_window_recovered_frame True True out' 0 96 = Some (Some (length ?A, ranges, consumed))"
      "\<forall>j < length ?A. rg_pn (ranges ! j) = fst (?A ! j) \<and> rg_n_symbols (ranges ! j) = snd (?A ! j) \<and>
        rg_id (ranges ! j) = (if j = 0 then 10 else 10 + snd (?A ! (j - 1))) \<and>
        (\<forall>k < length ?ps. fst (?ps ! k) = rg_pn (ranges ! j) \<longrightarrow> (rg_id (ranges ! j) = snd (?ps ! k) \<longleftrightarrow> j \<le> 1))"
    have "length ?A = 3" by simp
    moreover from r(3)[rule_format, of 2] have "rg_pn (ranges ! 2) = 5" "rg_id (ranges ! 2) = 11" by simp_all
    ultimately show ?thesis using r(1,2) by (intro exI conjI) (simp_all only:)
  qed
qed

end
