(* ===== verification/FecSymbols.thy ===== *)
theory FecSymbols
  imports FecWire
begin

text \<open>
  Source symbols and the segmentation of packets (\<^verbatim>\<open>simple_fec/fec.h\<close>, \<^verbatim>\<open>window_framework/types.h\<close>): the
  stream frames of a packet, preceded by the packet number, are cut into symbols of one metadata
  byte and a chunk. The lemmas describe the symbol of a packet that fits one symbol. The memory
  size of a symbol, which the callers take large enough, has no part in the model.

  The function that skips one frame is a protocol operation, looked up by name when the plugin
  runs; it is the parameter \<open>skip\<close> of the model, from the remaining bytes and their number to an
  error code and the number of bytes consumed.
\<close>

section \<open>Symbols\<close>

record window_source_symbol =
  chunk_size :: nat
  whole_data :: bytes
  ss_id :: nat

definition MALLOC_SIZE_FOR_FRAGMENTATION :: nat where "MALLOC_SIZE_FOR_FRAGMENTATION = 64"

definition set_bit0 :: "u8 \<Rightarrow> u8 \<Rightarrow> window_source_symbol \<Rightarrow> bool \<Rightarrow> window_source_symbol option" where
  "set_bit0 on keep ss val = do {
     b \<leftarrow> rd (whole_data ss) 0;
     Some (ss\<lparr>whole_data := (whole_data ss)[0 := if val then b OR on else b AND keep]\<rparr>)
   }"

definition set_ss_metadata_N :: "window_source_symbol \<Rightarrow> bool \<Rightarrow> window_source_symbol option" where
  "set_ss_metadata_N = set_bit0 0b100 0b011"

definition set_ss_metadata_S :: "window_source_symbol \<Rightarrow> bool \<Rightarrow> window_source_symbol option" where
  "set_ss_metadata_S = set_bit0 0b010 0b101"

definition set_ss_metadata_E :: "window_source_symbol \<Rightarrow> bool \<Rightarrow> window_source_symbol option" where
  "set_ss_metadata_E = set_bit0 0b001 0b110"

definition get_ss_metadata_N :: "window_source_symbol \<Rightarrow> bool option" where
  "get_ss_metadata_N ss = map_option (\<lambda>b. b AND 0b100 \<noteq> 0) (rd (whole_data ss) 0)"

definition get_ss_metadata_S :: "window_source_symbol \<Rightarrow> bool option" where
  "get_ss_metadata_S ss = map_option (\<lambda>b. b AND 0b010 \<noteq> 0) (rd (whole_data ss) 0)"

definition get_ss_metadata_E :: "window_source_symbol \<Rightarrow> bool option" where
  "get_ss_metadata_E ss = map_option (\<lambda>b. b AND 0b001 \<noteq> 0) (rd (whole_data ss) 0)"

text \<open>
  A new symbol; \<open>junk\<close> is what the allocated bytes hold. The first function leaves the field
  \<open>chunk_size\<close> at 0, the second sets it.
\<close>

definition create_larger_source_symbol :: "bool \<Rightarrow> bool \<Rightarrow> u8 \<Rightarrow> nat \<Rightarrow> window_source_symbol option" where
  "create_larger_source_symbol alloc alloc_data junk chunk =
     (if alloc \<and> alloc_data
      then Some \<lparr>chunk_size = 0,
        whole_data = overlay (replicate (align (max MALLOC_SIZE_FOR_FRAGMENTATION (chunk + 1))) junk) 0 (replicate (chunk + 1) 0),
        ss_id = 0\<rparr>
      else None)"

definition create_window_source_symbol :: "bool \<Rightarrow> bool \<Rightarrow> u8 \<Rightarrow> nat \<Rightarrow> window_source_symbol option" where
  "create_window_source_symbol alloc alloc_data junk symbol_size =
     (if alloc \<and> alloc_data
      then Some \<lparr>chunk_size = (symbol_size + (2 ^ 16 - 1)) mod 2 ^ 16,
        whole_data = overlay (replicate (max MALLOC_SIZE_FOR_FRAGMENTATION (align symbol_size)) junk) 0 (replicate symbol_size 0),
        ss_id = 0\<rparr>
      else None)"

section \<open>Segmentation\<close>

text \<open>The test of the type byte of a frame: the range from 8 to 15 of the stream frames.\<close>

definition is_stream_type :: "u8 \<Rightarrow> bool" where
  "is_stream_type b \<longleftrightarrow> b AND NOT (0x08 XOR 0x0f) = 0x08"

text \<open>
  The loop that copies the stream frames of a payload to \<open>out\<close> from \<open>out_off\<close> on. A frame of length 0
  makes it run for ever, which is \<open>None\<close> as well.
\<close>

function preprocess_packet_payload ::
  "(bytes \<Rightarrow> nat \<Rightarrow> int \<times> nat) \<Rightarrow> bytes \<Rightarrow> nat \<Rightarrow> nat \<Rightarrow> bytes \<Rightarrow> nat \<Rightarrow> nat \<Rightarrow> (int \<times> bytes \<times> nat) option" where
  "preprocess_packet_payload skip payload len off out base out_off =
     (if off < len then do {
        type_byte \<leftarrow> rd payload off;
        let (err, consumed) = skip (drop off payload) (len - off);
        (if err \<noteq> 0 then Some (err, out, 0)
         else if consumed = 0 then None
         else do {
           (out, out_off) \<leftarrow> (if is_stream_type type_byte
             then map_option (\<lambda>out. (out, out_off + consumed)) (memcpy_at out (base + out_off) payload off consumed)
             else Some (out, out_off));
           preprocess_packet_payload skip payload len (off + consumed) out base out_off
         })
      }
      else Some (0, out, out_off))"
  by pat_completeness auto
termination
  by (relation "measure (\<lambda>(_, _, n, off, _, _, _). n - off)") auto

declare preprocess_packet_payload.simps [simp del]

text \<open>
  The chunk of symbol \<open>i\<close>: the first one holds the packet number, padding and data, the others data
  only. The results are the symbol and the next offset in the payload.
\<close>

definition fill_symbol :: "window_source_symbol \<Rightarrow> bytes \<Rightarrow> nat \<Rightarrow> nat \<Rightarrow> nat \<Rightarrow> nat \<Rightarrow> (window_source_symbol \<times> nat) option" where
  "fill_symbol symbol processed chunk padding i offset =
     (if i = 0 then do {
        symbol \<leftarrow> set_ss_metadata_N symbol True;
        symbol \<leftarrow> set_ss_metadata_S symbol True;
        d \<leftarrow> memcpy_at (whole_data symbol) 1 processed 0 8;
        let offset = offset + 8;
        d \<leftarrow> memcpy_at d (1 + 8 + padding) processed offset (u64_sub chunk (padding + 8));
        Some (symbol\<lparr>whole_data := d\<rparr>, offset + chunk - padding)
      }
      else do {
        d \<leftarrow> memcpy_at (whole_data symbol) 1 processed offset chunk;
        symbol \<leftarrow> set_ss_metadata_N (symbol\<lparr>whole_data := d\<rparr>) False;
        Some (symbol, offset + chunk)
      })"

fun fill_symbols ::
  "(nat \<Rightarrow> bool \<times> bool) \<Rightarrow> u8 \<Rightarrow> bytes \<Rightarrow> nat \<Rightarrow> nat \<Rightarrow> nat \<Rightarrow> nat \<Rightarrow> nat \<Rightarrow> window_source_symbol list option option" where
  "fill_symbols alloc junk processed chunk padding i offset 0 = Some (Some [])"
| "fill_symbols alloc junk processed chunk padding i offset (Suc n) =
     (case create_larger_source_symbol (fst (alloc i)) (snd (alloc i)) junk chunk of
        None \<Rightarrow> Some None
      | Some symbol \<Rightarrow> do {
          (symbol, offset) \<leftarrow> fill_symbol symbol processed chunk padding i offset;
          rest \<leftarrow> fill_symbols alloc junk processed chunk padding (Suc i) offset n;
          Some (map_option (\<lambda>ss. symbol # ss) rest)
        })"

definition packet_payload_to_source_symbols ::
  "(bytes \<Rightarrow> nat \<Rightarrow> int \<times> nat) \<Rightarrow> (nat \<Rightarrow> bool \<times> bool) \<Rightarrow> bool \<Rightarrow> u8 \<Rightarrow> bytes \<Rightarrow> nat \<Rightarrow> nat \<Rightarrow> u64 \<Rightarrow> bytes option \<Rightarrow>
   window_source_symbol list option option" where
  "packet_payload_to_source_symbols skip alloc alloc_array junk payload len symbol_size packet_number tmp_buffer =
     (case tmp_buffer of
        None \<Rightarrow> Some None
      | Some tmp \<Rightarrow>
          if len = 0 then Some None
          else do {
            tmp \<leftarrow> memset_at tmp 0 0 (len + 8);
            let chunk = (symbol_size + (2 ^ 16 - 1)) mod 2 ^ 16;
            tmp \<leftarrow> encode_u64 packet_number tmp 0;
            (err, tmp, temp_length) \<leftarrow> preprocess_packet_payload skip payload len 0 tmp 8 0;
            (if err \<noteq> 0 then Some None
             else if chunk = 0 then None
             else
               let processed_length = 8 + temp_length;
                   padded_length = (if processed_length mod chunk = 0 then processed_length
                     else chunk * (processed_length div chunk + 1)) mod 2 ^ 16;
                   padding_length = (padded_length + (2 ^ 16 - processed_length mod 2 ^ 16)) mod 2 ^ 16;
                   n_chunks = padded_length div chunk
               in if \<not> alloc_array then Some None
               else if n_chunks = 0 then Some (Some [])
               else do {
                 ss \<leftarrow> fill_symbols alloc junk tmp chunk padding_length 0 0 n_chunks;
                 (case ss of
                    None \<Rightarrow> Some None
                  | Some ss \<Rightarrow> do {
                      l \<leftarrow> set_ss_metadata_E (last ss) True;
                      Some (Some (butlast ss @ [l]))
                    })
               })
          })"

section \<open>The stream frames of a packet\<close>

text \<open>
  What the segmentation relies on: the protocol operation finds the frames \<open>fs\<close> of the payload one
  after the other.
\<close>

definition skips :: "(bytes \<Rightarrow> nat \<Rightarrow> int \<times> nat) \<Rightarrow> bytes list \<Rightarrow> bool" where
  "skips skip fs \<longleftrightarrow> (\<forall>k < length fs. fs ! k \<noteq> [] \<and>
     skip (concat (drop k fs)) (length (concat (drop k fs))) = (0, length (fs ! k)))"

definition stream_data :: "bytes list \<Rightarrow> bytes" where
  "stream_data fs = concat (filter (\<lambda>f. is_stream_type (hd f)) fs)"

lemma stream_data_simps [simp]:
  "stream_data [] = []" "stream_data (f # fs) = (if is_stream_type (hd f) then f else []) @ stream_data fs"
  by (simp_all add: stream_data_def)

lemma skips_tl: "skips skip (f # fs) \<Longrightarrow> skips skip fs"
  unfolding skips_def by (auto dest: spec[of _ "Suc _"])

lemma stream_data_length: "length (stream_data fs) \<le> length (concat fs)"
  by (induction fs) auto

lemma preprocess_eq:
  assumes "skips skip fs" "payload = pre @ concat fs" "off = length pre" "base + n + length (concat fs) \<le> length out"
  shows "preprocess_packet_payload skip payload (length payload) off out base n =
    Some (0, overlay out (base + n) (stream_data fs), n + length (stream_data fs))"
  using assms
proof (induction fs arbitrary: pre off out n)
  case Nil
  then show ?case by (simp add: preprocess_packet_payload.simps overlay_def)
next
  case (Cons f fs)
  have sk: "f \<noteq> []" "skip (f @ concat fs) (length (f @ concat fs)) = (0, length f)"
    using Cons.prems(1) unfolding skips_def by (auto dest: spec[of _ 0])
  have d: "drop off payload = f @ concat fs" "off < length payload" "length payload - off = length (f @ concat fs)"
    using Cons.prems(2,3) sk(1) by auto
  have hd: "rd payload off = Some (hd f)"
    using Cons.prems(2,3) sk(1) by (cases f) (auto simp: rd_def nth_append)
  let ?o = "if is_stream_type (hd f) then overlay out (base + n) f else out"
  let ?n = "if is_stream_type (hd f) then n + length f else n"
  have cp: "memcpy_at out (base + n) payload off (length f) = Some (overlay out (base + n) f)"
    using Cons.prems d(1) by (auto simp: memcpy_at_def)
  have "preprocess_packet_payload skip payload (length payload) off out base n =
      preprocess_packet_payload skip payload (length payload) (off + length f) ?o base ?n"
    using d hd sk cp by (subst preprocess_packet_payload.simps) (simp add: Let_def)
  also have "\<dots> = Some (0, overlay ?o (base + ?n) (stream_data fs), ?n + length (stream_data fs))"
    by (rule Cons.IH[where pre = "pre @ f"])
      (use Cons.prems skips_tl[OF Cons.prems(1)] in \<open>auto simp: overlay_def split: if_splits\<close>)
  finally show ?case
    using overlay_overlay[of "base + n" f "stream_data fs" out] Cons.prems(4) stream_data_length[of fs] by (auto simp: add.assoc)
qed

lemma set_bit0_eq: "whole_data ss = b # d \<Longrightarrow> set_bit0 on keep ss v = Some (ss\<lparr>whole_data := (if v then b OR on else b AND keep) # d\<rparr>)"
  by (simp add: set_bit0_def)

lemma create_larger_eq: "create_larger_source_symbol True True junk c =
    Some \<lparr>chunk_size = 0, whole_data = 0 # replicate c 0 @ replicate (align (max 64 (c + 1)) - (c + 1)) junk, ss_id = 0\<rparr>"
  by (simp add: create_larger_source_symbol_def overlay_def MALLOC_SIZE_FOR_FRAGMENTATION_def)

text \<open>The symbol of a packet: metadata, packet number, padding, stream frames.\<close>

definition packet_symbol :: "nat \<Rightarrow> u64 \<Rightarrow> bytes \<Rightarrow> bytes" where
  "packet_symbol symbol_size pn data =
     7 # be_digits 8 (unat pn) @ replicate (symbol_size - 9 - length data) 0 @ data"

lemma length_packet_symbol: "9 + length data \<le> symbol_size \<Longrightarrow> length (packet_symbol symbol_size pn data) = symbol_size"
  by (simp add: packet_symbol_def)

lemma overlay_middle: "length mid = length bs \<Longrightarrow> off = length pre \<Longrightarrow> overlay (pre @ mid @ post) off bs = pre @ bs @ post"
  by (simp add: overlay_def)

lemma fill_first:
  assumes "processed = num @ data @ rest" "length num = 8" "chunk = 8 + padding + length data" "chunk < 2 ^ 16"
  shows "fill_symbol \<lparr>chunk_size = 0, whole_data = 0 # replicate chunk 0 @ J, ss_id = 0\<rparr> processed chunk padding 0 0 =
    Some (\<lparr>chunk_size = 0, whole_data = 6 # num @ replicate padding 0 @ data @ J, ss_id = 0\<rparr>, 8 + chunk - padding)"
proof -
  have w: "6 # replicate chunk 0 @ J = [6] @ replicate 8 0 @ (replicate padding 0 @ replicate (length data) 0 @ J)"
    using assms(3) by (simp add: replicate_add[symmetric])
  have c1: "memcpy_at (6 # replicate chunk 0 @ J) 1 processed 0 8 =
      Some ([6] @ num @ replicate padding 0 @ replicate (length data) 0 @ J)"
    unfolding w using assms(1,2) overlay_middle[of "replicate 8 0" num 1 "[6]" "replicate padding 0 @ replicate (length data) 0 @ J"]
    by (simp add: memcpy_at_def)
  have sub: "u64_sub chunk (padding + 8) = length data" using assms(3,4) by (simp add: u64_sub_le)
  have c2: "memcpy_at ([6] @ num @ replicate padding 0 @ replicate (length data) 0 @ J) (1 + 8 + padding) processed 8 (length data) =
      Some (6 # num @ replicate padding 0 @ data @ J)"
    using assms(1,2) overlay_middle[of "replicate (length data) 0" data "1 + 8 + padding" "[6] @ num @ replicate padding 0" J]
    by (simp add: memcpy_at_def)
  show ?thesis
    using c1 c2 sub
    by (simp add: fill_symbol_def set_ss_metadata_N_def set_ss_metadata_S_def set_bit0_eq)
qed

lemma tmp_content:
  assumes "length payload + 8 \<le> length tmp" "skips skip fs" "payload = concat fs"
  obtains tmp1 tmp2 rest where "memset_at tmp 0 0 (length payload + 8) = Some tmp1"
    "encode_u64 pn tmp1 0 = Some tmp2"
    "preprocess_packet_payload skip payload (length payload) 0 tmp2 8 0 =
      Some (0, be_digits 8 (unat pn) @ stream_data fs @ rest, length (stream_data fs))"
proof -
  let ?t1 = "overlay tmp 0 (replicate (length payload + 8) 0)"
  let ?t2 = "overlay ?t1 0 (be_digits 8 (unat pn))"
  have l: "length ?t1 = length tmp" "length ?t2 = length tmp" using assms(1) by (simp_all add: overlay_def)
  have e: "encode_u64 pn ?t1 0 = Some ?t2" unfolding encode_u64_def using assms(1) l by (intro encode_un_eq) simp_all
  have p: "preprocess_packet_payload skip payload (length payload) 0 ?t2 8 0 =
      Some (0, overlay ?t2 (8 + 0) (stream_data fs), 0 + length (stream_data fs))"
    by (rule preprocess_eq[where pre = "[]"]) (use assms l in simp_all)
  have "overlay ?t2 8 (stream_data fs) = be_digits 8 (unat pn) @ stream_data fs @ drop (8 + length (stream_data fs)) ?t2"
    by (simp add: overlay_def del: be_digits.simps)
  then show thesis using that[of ?t1 ?t2 "drop (8 + length (stream_data fs)) ?t2"] assms(1) e p by (simp add: memset_at_def del: be_digits.simps)
qed

lemma segment_one:
  assumes "skips skip fs" "payload = concat fs" "payload \<noteq> []" "length payload + 8 \<le> length tmp"
    "9 + length (stream_data fs) \<le> symbol_size" "symbol_size < 2 ^ 16" "alloc 0 = (True, True)"
  obtains J where "packet_payload_to_source_symbols skip alloc True junk payload (length payload) symbol_size pn (Some tmp) =
    Some (Some [\<lparr>chunk_size = 0, whole_data = packet_symbol symbol_size pn (stream_data fs) @ J, ss_id = 0\<rparr>])"
proof -
  let ?d = "stream_data fs" let ?c = "symbol_size - 1" let ?p = "?c - (8 + length ?d)"
  obtain t1 t2 rest where t: "memset_at tmp 0 0 (length payload + 8) = Some t1" "encode_u64 pn t1 0 = Some t2"
    "preprocess_packet_payload skip payload (length payload) 0 t2 8 0 = Some (0, be_digits 8 (unat pn) @ ?d @ rest, length ?d)"
    by (rule tmp_content[OF assms(4,1,2)])
  have c: "(symbol_size + (2 ^ 16 - 1)) mod 2 ^ 16 = ?c"
  proof -
    have "symbol_size + (2 ^ 16 - 1) = ?c + 2 ^ 16" using assms(5) by simp
    then have "(symbol_size + (2 ^ 16 - 1)) mod 2 ^ 16 = (?c + 2 ^ 16) mod 2 ^ 16" by (simp only:)
    then show ?thesis using assms(6) by (simp only: mod_add_self2 mod_less)
  qed
  have padded: "(if (8 + length ?d) mod ?c = 0 then 8 + length ?d else ?c * ((8 + length ?d) div ?c + 1)) mod 2 ^ 16 = ?c"
    using assms(5,6) by (cases "8 + length ?d = ?c") (auto simp: mod_less div_less)
  have "?c + (2 ^ 16 - (8 + length ?d) mod 2 ^ 16) = ?p + 2 ^ 16" using assms(5,6) by simp
  then have pad: "(?c + (2 ^ 16 - (8 + length ?d) mod 2 ^ 16)) mod 2 ^ 16 = ?p" using assms(6) by simp
  let ?J = "replicate (align (max 64 (?c + 1)) - (?c + 1)) junk"
  have f: "fill_symbol \<lparr>chunk_size = 0, whole_data = 0 # replicate ?c 0 @ ?J, ss_id = 0\<rparr> (be_digits 8 (unat pn) @ ?d @ rest) ?c ?p 0 0 =
    Some (\<lparr>chunk_size = 0, whole_data = 6 # be_digits 8 (unat pn) @ replicate ?p 0 @ ?d @ ?J, ss_id = 0\<rparr>, 8 + ?c - ?p)"
    by (rule fill_first) (use assms(5,6) in simp_all)
  have "fill_symbols alloc junk (be_digits 8 (unat pn) @ ?d @ rest) ?c ?p 0 0 1 =
    Some (Some [\<lparr>chunk_size = 0, whole_data = 6 # be_digits 8 (unat pn) @ replicate ?p 0 @ ?d @ ?J, ss_id = 0\<rparr>])"
    using f assms(7) by (simp add: create_larger_eq del: be_digits.simps)
  moreover have "?c div ?c = 1" "?c \<noteq> 0" using assms(5) by simp_all
  ultimately have "packet_payload_to_source_symbols skip alloc True junk payload (length payload) symbol_size pn (Some tmp) =
    Some (Some [\<lparr>chunk_size = 0, whole_data = 7 # be_digits 8 (unat pn) @ replicate ?p 0 @ ?d @ ?J, ss_id = 0\<rparr>])"
    using t c padded pad assms(3)
    by (simp add: packet_payload_to_source_symbols_def Let_def set_ss_metadata_E_def set_bit0_eq del: be_digits.simps One_nat_def)
  then show thesis using that[of ?J] by (simp add: packet_symbol_def)
qed

end
