(* ===== verification/SymbolTracker.thy ===== *)
theory SymbolTracker
  imports Prelude
begin

text \<open>
  The tracker of received source symbols (\<^verbatim>\<open>window_framework/search_structures.h\<close>): a sorted linked list
  of intervals of identifiers, whose first interval tells up to which symbol everything was
  received. The lemmas show that it implements a set of identifiers.

  The list of nodes is a list; the loop carries the nodes before the current one in reverse order,
  so that its first element is the node \<open>previous\<close> of the code. Identifiers are 32-bit values held
  as naturals.
\<close>

section \<open>Intervals and operations\<close>

record received_symbols_interval_item =
  iv_start :: nat
  iv_end :: nat

type_synonym received_symbols_tracker = "received_symbols_interval_item list"

definition WINDOW_INITIAL_SYMBOL_ID :: nat where "WINDOW_INITIAL_SYMBOL_ID = 1"

text \<open>A new node; the outcome of the allocation is an argument.\<close>

definition create_node :: "bool \<Rightarrow> nat \<Rightarrow> nat \<Rightarrow> received_symbols_interval_item option" where
  "create_node alloc start end' = (if alloc then Some \<lparr>iv_start = start, iv_end = end'\<rparr> else None)"

definition create_received_symbols_tracker :: "bool \<Rightarrow> bool \<Rightarrow> nat \<Rightarrow> received_symbols_tracker option" where
  "create_received_symbols_tracker alloc alloc_node initial_symbol_id =
     (if alloc then map_option (\<lambda>n. [n]) (create_node alloc_node 0 initial_symbol_id) else None)"

text \<open>The return code of a failed allocation is \<open>PICOQUIC_ERROR_MEMORY\<close>, 0x405.\<close>

fun track_loop ::
  "bool \<Rightarrow> nat \<Rightarrow> received_symbols_interval_item list \<Rightarrow> received_symbols_tracker \<Rightarrow> (int \<times> received_symbols_tracker) option" where
  "track_loop alloc received before [] =
     (case create_node alloc received (u32_add received 1) of
        None \<Rightarrow> Some (0x405, rev before)
      | Some n \<Rightarrow> if before = [] then None else Some (0, rev before @ [n]))"
| "track_loop alloc received before (current # rest) =
     (if received = u32_sub (iv_start current) 1 then
        let current = current\<lparr>iv_start := u32_sub (iv_start current) 1\<rparr> in
        (case before of
           previous # ps \<Rightarrow>
             if iv_end previous = iv_start current
             then Some (0, rev ps @ previous\<lparr>iv_end := iv_end current\<rparr> # rest)
             else Some (0, rev before @ current # rest)
         | [] \<Rightarrow> Some (0, current # rest))
      else if received = iv_end current then
        let current = current\<lparr>iv_end := u32_add (iv_end current) 1\<rparr> in
        (case rest of
           nxt # rest' \<Rightarrow>
             if iv_start nxt = iv_end current
             then Some (0, rev before @ current\<lparr>iv_end := iv_end nxt\<rparr> # rest')
             else Some (0, rev before @ current # rest)
         | [] \<Rightarrow> Some (0, rev before @ [current]))
      else if received < iv_start current then
        (case create_node alloc received (u32_add received 1) of
           None \<Rightarrow> Some (0x405, rev before @ current # rest)
         | Some n \<Rightarrow> if before = [] then None else Some (0, rev before @ n # current # rest))
      else if received < iv_end current then Some (0, rev before @ current # rest)
      else track_loop alloc received (current # before) rest)"

definition tracker_receive_source_symbol :: "bool \<Rightarrow> received_symbols_tracker \<Rightarrow> nat \<Rightarrow> (int \<times> received_symbols_tracker) option" where
  "tracker_receive_source_symbol alloc t received =
     (if t = [] then
        (if alloc then Some (0, [\<lparr>iv_start = received, iv_end = u32_add received 1\<rparr>]) else Some (0x405, []))
      else track_loop alloc received [] t)"

text \<open>The result is an \<open>int\<close>: an identifier from \<open>2 ^ 31\<close> on is returned as a negative number.\<close>

definition get_highest_contiguous_received_source_symbol :: "received_symbols_tracker \<Rightarrow> int option" where
  "get_highest_contiguous_received_source_symbol t =
     (case t of [] \<Rightarrow> None
      | first # _ \<Rightarrow> let n = u32_sub (iv_end first) 1 in Some (if n < 2 ^ 31 then int n else int n - 2 ^ 32))"

section \<open>Sets of identifiers\<close>

text \<open>Intervals that are not empty, do not touch and lie above \<open>lo\<close>, and the identifiers in them.\<close>

fun spaced :: "nat \<Rightarrow> received_symbols_tracker \<Rightarrow> bool" where
  "spaced lo [] \<longleftrightarrow> True"
| "spaced lo (i # is) \<longleftrightarrow> lo < iv_start i \<and> iv_start i < iv_end i \<and> iv_end i < 2 ^ 32 \<and> spaced (iv_end i) is"

definition received_ids :: "received_symbols_tracker \<Rightarrow> nat set" where
  "received_ids t = (\<Union>i \<in> set t. {iv_start i..<iv_end i})"

definition tracker_ok :: "received_symbols_tracker \<Rightarrow> bool" where
  "tracker_ok t \<longleftrightarrow> (case t of [] \<Rightarrow> False | i # is \<Rightarrow> iv_start i = 0 \<and> 0 < iv_end i \<and> iv_end i < 2 ^ 32 \<and> spaced (iv_end i) is)"

lemma received_ids_simps [simp]:
  "received_ids [] = {}" "received_ids (i # t) = {iv_start i..<iv_end i} \<union> received_ids t"
  "received_ids (s @ t) = received_ids s \<union> received_ids t" "received_ids (rev t) = received_ids t"
  by (auto simp: received_ids_def)

lemma spaced_lower: "spaced lo t \<Longrightarrow> n \<in> received_ids t \<Longrightarrow> lo < n"
  by (induction lo t rule: spaced.induct) force+

lemma spaced_mono: "spaced lo t \<Longrightarrow> lo' \<le> lo \<Longrightarrow> spaced lo' t"
  by (cases t) auto

text \<open>Appending: \<open>reach lo t\<close> is the end of the last interval, or \<open>lo\<close>.\<close>

definition reach :: "nat \<Rightarrow> received_symbols_tracker \<Rightarrow> nat" where
  "reach lo t = (if t = [] then lo else iv_end (last t))"

lemma spaced_append: "spaced lo (s @ t) \<longleftrightarrow> spaced lo s \<and> spaced (reach lo s) t"
  by (induction lo s rule: spaced.induct) (auto simp: reach_def)

lemma tracker_ok_append:
  "b \<noteq> [] \<Longrightarrow> tracker_ok (b @ c) \<longleftrightarrow> tracker_ok b \<and> spaced (iv_end (last b)) c"
  by (cases b) (auto simp: tracker_ok_def spaced_append reach_def)

lemma tracker_ok_bound: "tracker_ok t \<Longrightarrow> i \<in> set t \<Longrightarrow> iv_end i < 2 ^ 32"
proof -
  have "spaced lo t \<Longrightarrow> i \<in> set t \<Longrightarrow> iv_end i < 2 ^ 32" for lo t
    by (induction lo t rule: spaced.induct) auto
  then show "tracker_ok t \<Longrightarrow> i \<in> set t \<Longrightarrow> ?thesis" by (cases t) (auto simp: tracker_ok_def)
qed

lemma u32_dec: "0 < a \<Longrightarrow> a < 2 ^ 32 \<Longrightarrow> u32_sub a 1 = a - 1" "u32_sub 0 1 = 2 ^ 32 - 1"
proof -
  assume "0 < a" "a < 2 ^ 32"
  then have "a + (2 ^ 32 - 1) = (a - 1) + 2 ^ 32" by simp
  then have "u32_sub a 1 = (a - 1 + 2 ^ 32) mod 2 ^ 32" by (simp only: u32_sub_def)
  also have "\<dots> = a - 1" using \<open>a < 2 ^ 32\<close> by (subst mod_add_self2) simp
  finally show "u32_sub a 1 = a - 1" .
qed (simp add: u32_sub_def)

text \<open>Each way the loop can end, as an effect on the intervals from the current one on.\<close>

lemma extend_down:
  "spaced lo (c # cs) \<Longrightarrow> lo < n \<Longrightarrow> iv_start c = Suc n \<Longrightarrow>
   spaced lo (c\<lparr>iv_start := n\<rparr> # cs) \<and> received_ids (c\<lparr>iv_start := n\<rparr> # cs) = insert n (received_ids (c # cs))"
  by auto

lemma extend_up:
  assumes "spaced lo (c # cs)" "iv_end c < 2 ^ 32 - 1" "n = iv_end c"
  defines "r \<equiv> (case cs of nxt # cs' \<Rightarrow> if iv_start nxt = Suc n then c\<lparr>iv_end := iv_end nxt\<rparr> # cs' else c\<lparr>iv_end := Suc n\<rparr> # cs
      | [] \<Rightarrow> [c\<lparr>iv_end := Suc n\<rparr>])"
  shows "spaced lo r \<and> received_ids r = insert n (received_ids (c # cs)) \<and> r \<noteq> [] \<and> iv_start (hd r) = iv_start c"
  using assms by (cases cs) auto

lemma insert_before:
  "spaced lo (c # cs) \<Longrightarrow> lo < n \<Longrightarrow> Suc n < iv_start c \<Longrightarrow>
   spaced lo (\<lparr>iv_start = n, iv_end = Suc n\<rparr> # c # cs) \<and>
   received_ids (\<lparr>iv_start = n, iv_end = Suc n\<rparr> # c # cs) = insert n (received_ids (c # cs))"
  by auto

lemma tracker_ok_rev:
  "b \<noteq> [] \<Longrightarrow> tracker_ok (rev b @ c) \<longleftrightarrow> tracker_ok (rev b) \<and> spaced (iv_end (hd b)) c"
  using tracker_ok_append[of "rev b" c] by (simp add: last_rev)

lemma track_loop_correct:
  assumes "tracker_ok (rev before @ cur)" "n < 2 ^ 32 - 1" "before \<noteq> [] \<Longrightarrow> iv_end (hd before) < n" "cur = [] \<Longrightarrow> before \<noteq> []"
  shows "\<exists>ret t'. track_loop alloc n before cur = Some (ret, t') \<and> tracker_ok t' \<and>
    (ret = 0 \<longrightarrow> received_ids t' = insert n (received_ids (rev before @ cur))) \<and>
    (ret \<noteq> 0 \<longrightarrow> \<not> alloc \<and> t' = rev before @ cur)"
  using assms
proof (induction cur arbitrary: before)
  case Nil
  have n: "u32_add n 1 = Suc n" using Nil.prems(2) by (simp add: u32_add_def)
  show ?case
    using Nil.prems n tracker_ok_rev[of before "[\<lparr>iv_start = n, iv_end = Suc n\<rparr>]"]
    by (cases alloc) (auto simp: create_node_def)
next
  case (Cons c cs)
  have n: "u32_add n 1 = Suc n" using Cons.prems(2) by (simp add: u32_add_def)
  have ce: "iv_end c < 2 ^ 32" using tracker_ok_bound[OF Cons.prems(1)] by simp
  have start: "iv_start c = 0 \<longleftrightarrow> before = []" and se: "iv_start c < iv_end c"
    using Cons.prems(1) tracker_ok_rev[of before "c # cs"] by (cases before; auto simp: tracker_ok_def)+
  have down: "n = u32_sub (iv_start c) 1 \<longleftrightarrow> before \<noteq> [] \<and> iv_start c = Suc n"
    using start se ce Cons.prems(2) u32_dec(1)[of "iv_start c"] u32_dec(2) by (cases "iv_start c = 0") auto
  consider (down) "before \<noteq> []" "iv_start c = Suc n" | (up) "n = iv_end c" | (new) "before \<noteq> []" "Suc n < iv_start c"
    | (dup) "iv_start c \<le> n" "n < iv_end c" | (later) "iv_end c < n"
    using start by linarith
  then show ?case
  proof cases
    case down
    have sp: "tracker_ok (rev before)" "spaced (iv_end (hd before)) (c # cs)" using tracker_ok_rev[OF down(1)] Cons.prems(1) by auto
    have e: "track_loop alloc n before (c # cs) = Some (0, rev before @ c\<lparr>iv_start := n\<rparr> # cs)"
      using \<open>_ \<longleftrightarrow> before \<noteq> [] \<and> _\<close> down Cons.prems(3) u32_dec(1)[of "Suc n"] se ce by (cases before) auto
    show ?thesis
      using e extend_down[OF sp(2) Cons.prems(3)[OF down(1)] down(2)] sp(1) tracker_ok_rev[OF down(1)] by auto
  next
    case up
    let ?r = "case cs of nxt # cs' \<Rightarrow> if iv_start nxt = Suc n then c\<lparr>iv_end := iv_end nxt\<rparr> # cs' else c\<lparr>iv_end := Suc n\<rparr> # cs
      | [] \<Rightarrow> [c\<lparr>iv_end := Suc n\<rparr>]"
    have e: "track_loop alloc n before (c # cs) = Some (0, rev before @ ?r)"
      using down up se n by (auto split: list.splits)
    have up': "iv_end c < 2 ^ 32 - 1" using up Cons.prems(2) by simp
    show ?thesis
    proof (cases "before = []")
      case True
      have "tracker_ok ?r \<and> received_ids ?r = insert n (received_ids (c # cs))"
        using Cons.prems(1) True up up' by (cases cs) (auto simp: tracker_ok_def)
      then show ?thesis using e True by auto
    next
      case False
      then have sp: "tracker_ok (rev before)" "spaced (iv_end (hd before)) (c # cs)" using tracker_ok_rev[OF False] Cons.prems(1) by auto
      show ?thesis using e extend_up[OF sp(2) up' up] sp(1) tracker_ok_rev[OF False, of ?r] by auto
    qed
  next
    case new
    have sp: "tracker_ok (rev before)" "spaced (iv_end (hd before)) (c # cs)" using tracker_ok_rev[OF new(1)] Cons.prems(1) by auto
    have e: "track_loop alloc n before (c # cs) =
        Some (if alloc then (0, rev before @ \<lparr>iv_start = n, iv_end = Suc n\<rparr> # c # cs) else (0x405, rev before @ c # cs))"
      using down new se n by (auto simp: create_node_def)
    show ?thesis
      using e insert_before[OF sp(2) Cons.prems(3)[OF new(1)] new(2)] sp(1) Cons.prems(1) tracker_ok_rev[OF new(1)] by (cases alloc) auto
  next
    case dup
    have "track_loop alloc n before (c # cs) = Some (0, rev before @ c # cs)" using down dup by auto
    then show ?thesis using Cons.prems(1) dup by auto
  next
    case later
    have "track_loop alloc n before (c # cs) = track_loop alloc n (c # before) cs" using down later se by auto
    moreover have "\<exists>ret t'. track_loop alloc n (c # before) cs = Some (ret, t') \<and> tracker_ok t' \<and>
      (ret = 0 \<longrightarrow> received_ids t' = insert n (received_ids (rev (c # before) @ cs))) \<and>
      (ret \<noteq> 0 \<longrightarrow> \<not> alloc \<and> t' = rev (c # before) @ cs)"
      by (rule Cons.IH) (use Cons.prems later in auto)
    ultimately show ?thesis by simp
  qed
qed

lemma highest_contiguous:
  assumes "tracker_ok t"
  shows "\<exists>m. get_highest_contiguous_received_source_symbol t = Some (if m < 2 ^ 31 then int m else int m - 2 ^ 32) \<and>
      {..m} \<subseteq> received_ids t \<and> Suc m \<notin> received_ids t"
proof -
  obtain i js where t: "t = i # js" "iv_start i = 0" "0 < iv_end i" "iv_end i < 2 ^ 32" "spaced (iv_end i) js"
    using assms by (cases t) (auto simp: tracker_ok_def)
  have "{..iv_end i - 1} \<subseteq> received_ids t" using t(1-3) by auto
  moreover have "Suc (iv_end i - 1) \<notin> received_ids t" using t(1,3) spaced_lower[OF t(5), of "iv_end i"] by auto
  moreover have "u32_sub (iv_end i) 1 = iv_end i - 1" using t(3,4) u32_dec(1)[of "iv_end i"] by simp
  then have "get_highest_contiguous_received_source_symbol t =
    Some (if iv_end i - 1 < 2 ^ 31 then int (iv_end i - 1) else int (iv_end i - 1) - 2 ^ 32)"
    by (simp only: get_highest_contiguous_received_source_symbol_def t(1) list.case Let_def)
  ultimately show ?thesis by blast
qed

text \<open>
  The identifier \<open>2 ^ 32 - 1\<close> is excluded: the first interval starts at 0, its predecessor is taken
  modulo \<open>2 ^ 32\<close>, and receiving that identifier moves the start of the interval behind its end.
\<close>

lemma tracker_wraps:
  "tracker_receive_source_symbol alloc [\<lparr>iv_start = 0, iv_end = n\<rparr>] (2 ^ 32 - 1) =
     Some (0, [\<lparr>iv_start = 2 ^ 32 - 1, iv_end = n\<rparr>])"
  by (simp add: tracker_receive_source_symbol_def u32_sub_def)

section \<open>Property\<close>

text \<open>
  C36. The tracker implements a set of identifiers: a new tracker holds the identifiers below the first
  one, and from then on receiving a symbol never faults, adds exactly its identifier, keeps the
  intervals sorted and apart, and when an allocation fails either needs none or reports the error
  and changes nothing. The highest contiguous symbol is the end of the initial run of the set,
  as a signed 32-bit number.
\<close>

theorem tracker_refines_set:
  assumes "tracker_ok t" "received < 2 ^ 32 - 1"
  shows "tracker_ok [\<lparr>iv_start = 0, iv_end = WINDOW_INITIAL_SYMBOL_ID\<rparr>] \<and>
    create_received_symbols_tracker True True WINDOW_INITIAL_SYMBOL_ID = Some [\<lparr>iv_start = 0, iv_end = WINDOW_INITIAL_SYMBOL_ID\<rparr>] \<and>
    (\<exists>ret t'. tracker_receive_source_symbol alloc t received = Some (ret, t') \<and> tracker_ok t' \<and>
      (ret = 0 \<longrightarrow> received_ids t' = insert received (received_ids t)) \<and> (ret \<noteq> 0 \<longrightarrow> \<not> alloc \<and> t' = t)) \<and>
    (\<exists>m. get_highest_contiguous_received_source_symbol t = Some (if m < 2 ^ 31 then int m else int m - 2 ^ 32) \<and>
      {..m} \<subseteq> received_ids t \<and> Suc m \<notin> received_ids t)"
proof -
  have "t \<noteq> []" using assms(1) by (auto simp: tracker_ok_def)
  then show ?thesis
    using track_loop_correct[of "[]" t received alloc] assms highest_contiguous[OF assms(1)]
    by (simp add: tracker_receive_source_symbol_def create_received_symbols_tracker_def create_node_def tracker_ok_def[of "[_]"] WINDOW_INITIAL_SYMBOL_ID_def)
qed

theorem tracker_refines_set_witness:
  "\<exists>t'. tracker_receive_source_symbol True [\<lparr>iv_start = 0, iv_end = 3\<rparr>, \<lparr>iv_start = 4, iv_end = 6\<rparr>] 3 = Some (0, t') \<and>
    received_ids t' = {0..5}"
proof -
  let ?t = "[\<lparr>iv_start = 0, iv_end = 3\<rparr>, \<lparr>iv_start = 4, iv_end = 6\<rparr>] :: received_symbols_tracker"
  have t: "tracker_ok ?t" "(3 :: nat) < 2 ^ 32 - 1" by (simp_all add: tracker_ok_def)
  have i: "insert 3 (received_ids ?t) = {0..5}" by auto
  show ?thesis using tracker_refines_set[OF t, of True] unfolding i by blast
qed

end
