(* ===== verification/RingBuffer.thy ===== *)
theory RingBuffer
  imports FecSymbols SymbolTracker
begin

text \<open>
  The ring buffer of received source symbols (\<^verbatim>\<open>window_framework/window_receive_buffers.h\<close>): a window of
  consecutive identifiers over a circular array, with a null entry for every missing symbol. The
  lemmas show that the buffer is a map from the identifiers of its window to symbols, that adding a
  symbol slides the window, and what goes wrong when the new identifier is a full buffer ahead.

  All fields are unsigned 32-bit values held as naturals.
\<close>

section \<open>Buffer and operations\<close>

record ring_buffer =
  rb_max_size :: nat
  rb_current_size :: nat
  rb_first_index :: nat
  rb_first_id :: nat
  rb_array :: "window_source_symbol option list"

text \<open>A new buffer; \<open>junk\<close> is what the allocated array holds.\<close>

definition new_ring_based_source_symbols_buffer ::
  "bool \<Rightarrow> bool \<Rightarrow> window_source_symbol option \<Rightarrow> nat \<Rightarrow> ring_buffer option" where
  "new_ring_based_source_symbols_buffer alloc alloc_array junk max_size =
     (if max_size = 0 \<or> \<not> alloc \<or> \<not> alloc_array then None
      else Some \<lparr>rb_max_size = max_size, rb_current_size = 0, rb_first_index = 0, rb_first_id = 0,
        rb_array = replicate max_size junk\<rparr>)"

definition ring_remove_and_free_first :: "ring_buffer \<Rightarrow> ring_buffer option" where
  "ring_remove_and_free_first b = do {
     b \<leftarrow> (if rb_current_size b > 0 then do {
         _ \<leftarrow> rd (rb_array b) (rb_first_index b);
         Some (b\<lparr>rb_array := (rb_array b)[rb_first_index b := None], rb_first_id := u32_add (rb_first_id b) 1,
           rb_first_index := u32_add (rb_first_index b) 1 mod rb_max_size b, rb_current_size := rb_current_size b - 1\<rparr>)
       } else Some b);
     Some (if rb_current_size b = 0 then b\<lparr>rb_first_id := 0, rb_first_index := 0\<rparr> else b)
   }"

definition ring_get_first_source_symbol_id :: "ring_buffer \<Rightarrow> nat" where
  "ring_get_first_source_symbol_id b = rb_first_id b"

definition ring_get_last_source_symbol_id :: "ring_buffer \<Rightarrow> nat" where
  "ring_get_last_source_symbol_id b = u32_add (rb_first_id b) (u32_sub (rb_current_size b) 1)"

text \<open>The index \<open>(id - first_id + first_index) % max_size\<close>.\<close>

definition ring_index :: "ring_buffer \<Rightarrow> nat \<Rightarrow> nat" where
  "ring_index b i = u32_add (u32_sub i (rb_first_id b)) (rb_first_index b) mod rb_max_size b"

definition ring_get :: "ring_buffer \<Rightarrow> nat \<Rightarrow> window_source_symbol option option" where
  "ring_get b i =
     (if i < rb_first_id b \<or> i > ring_get_last_source_symbol_id b then Some None else rd (rb_array b) (ring_index b i))"

definition ring_remove_and_free :: "ring_buffer \<Rightarrow> nat \<Rightarrow> ring_buffer option" where
  "ring_remove_and_free b index = do {
     _ \<leftarrow> rd (rb_array b) index;
     Some (b\<lparr>rb_array := (rb_array b)[index := None]\<rparr>)
   }"

fun remove_range :: "ring_buffer \<Rightarrow> nat \<Rightarrow> nat \<Rightarrow> ring_buffer option" where
  "remove_range b i 0 = Some b"
| "remove_range b i (Suc n) = do { b \<leftarrow> ring_remove_and_free b i; remove_range b (Suc i) n }"

text \<open>
  The loop that makes room for \<open>added\<close> symbols. Removing from an empty buffer changes nothing, so
  that the loop would not end; this is \<open>None\<close>, too.
\<close>

function make_room :: "ring_buffer \<Rightarrow> nat \<Rightarrow> ring_buffer option" where
  "make_room b added =
     (if u32_add (rb_current_size b) added > rb_max_size b then
        (if rb_current_size b = 0 then None
         else do { b \<leftarrow> ring_remove_and_free_first b; make_room b added })
      else Some b)"
  by pat_completeness auto
termination
proof (relation "measure (\<lambda>(b, _). rb_current_size b)", simp)
  fix b b' :: ring_buffer and added :: nat
  assume "rb_current_size b \<noteq> 0" "ring_remove_and_free_first b = Some b'"
  then show "((b', added), b, added) \<in> measure (\<lambda>(b, _). rb_current_size b)"
    by (auto simp: ring_remove_and_free_first_def split: Option.bind_splits if_splits)
qed

text \<open>The loop that clears the entries of the identifiers from \<open>i\<close> to before \<open>to\<close>.\<close>

function clear_ids :: "ring_buffer \<Rightarrow> nat \<Rightarrow> nat \<Rightarrow> ring_buffer option" where
  "clear_ids b i to =
     (if i < to then do { b \<leftarrow> ring_remove_and_free b (ring_index b i); clear_ids b (Suc i) to } else Some b)"
  by pat_completeness auto
termination by (relation "measure (\<lambda>(_, i, to). to - i)") auto

declare make_room.simps [simp del] clear_ids.simps [simp del]

definition ring_store :: "ring_buffer \<Rightarrow> nat \<Rightarrow> window_source_symbol \<Rightarrow> ring_buffer option" where
  "ring_store b index ss = do {
     _ \<leftarrow> rd (rb_array b) index;
     Some (b\<lparr>rb_array := (rb_array b)[index := Some ss]\<rparr>)
   }"

definition ring_add_source_symbol :: "ring_buffer \<Rightarrow> window_source_symbol \<Rightarrow> ring_buffer option" where
  "ring_add_source_symbol b ss =
     (if rb_current_size b > 0 \<and> ss_id ss > ring_get_last_source_symbol_id b then
        let added = u32_sub (ss_id ss) (ring_get_last_source_symbol_id b) in
        if added > rb_max_size b then do {
          b \<leftarrow> remove_range b 0 (rb_max_size b);
          Some (b\<lparr>rb_first_index := 0, rb_first_id := u32_sub (ss_id ss) (rb_max_size b - 1)\<rparr>)
        }
        else do {
          b \<leftarrow> make_room b added;
          b \<leftarrow> clear_ids b (u32_add 1 (ring_get_last_source_symbol_id b)) (ss_id ss);
          b \<leftarrow> ring_store b (ring_index b (ss_id ss)) ss;
          Some (b\<lparr>rb_current_size := u32_add (rb_current_size b) (u32_sub (ss_id ss) (ring_get_last_source_symbol_id b))\<rparr>)
        }
      else if rb_current_size b = 0 then do {
        let first = (if ss_id ss \<ge> rb_max_size b then max WINDOW_INITIAL_SYMBOL_ID (u32_sub (ss_id ss) (rb_max_size b - 1))
          else WINDOW_INITIAL_SYMBOL_ID);
        let n = min (rb_max_size b) (u32_sub (u32_add (ss_id ss) 1) first);
        ring_store (b\<lparr>rb_array := replicate (rb_max_size b) None, rb_first_index := 0, rb_first_id := first, rb_current_size := n\<rparr>)
          (u32_sub n 1) ss
      }
      else if ss_id ss < rb_first_id b then Some b
      else ring_store b (ring_index b (ss_id ss)) ss)"

definition ring_contains :: "ring_buffer \<Rightarrow> nat \<Rightarrow> bool option" where
  "ring_contains b i =
     (if i < rb_first_id b \<or> i > ring_get_last_source_symbol_id b then Some False
      else map_option (\<lambda>s. case s of None \<Rightarrow> False | Some ss \<Rightarrow> ss_id ss = i) (rd (rb_array b) (ring_index b i)))"

section \<open>The window as a list\<close>

lemma mod_shift_inj: "j < n \<Longrightarrow> k < n \<Longrightarrow> (m + k) mod n = (m + j) mod n \<longleftrightarrow> k = j" for n :: nat
proof -
  have le: "k = j" if "j \<le> k" "k < n" "(m + k) mod n = (m + j) mod n" for j k
  proof -
    have "n dvd k - j" using mod_eq_dvd_iff_nat[of "m + j" "m + k" n] that by simp
    then show ?thesis using that(1,2) by (cases "k = j") (auto dest: dvd_imp_le)
  qed
  assume "j < n" "k < n"
  then show ?thesis using le[of j k] le[of k j] by (cases "j \<le> k") auto
qed

lemma rotate_update:
  assumes "j < length xs"
  shows "rotate m (xs[(m + j) mod length xs := x]) = (rotate m xs)[j := x]"
proof (rule nth_equalityI)
  fix k assume "k < length (rotate m (xs[(m + j) mod length xs := x]))"
  then have k: "k < length xs" by simp
  moreover have "(m + j) mod length xs < length xs" using order.strict_trans1[OF le0 assms] by (rule mod_less_divisor)
  ultimately show "rotate m (xs[(m + j) mod length xs := x]) ! k = (rotate m xs)[j := x] ! k"
    using mod_shift_inj[OF assms k, of m] assms by (auto simp: nth_rotate nth_list_update)
qed simp

definition ring_window :: "ring_buffer \<Rightarrow> window_source_symbol option list" where
  "ring_window b = rotate (rb_first_index b) (rb_array b)"

text \<open>
  The fields fit together, and the window holds the symbols of the last identifiers: entry \<open>j\<close> is
  empty or holds the symbol with identifier \<open>first_id + j\<close>.
\<close>

definition ring_shape :: "ring_buffer \<Rightarrow> bool" where
  "ring_shape b \<longleftrightarrow> 0 < rb_max_size b \<and> rb_max_size b < 2 ^ 31 \<and> length (rb_array b) = rb_max_size b \<and>
     rb_first_index b < rb_max_size b \<and> rb_current_size b \<le> rb_max_size b \<and> rb_first_id b + rb_current_size b < 2 ^ 32 \<and>
     (\<forall>j s. j < rb_max_size b \<longrightarrow> ring_window b ! j = Some s \<longrightarrow> j < rb_current_size b \<and> ss_id s = rb_first_id b + j)"

lemma ring_shapeD:
  assumes "ring_shape b"
  shows "0 < rb_max_size b" "rb_max_size b < 2 ^ 31" "length (rb_array b) = rb_max_size b" "length (ring_window b) = rb_max_size b"
    "rb_first_index b < rb_max_size b" "rb_current_size b \<le> rb_max_size b" "rb_first_id b + rb_current_size b < 2 ^ 32"
    "\<And>j. j < rb_max_size b \<Longrightarrow> rb_current_size b \<le> j \<Longrightarrow> ring_window b ! j = None"
proof -
  show "ring_window b ! j = None" if "j < rb_max_size b" "rb_current_size b \<le> j" for j
    using assms that unfolding ring_shape_def by (cases "ring_window b ! j") auto
qed (use assms in \<open>auto simp: ring_shape_def ring_window_def\<close>)

lemma ring_shape_id:
  "ring_shape b \<Longrightarrow> j < rb_max_size b \<Longrightarrow> ring_window b ! j = Some s \<Longrightarrow> j < rb_current_size b \<and> ss_id s = rb_first_id b + j"
  unfolding ring_shape_def by blast

lemma ring_index_eq:
  assumes "ring_shape b" "j < rb_max_size b" "rb_first_id b + j < 2 ^ 32"
  shows "ring_index b (rb_first_id b + j) = (rb_first_index b + j) mod rb_max_size b"
proof -
  have "u32_sub (rb_first_id b + j) (rb_first_id b) = j"
    using assms(3) by (simp add: u32_sub_def)
  moreover have "u32_add j (rb_first_index b) = rb_first_index b + j"
    using ring_shapeD(2,5)[OF assms(1)] assms(2) by (simp add: u32_add_def)
  ultimately show ?thesis by (simp add: ring_index_def)
qed

lemma ring_read:
  assumes "ring_shape b" "j < rb_max_size b" "rb_first_id b + j < 2 ^ 32"
  shows "rd (rb_array b) (ring_index b (rb_first_id b + j)) = Some (ring_window b ! j)"
  using ring_index_eq[OF assms] ring_shapeD(1,3)[OF assms(1)] assms(2)
  by (simp add: rd_def ring_window_def nth_rotate)

lemma ring_write:
  assumes "ring_shape b" "j < rb_max_size b" "rb_first_id b + j < 2 ^ 32"
  shows "ring_window (b\<lparr>rb_array := (rb_array b)[ring_index b (rb_first_id b + j) := x]\<rparr>) = (ring_window b)[j := x]"
  using ring_index_eq[OF assms] ring_shapeD(3)[OF assms(1)] rotate_update[of j "rb_array b" "rb_first_index b" x] assms(2)
  by (simp add: ring_window_def)

lemma ring_last_eq: "ring_shape b \<Longrightarrow> 0 < rb_current_size b \<Longrightarrow> ring_get_last_source_symbol_id b = rb_first_id b + rb_current_size b - 1"
  using ring_shapeD(6,7)[of b] u32_dec(1)[of "rb_current_size b"] by (simp add: ring_get_last_source_symbol_id_def u32_add_def)

section \<open>The steps of adding a symbol\<close>

lemma remove_first_eq:
  assumes "ring_shape b" "1 < rb_current_size b"
  obtains b' where "ring_remove_and_free_first b = Some b'" "ring_shape b'" "rb_first_id b' = rb_first_id b + 1"
    "rb_current_size b' = rb_current_size b - 1" "rb_max_size b' = rb_max_size b" "ring_window b' = tl (ring_window b) @ [None]"
proof -
  note D = ring_shapeD[OF assms(1)]
  let ?m = "rb_max_size b" let ?i = "rb_first_index b"
  have i: "u32_add ?i 1 = ?i + 1" "u32_add (rb_first_id b) 1 = rb_first_id b + 1" using D(2,5,7) assms(2) by (simp_all add: u32_add_def)
  let ?b = "b\<lparr>rb_array := (rb_array b)[?i := None], rb_first_id := rb_first_id b + 1, rb_first_index := (?i + 1) mod ?m,
    rb_current_size := rb_current_size b - 1\<rparr>"
  have r: "ring_remove_and_free_first b = Some ?b" using assms(2) D(3,5) i by (simp add: ring_remove_and_free_first_def)
  have "rotate ?i ((rb_array b)[?i := None]) = (ring_window b)[0 := None]"
    using rotate_update[of 0 "rb_array b" ?i None] D(1,3,5) by (simp add: ring_window_def)
  then have "rotate (Suc ?i) ((rb_array b)[?i := None]) = rotate1 ((ring_window b)[0 := None])" by simp
  also have "rotate1 ((ring_window b)[0 := None]) = tl (ring_window b) @ [None]" using D(1,4) by (cases "ring_window b") auto
  finally have w: "ring_window ?b = tl (ring_window b) @ [None]"
    using rotate_conv_mod[of "Suc ?i" "(rb_array b)[?i := None]"] D(3) by (simp add: ring_window_def)
  have "j < rb_current_size b - 1 \<and> ss_id s = rb_first_id b + 1 + j" if j: "j < ?m" "ring_window ?b ! j = Some s" for j s
  proof -
    have "j < ?m - 1" using w D(4) j by (auto simp: nth_append split: if_splits)
    then have "ring_window b ! Suc j = Some s" using w D(4) j(2) by (simp add: nth_append nth_tl)
    then show ?thesis using \<open>j < ?m - 1\<close> assms(1) unfolding ring_shape_def by (auto dest!: spec[of _ "Suc j"])
  qed
  then have "ring_shape ?b" unfolding ring_shape_def using D assms(2) by auto
  then show thesis using that[OF r] w by simp
qed

lemma make_room_eq:
  assumes "ring_shape b" "0 < rb_current_size b" "added < rb_max_size b"
  obtains b' k where "make_room b added = Some b'" "ring_shape b'" "rb_first_id b' = rb_first_id b + k" "rb_max_size b' = rb_max_size b"
    "rb_current_size b' = rb_current_size b - k" "k = rb_current_size b + added - rb_max_size b"
    "ring_window b' = drop k (ring_window b) @ replicate k None"
proof -
  have "\<exists>b'. make_room b added = Some b' \<and> ring_shape b' \<and> rb_first_id b' = rb_first_id b + k \<and> rb_max_size b' = rb_max_size b \<and>
    rb_current_size b' = rb_current_size b - k \<and> ring_window b' = drop k (ring_window b) @ replicate k None"
    if "ring_shape b" "0 < rb_current_size b" "added < rb_max_size b" "k = rb_current_size b + added - rb_max_size b" for k b
    using that
  proof (induction k arbitrary: b)
    case 0
    have "u32_add (rb_current_size b) added = rb_current_size b + added"
      using ring_shapeD(2,6)[OF 0(1)] 0(3) by (simp add: u32_add_def)
    then show ?case using 0 by (subst make_room.simps) simp
  next
    case (Suc k)
    have u: "u32_add (rb_current_size b) added = rb_current_size b + added"
      using ring_shapeD(2,6)[OF Suc.prems(1)] Suc.prems(3) by (simp add: u32_add_def)
    have "1 < rb_current_size b" using Suc.prems(3,4) by simp
    then obtain b1 where b1: "ring_remove_and_free_first b = Some b1" "ring_shape b1" "rb_first_id b1 = rb_first_id b + 1"
      "rb_current_size b1 = rb_current_size b - 1" "rb_max_size b1 = rb_max_size b" "ring_window b1 = tl (ring_window b) @ [None]"
      by (rule remove_first_eq[OF Suc.prems(1)])
    have h: "0 < rb_current_size b1" "added < rb_max_size b1" "k = rb_current_size b1 + added - rb_max_size b1"
      using b1(4,5) Suc.prems(3,4) by simp_all
    have room: "rb_max_size b < rb_current_size b + added" using Suc.prems(4) by simp
    obtain b' where b': "make_room b1 added = Some b'" "ring_shape b'" "rb_first_id b' = rb_first_id b1 + k" "rb_max_size b' = rb_max_size b1"
      "rb_current_size b' = rb_current_size b1 - k" "ring_window b' = drop k (ring_window b1) @ replicate k None"
      using Suc.IH[OF b1(2) h(1,2,3)] by blast
    have kl: "k \<le> length (tl (ring_window b))" using Suc.prems ring_shapeD(4,6)[OF Suc.prems(1)] by simp
    have "drop k (tl (ring_window b) @ [None]) @ replicate k None = drop (Suc k) (ring_window b) @ replicate (Suc k) None"
      using kl by (simp add: drop_Suc tl_drop)
    moreover have "make_room b added = make_room b1 added" using room Suc.prems(2) u b1(1) by (subst make_room.simps) simp
    ultimately show ?case using b' b1 by simp
  qed
  then show thesis using assms that by blast
qed

lemma clear_ids_eq:
  assumes "ring_shape b" "rb_current_size b \<le> j" "to \<le> rb_first_id b + rb_max_size b" "to < 2 ^ 32"
  shows "clear_ids b (rb_first_id b + j) to = Some b"
  using assms(2)
proof (induction "to - (rb_first_id b + j)" arbitrary: j)
  case 0
  then show ?case by (subst clear_ids.simps) simp
next
  case (Suc n)
  then have j: "j < rb_max_size b" "rb_first_id b + j < 2 ^ 32" using assms(3,4) by simp_all
  have r: "rd (rb_array b) (ring_index b (rb_first_id b + j)) = Some None"
    using ring_read[OF assms(1) j] ring_shapeD(8)[OF assms(1) j(1) Suc.prems] by simp
  then have "rb_array b ! ring_index b (rb_first_id b + j) = None" by (simp add: rd_def split: if_splits)
  then have "(rb_array b)[ring_index b (rb_first_id b + j) := None] = rb_array b" by (metis list_update_id)
  then have "ring_remove_and_free b (ring_index b (rb_first_id b + j)) = Some b"
    using r by (simp add: ring_remove_and_free_def)
  then show ?case using Suc.hyps(1)[of "Suc j"] Suc.hyps(2) Suc.prems by (subst clear_ids.simps) simp
qed

section \<open>The buffer as a map\<close>

text \<open>
  The window reaches from the last identifier down over \<open>max_size\<close> identifiers, but not below the
  first identifier of all.
\<close>

definition ring_ok :: "ring_buffer \<Rightarrow> bool" where
  "ring_ok b \<longleftrightarrow> 0 < rb_max_size b \<and> rb_max_size b < 2 ^ 31 \<and> length (rb_array b) = rb_max_size b \<and>
     (0 < rb_current_size b \<longrightarrow> ring_shape b \<and> rb_first_id b = max 1 (rb_first_id b + rb_current_size b - rb_max_size b))"

definition ring_last :: "ring_buffer \<Rightarrow> nat" where
  "ring_last b = (if rb_current_size b = 0 then 0 else rb_first_id b + rb_current_size b - 1)"

definition ring_map :: "ring_buffer \<Rightarrow> nat \<Rightarrow> window_source_symbol option" where
  "ring_map b i = (if rb_first_id b \<le> i \<and> i < rb_first_id b + rb_current_size b then ring_window b ! (i - rb_first_id b) else None)"

lemma ring_lookup:
  assumes "ring_ok b" "0 < rb_current_size b" "i < 2 ^ 32"
  shows "ring_get b i = Some (ring_map b i)" "ring_contains b i = Some (ring_map b i \<noteq> None)"
proof -
  have sh: "ring_shape b" using assms(1,2) by (simp add: ring_ok_def)
  note last = ring_last_eq[OF sh assms(2)]
  have "rd (rb_array b) (ring_index b i) = Some (ring_map b i)" if "rb_first_id b \<le> i" "i \<le> rb_first_id b + rb_current_size b - 1"
  proof -
    have "i - rb_first_id b < rb_max_size b" "i < rb_first_id b + rb_current_size b" using ring_shapeD(6)[OF sh] that assms(2) by linarith+
    then show ?thesis using ring_read[OF sh, of "i - rb_first_id b"] that(1) assms(3) by (simp add: ring_map_def)
  qed
  moreover have "ss_id s = i" if "ring_map b i = Some s" for s
  proof -
    have "rb_first_id b \<le> i" "i < rb_first_id b + rb_current_size b" "ring_window b ! (i - rb_first_id b) = Some s"
      using that by (auto simp: ring_map_def split: if_splits)
    then show ?thesis using ring_shape_id[OF sh, of "i - rb_first_id b" s] ring_shapeD(6)[OF sh] by simp
  qed
  ultimately show "ring_get b i = Some (ring_map b i)" "ring_contains b i = Some (ring_map b i \<noteq> None)"
    using last assms(2) by (auto simp: ring_get_def ring_contains_def ring_map_def split: option.splits)
qed

lemma ring_store_eq:
  assumes "ring_shape b" "j < rb_max_size b" "rb_first_id b + j < 2 ^ 32 - 1" "ss_id ss = rb_first_id b + j" "c = max (rb_current_size b) (Suc j)"
  obtains b' where "ring_store b (ring_index b (rb_first_id b + j)) ss = Some b'" "ring_shape (b'\<lparr>rb_current_size := c\<rparr>)"
    "rb_max_size b' = rb_max_size b" "rb_first_id b' = rb_first_id b" "rb_current_size b' = rb_current_size b"
    "ring_window (b'\<lparr>rb_current_size := c\<rparr>) = (ring_window b)[j := Some ss]"
proof -
  have lt: "rb_first_id b + j < 2 ^ 32" using assms(3) by simp
  let ?b = "b\<lparr>rb_array := (rb_array b)[ring_index b (rb_first_id b + j) := Some ss]\<rparr>"
  have r: "ring_store b (ring_index b (rb_first_id b + j)) ss = Some ?b" using ring_read[OF assms(1,2) lt] by (simp add: ring_store_def)
  have w: "ring_window (?b\<lparr>rb_current_size := c\<rparr>) = (ring_window b)[j := Some ss]"
    using ring_write[OF assms(1,2) lt, of "Some ss"] by (simp add: ring_window_def)
  have "k < c \<and> ss_id s = rb_first_id b + k" if "k < rb_max_size b" "(ring_window b)[j := Some ss] ! k = Some s" for k s
    using that assms(2,4,5) ring_shapeD(4)[OF assms(1)] ring_shape_id[OF assms(1) that(1), of s] by (cases "k = j") auto
  then have "ring_shape (?b\<lparr>rb_current_size := c\<rparr>)"
    unfolding ring_shape_def w using ring_shapeD[OF assms(1)] assms(2,3,5) by auto
  then show thesis using that[OF r] w by simp
qed

text \<open>The three cases of adding a symbol.\<close>

lemma ring_add_empty:
  assumes "ring_ok b" "rb_current_size b = 0" "1 \<le> ss_id ss" "ss_id ss < 2 ^ 32 - 1"
  obtains b' where "ring_add_source_symbol b ss = Some b'" "ring_ok b'" "rb_max_size b' = rb_max_size b" "ring_last b' = ss_id ss"
    "ring_map b' = [ss_id ss \<mapsto> ss]"
proof -
  let ?m = "rb_max_size b"
  have m: "0 < ?m" "?m < 2 ^ 31" "length (rb_array b) = ?m" using assms(1) by (simp_all add: ring_ok_def)
  obtain f n where fn: "f = max 1 (ss_id ss + 1 - ?m)" "n = ss_id ss + 1 - f" by blast
  have n: "f + n = ss_id ss + 1" "0 < n" "n \<le> ?m" "1 \<le> f" "max 1 (f + n - ?m) = f" using fn m(1) assms(3) by auto
  have f: "(if ss_id ss \<ge> ?m then max WINDOW_INITIAL_SYMBOL_ID (u32_sub (ss_id ss) (?m - 1)) else WINDOW_INITIAL_SYMBOL_ID) = f"
    unfolding fn using m assms(4) by (auto simp: WINDOW_INITIAL_SYMBOL_ID_def wrap_simps)
  have "u32_add (ss_id ss) 1 = f + n" using n(1) assms(4) by (simp add: u32_add_def)
  then have c: "min ?m (u32_sub (u32_add (ss_id ss) 1) f) = n" "u32_sub n 1 = n - 1"
    using n assms(4) m(2) u32_dec(1)[of n] by (auto simp: wrap_simps)
  let ?b = "b\<lparr>rb_array := (replicate ?m None)[n - 1 := Some ss], rb_first_index := 0, rb_first_id := f, rb_current_size := n\<rparr>"
  have r: "ring_add_source_symbol b ss = Some ?b"
    using assms(2) f c n(2,3) by (simp add: ring_add_source_symbol_def ring_store_def Let_def)
  have w: "ring_window ?b = (replicate ?m None)[n - 1 := Some ss]" by (simp add: ring_window_def)
  have sh: "ring_shape ?b"
    unfolding ring_shape_def w using m n assms(4) by (auto simp: nth_list_update split: if_splits)
  have "ring_map ?b = [ss_id ss \<mapsto> ss]"
  proof (rule ext)
    fix i
    show "ring_map ?b i = [ss_id ss \<mapsto> ss] i"
    proof (cases "i = ss_id ss")
      case True
      then have "f \<le> i" "i < f + n" "i - f = n - 1" using n(1,2) by linarith+
      then show ?thesis using True n(2,3) by (simp add: ring_map_def ring_window_def)
    next
      case False
      then have "f \<le> i \<Longrightarrow> i < f + n \<Longrightarrow> i - f \<noteq> n - 1 \<and> i - f < ?m" using n(1-3) by linarith
      then show ?thesis using False by (auto simp: ring_map_def ring_window_def nth_list_update)
    qed
  qed
  moreover have "ring_ok ?b" using sh m n(5) by (simp add: ring_ok_def)
  moreover have "ring_last ?b = ss_id ss" using n(1,2) by (simp add: ring_last_def)
  ultimately show thesis using that[OF r] by simp
qed

definition slide :: "nat \<Rightarrow> nat \<Rightarrow> (nat \<Rightarrow> 'a option) \<Rightarrow> nat \<Rightarrow> 'a option" where
  "slide n hi m i = (if hi < i + n then m i else None)"

lemma ring_ok_first:
  assumes "ring_ok b" "0 < rb_current_size b"
  shows "1 \<le> rb_first_id b" "rb_first_id b = 1 \<or> rb_current_size b = rb_max_size b"
    "rb_first_id b + rb_current_size b \<le> rb_first_id b + rb_max_size b"
proof -
  have f: "rb_first_id b = max 1 (rb_first_id b + rb_current_size b - rb_max_size b)" "rb_current_size b \<le> rb_max_size b"
    using assms ring_shapeD(6)[of b] by (auto simp: ring_ok_def)
  show "1 \<le> rb_first_id b" using f(1) by linarith
  show "rb_first_id b = 1 \<or> rb_current_size b = rb_max_size b" using f by linarith
  show "rb_first_id b + rb_current_size b \<le> rb_first_id b + rb_max_size b" using f(2) by simp
qed

lemma ring_add_above_window:
  assumes "ring_ok b" "0 < rb_current_size b" "ring_last b < ss_id ss" "ss_id ss < ring_last b + rb_max_size b" "ss_id ss < 2 ^ 32 - 1"
  obtains b' k added where "ring_add_source_symbol b ss = Some b'" "ring_shape b'" "rb_max_size b' = rb_max_size b"
    "rb_first_id b' = rb_first_id b + k" "rb_current_size b' = rb_current_size b - k + added"
    "ss_id ss = rb_first_id b + rb_current_size b - 1 + added" "0 < added" "k = rb_current_size b + added - rb_max_size b" "k < rb_current_size b"
    "ring_window b' = (drop k (ring_window b) @ replicate k None)[rb_current_size b - k + added - 1 := Some ss]"
proof -
  let ?m = "rb_max_size b" let ?f = "rb_first_id b" let ?c = "rb_current_size b" let ?id = "ss_id ss"
  have sh: "ring_shape b" using assms(1,2) by (simp add: ring_ok_def)
  note D = ring_shapeD[OF sh]
  have last: "ring_get_last_source_symbol_id b = ?f + ?c - 1" "ring_last b = ?f + ?c - 1"
    using ring_last_eq[OF sh assms(2)] assms(2) by (simp_all add: ring_last_def)
  obtain added where ad: "?id = ?f + ?c - 1 + added" "0 < added" "added < ?m"
    using assms(3,4) unfolding last(2) by (metis less_imp_add_positive nat_add_left_cancel_less)
  have sub: "u32_sub ?id (?f + ?c - 1) = added" using ad assms(5) by (simp add: wrap_simps)
  obtain b1 k where b1: "make_room b added = Some b1" "ring_shape b1" "rb_first_id b1 = ?f + k" "rb_max_size b1 = ?m"
    "rb_current_size b1 = ?c - k" "k = ?c + added - ?m" "ring_window b1 = drop k (ring_window b) @ replicate k None"
    by (rule make_room_eq[OF sh assms(2) ad(3)])
  have k: "k < ?c" "?c - k + added \<le> ?m" using b1(6) ad(3) D(6) assms(2) by linarith+
  have last1: "ring_get_last_source_symbol_id b1 = ?f + ?c - 1"
    using ring_last_eq[OF b1(2)] b1(3,5) k(1) by simp
  have nx: "u32_add 1 (?f + ?c - 1) = rb_first_id b1 + rb_current_size b1" using b1(3,5) k(1) assms(2,5) ad(1) by (simp add: u32_add_def)
  have cl: "clear_ids b1 (u32_add 1 (ring_get_last_source_symbol_id b1)) ?id = Some b1"
    unfolding last1 nx by (rule clear_ids_eq[OF b1(2)]) (use b1(3-5) k ad assms(5) in simp_all)
  let ?j = "?c - k + added - 1"
  have idj: "?id = rb_first_id b1 + ?j" using b1(3) ad k(1) by simp
  have j: "?j < rb_max_size b1" "rb_first_id b1 + ?j < 2 ^ 32 - 1" using k b1(4) ad(2) idj assms(5) by linarith+
  have c: "?c - k + added = max (rb_current_size b1) (Suc ?j)" using b1(5) ad(2) by simp
  obtain b2 where b2: "ring_store b1 (ring_index b1 (rb_first_id b1 + ?j)) ss = Some b2" "ring_shape (b2\<lparr>rb_current_size := ?c - k + added\<rparr>)"
    "rb_max_size b2 = ?m" "rb_first_id b2 = ?f + k" "rb_current_size b2 = ?c - k"
    "ring_window (b2\<lparr>rb_current_size := ?c - k + added\<rparr>) = (ring_window b1)[?j := Some ss]"
    using ring_store_eq[OF b1(2) j idj c] b1(3-5) by metis
  have l2: "ring_get_last_source_symbol_id b2 = ?f + ?c - 1"
    using last1 b2(4,5) b1(3,5) by (simp add: ring_get_last_source_symbol_id_def)
  have cu: "u32_add (?c - k) added = ?c - k + added" using k(2) D(2) by (simp add: u32_add_def)
  have lt: "?f + ?c - 1 < ?id" using ad(1,2) by simp
  have st: "ring_store b1 (ring_index b1 ?id) ss = Some b2" using b2(1) idj by simp
  have r: "ring_add_source_symbol b ss = Some (b2\<lparr>rb_current_size := ?c - k + added\<rparr>)"
    using assms(2) last(1) lt sub ad(3) b1(1) cl st b2(5) l2 cu
    unfolding ring_add_source_symbol_def by (simp add: Let_def)
  show thesis by (rule that[OF r b2(2) _ _ _ ad(1,2) b1(6) k(1)]) (use b2(3-6) b1(7) in simp_all)
qed

lemma ring_add_above:
  assumes "ring_ok b" "0 < rb_current_size b" "ring_last b < ss_id ss" "ss_id ss < ring_last b + rb_max_size b" "ss_id ss < 2 ^ 32 - 1"
  obtains b' where "ring_add_source_symbol b ss = Some b'" "ring_ok b'" "rb_max_size b' = rb_max_size b" "ring_last b' = ss_id ss"
    "ring_map b' = slide (rb_max_size b) (ss_id ss) ((ring_map b)(ss_id ss \<mapsto> ss))"
proof -
  let ?m = "rb_max_size b" let ?f = "rb_first_id b" let ?c = "rb_current_size b" let ?id = "ss_id ss" let ?w = "ring_window b"
  note D = ring_shapeD[of b]
  have sh: "ring_shape b" using assms(1,2) by (simp add: ring_ok_def)
  note f = ring_ok_first[OF assms(1,2)]
  obtain b' k added where b': "ring_add_source_symbol b ss = Some b'" "ring_shape b'" "rb_max_size b' = ?m"
    "rb_first_id b' = ?f + k" "rb_current_size b' = ?c - k + added" "?id = ?f + ?c - 1 + added" "0 < added" "k = ?c + added - ?m" "k < ?c"
    "ring_window b' = (drop k ?w @ replicate k None)[?c - k + added - 1 := Some ss]"
    by (rule ring_add_above_window[OF assms])
  have n: "?f + k + (?c - k + added) = ?id + 1" "?c - k + added - 1 = ?id - (?f + k)" "?c - k + added \<le> ?m"
    using b'(6-9) D(6)[OF sh] ring_shapeD(6)[OF b'(2)] b'(3,5) by linarith+
  have bnd: "?id < ?f + k + ?m" "0 < k \<Longrightarrow> ?f + k + ?m = ?id + 1" using n(1,3) b'(6-8) assms(2) by linarith+
  have "max 1 (?f + k + (?c - k + added) - ?m) = ?f + k" using f(1,2) bnd n(1) b'(8) b'(9) by (cases "k = 0") (simp_all, linarith?)
  then have ok: "ring_ok b'" using b'(2-5) ring_shapeD(1-3)[OF b'(2)] by (simp add: ring_ok_def)
  have w: "ring_map b' i = (if i = ?id then Some ss else if i < ?f + ?c then ?w ! (i - ?f) else None)" if "?f + k \<le> i" "i \<le> ?id" for i
  proof (cases "i < ?f + ?c \<and> i \<noteq> ?id")
    case True
    have "k + (i - (?f + k)) = i - ?f" "i - (?f + k) < ?m - k" "i - (?f + k) \<noteq> ?id - (?f + k)" using that True D(6)[OF sh] by linarith+
    then show ?thesis using that True n b'(4,5,10) D(4)[OF sh] by (simp add: ring_map_def nth_append)
  next
    case False
    have "ring_window b' ! (i - (?f + k)) = (if i = ?id then Some ss else None)"
    proof (cases "i = ?id")
      case True
      then show ?thesis using that bnd n(2) b'(10) D(4)[OF sh] b'(9) D(6)[OF sh] by simp
    next
      case ne: False
      with False have "i - (?f + k) \<noteq> ?id - (?f + k)" "?c - k \<le> i - (?f + k)" "i - (?f + k) < ?m" using that bnd(1) by linarith+
      moreover have "(drop k ?w @ replicate k None) ! (i - (?f + k)) = None"
        using calculation D(4,6,8)[OF sh] b'(9) by (auto simp: nth_append)
      ultimately show ?thesis using ne n(2) b'(10) by simp
    qed
    then show ?thesis using False that n(1) b'(4,5) by (simp add: ring_map_def)
  qed
  have "ring_map b' i = slide ?m ?id ((ring_map b)(?id \<mapsto> ss)) i" for i
  proof -
    consider "i < ?f + k" | "?id < i" | "?f + k \<le> i" "i \<le> ?id" by linarith
    then show ?thesis
    proof cases
      case 1
      then have "i < ?f \<or> ?id \<ge> i + ?m" "i \<noteq> ?id" using bnd(2) n(1) b'(7) by (cases "k = 0"; linarith)+
      then show ?thesis using 1 b'(4) by (auto simp: ring_map_def slide_def)
    next
      case 2
      then have "\<not> i < ?f + ?c" "\<not> i < ?f + k + (?c - k + added)" "i \<noteq> ?id" using n(1) b'(6,7) by linarith+
      then show ?thesis using b'(4,5) by (simp add: ring_map_def slide_def)
    next
      case 3
      then show ?thesis using w[OF 3] bnd(1) by (auto simp: ring_map_def slide_def)
    qed
  qed
  moreover have "ring_last b' = ?id" using n(1) b'(4,5,7) by (simp add: ring_last_def)
  ultimately show thesis using that[OF b'(1) ok b'(3)] by blast
qed

lemma slide_ring:
  assumes "ring_ok b" "0 < rb_current_size b"
  shows "slide (rb_max_size b) (ring_last b) (ring_map b) = ring_map b"
proof (rule ext)
  fix i
  show "slide (rb_max_size b) (ring_last b) (ring_map b) i = ring_map b i"
    using ring_ok_first(3)[OF assms] assms(2) by (auto simp: slide_def ring_map_def ring_last_def)
qed

lemma ring_add_inside:
  assumes "ring_ok b" "0 < rb_current_size b" "rb_first_id b \<le> ss_id ss" "ss_id ss \<le> ring_last b"
  obtains b' where "ring_add_source_symbol b ss = Some b'" "ring_ok b'" "rb_max_size b' = rb_max_size b" "ring_last b' = ring_last b"
    "ring_map b' = slide (rb_max_size b) (ring_last b) ((ring_map b)(ss_id ss \<mapsto> ss))"
proof -
  let ?f = "rb_first_id b" let ?c = "rb_current_size b" let ?j = "ss_id ss - rb_first_id b"
  have sh: "ring_shape b" using assms(1,2) by (simp add: ring_ok_def)
  note D = ring_shapeD[OF sh]
  have last: "ring_get_last_source_symbol_id b = ?f + ?c - 1" "ring_last b = ?f + ?c - 1"
    using ring_last_eq[OF sh assms(2)] assms(2) by (simp_all add: ring_last_def)
  have j: "?f + ?j = ss_id ss" "?j < ?c" "?j < rb_max_size b" "?f + ?j < 2 ^ 32 - 1" using assms(2-4) last(2) D(6,7) by linarith+
  obtain b' where b': "ring_store b (ring_index b (?f + ?j)) ss = Some b'" "ring_shape (b'\<lparr>rb_current_size := ?c\<rparr>)"
    "rb_max_size b' = rb_max_size b" "rb_first_id b' = ?f" "rb_current_size b' = ?c"
    "ring_window (b'\<lparr>rb_current_size := ?c\<rparr>) = (ring_window b)[?j := Some ss]"
    by (rule ring_store_eq[OF sh j(3,4), of ss ?c]) (use j in simp_all)
  have same: "b'\<lparr>rb_current_size := ?c\<rparr> = b'" using b'(5) by simp
  have r: "ring_add_source_symbol b ss = Some b'"
    using b'(1) j(1) assms(2-4) last by (simp add: ring_add_source_symbol_def)
  have ok: "ring_ok b'" using b'(2-5) assms(1,2) ring_shapeD(3)[OF b'(2)] unfolding same by (simp add: ring_ok_def)
  have "ring_map b' = (ring_map b)(ss_id ss \<mapsto> ss)"
  proof (rule ext)
    fix i
    have "?f \<le> i \<Longrightarrow> i \<noteq> ss_id ss \<Longrightarrow> i - ?f \<noteq> ?j" using j(1) by linarith
    then show "ring_map b' i = ((ring_map b)(ss_id ss \<mapsto> ss)) i"
      using b'(4-6) j D(4) unfolding same by (auto simp: ring_map_def)
  qed
  moreover have "ring_last b' = ring_last b" using b'(4,5) by (simp add: ring_last_def)
  moreover have "0 < rb_current_size b'" using b'(5) assms(2) by simp
  ultimately show thesis using that[OF r ok b'(3)] slide_ring[OF ok] b'(3) by simp
qed

lemma ring_add_below:
  assumes "ring_ok b" "0 < rb_current_size b" "1 \<le> ss_id ss" "ss_id ss < rb_first_id b"
  shows "ring_add_source_symbol b ss = Some b"
    "ring_map b = slide (rb_max_size b) (ring_last b) ((ring_map b)(ss_id ss \<mapsto> ss))"
proof -
  have sh: "ring_shape b" using assms(1,2) by (simp add: ring_ok_def)
  have c: "rb_current_size b = rb_max_size b" using ring_ok_first(2)[OF assms(1,2)] assms(3,4) by linarith
  show "ring_add_source_symbol b ss = Some b"
    using assms(2,4) ring_last_eq[OF sh assms(2)] unfolding ring_add_source_symbol_def by auto
  have "\<not> ring_last b < ss_id ss + rb_max_size b" using c assms(2,4) by (simp add: ring_last_def)
  moreover have "ring_map b (ss_id ss) = None" using assms(4) by (simp add: ring_map_def)
  ultimately have "slide (rb_max_size b) (ring_last b) ((ring_map b)(ss_id ss \<mapsto> ss)) = slide (rb_max_size b) (ring_last b) (ring_map b)"
    by (auto simp: slide_def fun_eq_iff)
  then show "ring_map b = slide (rb_max_size b) (ring_last b) ((ring_map b)(ss_id ss \<mapsto> ss))"
    using slide_ring[OF assms(1,2)] by simp
qed

lemma ring_add_ok:
  assumes "ring_ok b" "1 \<le> ss_id ss" "ss_id ss < 2 ^ 32 - 1" "rb_current_size b = 0 \<or> ss_id ss < ring_last b + rb_max_size b"
  obtains b' where "ring_add_source_symbol b ss = Some b'" "ring_ok b'" "rb_max_size b' = rb_max_size b" "ring_last b' = max (ring_last b) (ss_id ss)"
    "ring_map b' = slide (rb_max_size b) (max (ring_last b) (ss_id ss)) ((ring_map b)(ss_id ss \<mapsto> ss))"
proof -
  consider "rb_current_size b = 0" | "0 < rb_current_size b" "ring_last b < ss_id ss" "ss_id ss < ring_last b + rb_max_size b"
    | "0 < rb_current_size b" "ss_id ss \<le> ring_last b" "rb_first_id b \<le> ss_id ss" | "0 < rb_current_size b" "ss_id ss \<le> ring_last b" "ss_id ss < rb_first_id b"
    using assms(4) by linarith
  then show thesis
  proof cases
    case 1
    then have e: "ring_last b = 0" "ring_map b = Map.empty" by (auto simp: ring_last_def ring_map_def fun_eq_iff)
    have "0 < rb_max_size b" using assms(1) by (simp add: ring_ok_def)
    then have "slide (rb_max_size b) (ss_id ss) [ss_id ss \<mapsto> ss] = [ss_id ss \<mapsto> ss]" by (auto simp: slide_def)
    then show thesis using ring_add_empty[OF assms(1) 1 assms(2,3)] that e by (metis max_0L)
  next
    case 2
    show thesis by (rule ring_add_above[OF assms(1) 2 assms(3)]) (use 2 that in \<open>simp add: max_absorb2\<close>)
  next
    case 3
    show thesis by (rule ring_add_inside[OF assms(1) 3(1,3,2)]) (use 3 that in \<open>simp add: max_absorb1\<close>)
  next
    case 4
    show thesis using that[OF ring_add_below(1)[OF assms(1) 4(1) assms(2) 4(3)] assms(1)] ring_add_below(2)[OF assms(1) 4(1) assms(2) 4(3)] 4(2)
      by (simp add: max_absorb1)
  qed
qed

lemma new_ring_ok:
  assumes "0 < n" "n < 2 ^ 31"
  obtains b where "new_ring_based_source_symbols_buffer True True junk n = Some b" "ring_ok b" "rb_current_size b = 0" "rb_max_size b = n"
    "ring_map b = Map.empty"
  by (rule that[of "\<lparr>rb_max_size = n, rb_current_size = 0, rb_first_index = 0, rb_first_id = 0, rb_array = replicate n junk\<rparr>"])
    (use assms in \<open>auto simp: new_ring_based_source_symbols_buffer_def ring_ok_def ring_map_def\<close>)

text \<open>
  Two cases are left out. When the new identifier is more than a buffer ahead, the buffer is
  emptied and the new symbol is not stored, although the comment in the code says it is the last
  of the buffer. When it is exactly a buffer ahead, making room empties the buffer, which forgets
  where the window is: the size becomes larger than the array.
\<close>

lemma remove_range_eq:
  "i + n \<le> length (rb_array b) \<Longrightarrow>
   remove_range b i n = Some (b\<lparr>rb_array := take i (rb_array b) @ replicate n None @ drop (i + n) (rb_array b)\<rparr>)"
proof (induction n arbitrary: i b)
  case (Suc n)
  let ?b = "b\<lparr>rb_array := (rb_array b)[i := None]\<rparr>"
  have "ring_remove_and_free b i = Some ?b" using Suc.prems by (simp add: ring_remove_and_free_def)
  moreover have "take (Suc i) ((rb_array b)[i := None]) = take i (rb_array b) @ [None]"
    using Suc.prems by (simp add: take_Suc_conv_app_nth)
  moreover have "drop (Suc i + n) ((rb_array b)[i := None]) = drop (i + Suc n) (rb_array b)" by simp
  ultimately show ?case using Suc.IH[of "Suc i" ?b] Suc.prems by simp
qed simp

lemma ring_add_far:
  assumes "ring_ok b" "rb_current_size b = rb_max_size b" "ring_last b + rb_max_size b < ss_id ss" "ss_id ss < 2 ^ 32 - 1"
  shows "\<exists>b'. ring_add_source_symbol b ss = Some b' \<and> ring_contains b' (ss_id ss) = Some False"
proof -
  let ?m = "rb_max_size b"
  have m: "0 < rb_current_size b" "0 < ?m" "?m < 2 ^ 31" "length (rb_array b) = ?m" using assms(1,2) by (simp_all add: ring_ok_def)
  have sh: "ring_shape b" using assms(1) m(1) by (simp add: ring_ok_def)
  have last: "ring_get_last_source_symbol_id b = ring_last b" using ring_last_eq[OF sh m(1)] m(1) by (simp add: ring_last_def)
  have sub: "u32_sub (ss_id ss) (ring_last b) = ss_id ss - ring_last b" "u32_sub (ss_id ss) (?m - 1) = ss_id ss - (?m - 1)"
    using assms(3,4) by (simp_all add: wrap_simps)
  let ?b = "b\<lparr>rb_array := replicate ?m None, rb_first_index := 0, rb_first_id := ss_id ss - (?m - 1)\<rparr>"
  have far: "ring_last b < ss_id ss" "?m < ss_id ss - ring_last b" using assms(3) by linarith+
  have "remove_range b 0 ?m = Some (b\<lparr>rb_array := replicate ?m None\<rparr>)" using remove_range_eq[of 0 ?m b] m(4) by simp
  then have r: "ring_add_source_symbol b ss = Some ?b"
    unfolding ring_add_source_symbol_def last sub Let_def using far m(1) sub(2) by (simp del: One_nat_def)
  have "rd (rb_array ?b) (ring_index ?b i) = Some None" for i using m(2) by (simp add: rd_def ring_index_def)
  then show ?thesis using r by (simp add: ring_contains_def)
qed

definition ring_symbol :: "nat \<Rightarrow> window_source_symbol" where
  "ring_symbol i = \<lparr>chunk_size = 0, whole_data = [], ss_id = i\<rparr>"

lemma ring_add_full_ahead:
  assumes "b = \<lparr>rb_max_size = 2, rb_current_size = 2, rb_first_index = 0, rb_first_id = 1, rb_array = [None, Some (ring_symbol 2)]\<rparr>"
  shows "ring_ok b" "\<exists>b'. ring_add_source_symbol b (ring_symbol 4) = Some b' \<and> rb_current_size b' = 5 \<and> rb_max_size b' = 2"
proof -
  have two: "j < 2 \<longleftrightarrow> j = 0 \<or> j = 1" for j :: nat by auto
  show "ring_ok b" by (auto simp: assms ring_ok_def ring_shape_def ring_window_def two ring_symbol_def)
  let ?e = "\<lparr>rb_max_size = 2, rb_current_size = 0, rb_first_index = 0, rb_first_id = 0, rb_array = [None, None]\<rparr>"
  have first: "ring_remove_and_free_first b = Some (b\<lparr>rb_array := [None, Some (ring_symbol 2)], rb_first_id := 2, rb_first_index := 1, rb_current_size := 1\<rparr>)"
    by (simp add: assms ring_remove_and_free_first_def u32_add_def)
  have second: "ring_remove_and_free_first (b\<lparr>rb_array := [None, Some (ring_symbol 2)], rb_first_id := 2, rb_first_index := 1, rb_current_size := 1\<rparr>) = Some ?e"
    by (simp add: assms ring_remove_and_free_first_def u32_add_def)
  have room: "make_room b 2 = Some ?e"
    using first second by (simp add: make_room.simps assms u32_add_def)
  have last: "ring_get_last_source_symbol_id b = 2" "ring_get_last_source_symbol_id ?e = 2 ^ 32 - 1"
    by (simp_all add: assms ring_get_last_source_symbol_id_def u32_add_def u32_sub_def)
  have free: "ring_remove_and_free ?e (ring_index ?e i) = Some ?e" for i
  proof -
    have "ring_index ?e i < 2" by (simp add: ring_index_def)
    then show ?thesis unfolding two by (auto simp: ring_remove_and_free_def)
  qed
  have clear: "clear_ids ?e i 4 = Some ?e" for i
    by (induction "4 - i" arbitrary: i) (subst clear_ids.simps, simp add: free)+
  have "ring_index ?e 4 = 0" by (simp add: ring_index_def u32_add_def u32_sub_def)
  then have "ring_store ?e (ring_index ?e 4) (ring_symbol 4) = Some (?e\<lparr>rb_array := [Some (ring_symbol 4), None]\<rparr>)"
    by (simp add: ring_store_def)
  moreover have "ring_get_last_source_symbol_id (?e\<lparr>rb_array := [Some (ring_symbol 4), None]\<rparr>) = 2 ^ 32 - 1"
    by (simp add: ring_get_last_source_symbol_id_def u32_add_def u32_sub_def)
  moreover have "u32_sub 4 2 = 2" "u32_add 0 (u32_sub 4 (2 ^ 32 - 1)) = 5" by (simp_all add: u32_add_def u32_sub_def)
  moreover have "ss_id (ring_symbol 4) = 4" "rb_current_size b = 2" "rb_max_size b = 2" by (simp_all add: ring_symbol_def assms)
  ultimately show "\<exists>b'. ring_add_source_symbol b (ring_symbol 4) = Some b' \<and> rb_current_size b' = 5 \<and> rb_max_size b' = 2"
    using room clear last unfolding ring_add_source_symbol_def by (simp add: Let_def)
qed

section \<open>Property\<close>

text \<open>
  C39. The ring buffer is a window that slides over the identifiers: a new buffer is empty, and
  adding a symbol less than a buffer ahead never faults, makes the window end at the largest
  identifier so far, adds exactly the symbol and forgets exactly the symbols that leave the window,
  so that a symbol below the window is not added. Looking up an identifier and asking for its
  presence give the content of the window.
\<close>

theorem ring_refines_window:
  assumes "ring_ok b" "1 \<le> ss_id ss" "ss_id ss < 2 ^ 32 - 1" "rb_current_size b = 0 \<or> ss_id ss < ring_last b + rb_max_size b"
    "0 < n" "n < 2 ^ 31"
  shows "(\<exists>b0. new_ring_based_source_symbols_buffer True True junk n = Some b0 \<and> ring_ok b0 \<and> rb_current_size b0 = 0 \<and> ring_map b0 = Map.empty) \<and>
    (\<exists>b'. ring_add_source_symbol b ss = Some b' \<and> ring_ok b' \<and> rb_max_size b' = rb_max_size b \<and>
      ring_last b' = max (ring_last b) (ss_id ss) \<and>
      ring_map b' = (\<lambda>i. if ring_last b' < i + rb_max_size b then ((ring_map b)(ss_id ss \<mapsto> ss)) i else None) \<and>
      (\<forall>i < 2 ^ 32. ring_get b' i = Some (ring_map b' i) \<and> ring_contains b' i = Some (ring_map b' i \<noteq> None)))"
proof -
  obtain b' where b': "ring_add_source_symbol b ss = Some b'" "ring_ok b'" "rb_max_size b' = rb_max_size b"
    "ring_last b' = max (ring_last b) (ss_id ss)"
    "ring_map b' = slide (rb_max_size b) (max (ring_last b) (ss_id ss)) ((ring_map b)(ss_id ss \<mapsto> ss))"
    by (rule ring_add_ok[OF assms(1-4)])
  have c: "0 < rb_current_size b'" using b'(4) assms(2) by (auto simp: ring_last_def split: if_splits)
  have mp: "ring_map b' = (\<lambda>i. if ring_last b' < i + rb_max_size b then ((ring_map b)(ss_id ss \<mapsto> ss)) i else None)"
    unfolding b'(4,5) by (rule ext) (simp add: slide_def)
  obtain b0 where b0: "new_ring_based_source_symbols_buffer True True junk n = Some b0" "ring_ok b0" "rb_current_size b0 = 0" "ring_map b0 = Map.empty"
    by (rule new_ring_ok[OF assms(5,6)])
  show ?thesis by (intro conjI exI[of _ b0] exI[of _ b'] allI impI) (rule b0 b'(1-4) mp ring_lookup[OF b'(2) c]; assumption?)+
qed

theorem ring_refines_window_witness:
  "\<exists>b b'. new_ring_based_source_symbols_buffer True True None 2 = Some b \<and>
     ring_add_source_symbol b (ring_symbol 3) = Some b' \<and> ring_get b' 3 = Some (Some (ring_symbol 3)) \<and> ring_get b' 2 = Some None"
proof -
  obtain b where b: "new_ring_based_source_symbols_buffer True True None 2 = Some b" "ring_ok b" "rb_current_size b = 0" "rb_max_size b = 2"
    "ring_map b = Map.empty" by (rule new_ring_ok[of 2 None]) simp_all
  have h: "1 \<le> ss_id (ring_symbol 3)" "ss_id (ring_symbol 3) < 2 ^ 32 - 1" by (simp_all add: ring_symbol_def)
  obtain b' where b': "ring_add_source_symbol b (ring_symbol 3) = Some b'" "ring_last b' = max (ring_last b) (ss_id (ring_symbol 3))"
    "ring_map b' = (\<lambda>i. if ring_last b' < i + rb_max_size b then ((ring_map b)(ss_id (ring_symbol 3) \<mapsto> ring_symbol 3)) i else None)"
    "\<forall>i < 2 ^ 32. ring_get b' i = Some (ring_map b' i) \<and> ring_contains b' i = Some (ring_map b' i \<noteq> None)"
    using ring_refines_window[OF b(2) h disjI1[OF b(3)], of 2 None] by auto
  have l: "ring_last b' = 3" using b'(2) b(3) by (simp add: ring_last_def ring_symbol_def)
  have "ring_get b' 3 = Some (ring_map b' 3)" "ring_get b' 2 = Some (ring_map b' 2)" using b'(4) by simp_all
  moreover have "ring_map b' 3 = Some (ring_symbol 3)" "ring_map b' 2 = None"
    unfolding b'(3) l using b(4,5) by (simp_all add: ring_symbol_def)
  ultimately show ?thesis using b(1) b'(1) by simp
qed

end
