(* ===== verification/Reassembly.thy ===== *)
theory Reassembly
  imports RingBuffer
begin

text \<open>
  The reassembly of packets from recovered symbols (\<^verbatim>\<open>window_framework/framework_receiver.h\<close>): the
  receiver looks for the first and the last symbol of the packet in its ring buffer, joins the
  chunks without packet number and leading zero bytes, and reads the packet number. The lemmas show
  which packets come back as they were sent, and that packets that fit one symbol survive
  segmentation and reassembly.
\<close>

section \<open>Reassembly\<close>

text \<open>
  The loop backwards over the identifiers. \<open>Some None\<close> is the return of \<open>false\<close>; the results are the
  identifier of the first symbol, or 0, and the packet number.
\<close>

partial_function (option) find_start :: "ring_buffer \<Rightarrow> nat \<Rightarrow> nat \<Rightarrow> u64 \<Rightarrow> (nat \<times> u64) option option" where
  "find_start b first_id_in_buffer current packet_number =
     (if current \<ge> first_id_in_buffer then do {
        present \<leftarrow> ring_contains b current;
        (if \<not> present then Some None
         else do {
           s \<leftarrow> ring_get b current;
           ss \<leftarrow> s;
           is_start \<leftarrow> get_ss_metadata_S ss;
           (if is_start then do {
              has_number \<leftarrow> get_ss_metadata_N ss;
              packet_number \<leftarrow> (if has_number then decode_u64 (whole_data ss) 1 else Some packet_number);
              Some (Some (current, packet_number))
            }
            else find_start b first_id_in_buffer (u32_sub current 1) packet_number)
         })
      }
      else Some (Some (0, packet_number)))"

text \<open>The loop forwards; the result is the identifier of the last symbol, or 0.\<close>

partial_function (option) find_end :: "ring_buffer \<Rightarrow> nat \<Rightarrow> nat option option" where
  "find_end b current =
     (if current \<le> ring_get_last_source_symbol_id b then do {
        present \<leftarrow> ring_contains b current;
        (if \<not> present then Some None
         else do {
           s \<leftarrow> ring_get b current;
           ss \<leftarrow> s;
           is_end \<leftarrow> get_ss_metadata_E ss;
           (if is_end then Some (Some current) else find_end b (u32_add current 1))
         })
      }
      else Some (Some 0))"

text \<open>The offset in the chunk after the zero bytes from \<open>j\<close> on.\<close>

function skip_padding :: "window_source_symbol \<Rightarrow> nat \<Rightarrow> nat option" where
  "skip_padding ss j =
     (if j < chunk_size ss then do {
        x \<leftarrow> rd (whole_data ss) (1 + j);
        (if x \<noteq> 0 then Some j else skip_padding ss (Suc j))
      }
      else Some j)"
  by pat_completeness auto
termination by (relation "measure (\<lambda>(ss, j). chunk_size ss - j)") auto

declare skip_padding.simps [simp del]

text \<open>The copy of one chunk to the end of the payload.\<close>

definition copy_chunk :: "window_source_symbol \<Rightarrow> bytes \<Rightarrow> nat \<Rightarrow> (bytes \<times> nat) option" where
  "copy_chunk ss buffer payload_size = do {
     has_number \<leftarrow> get_ss_metadata_N ss;
     data_offset \<leftarrow> skip_padding ss (if has_number then 8 else 0);
     buffer \<leftarrow> memcpy_at buffer payload_size (whole_data ss) (1 + data_offset) (u64_sub (chunk_size ss) data_offset);
     Some (buffer, payload_size + u64_sub (chunk_size ss) data_offset)
   }"

partial_function (option) copy_chunks ::
  "ring_buffer \<Rightarrow> window_source_symbol \<Rightarrow> nat \<Rightarrow> nat \<Rightarrow> bytes \<Rightarrow> nat \<Rightarrow> (bytes \<times> nat) option" where
  "copy_chunks b recovered i end_id buffer payload_size =
     (if i \<le> end_id then do {
        s \<leftarrow> (if i = ss_id recovered then Some (Some recovered) else ring_get b i);
        ss \<leftarrow> s;
        (buffer, payload_size) \<leftarrow> copy_chunk ss buffer payload_size;
        copy_chunks b recovered (u32_add i 1) end_id buffer payload_size
      }
      else Some (buffer, payload_size))"

text \<open>
  The values behind the three result pointers are arguments and results; they keep their value on
  the paths of the code that do not write them. The final test of the second search compares an
  unsigned number with -1.
\<close>

definition reassemble_packet_from_recovered_symbol ::
  "ring_buffer \<Rightarrow> window_source_symbol \<Rightarrow> bytes \<Rightarrow> nat \<Rightarrow> u64 \<Rightarrow> nat \<Rightarrow> (bool \<times> bytes \<times> nat \<times> u64 \<times> nat) option" where
  "reassemble_packet_from_recovered_symbol b recovered buffer payload_size packet_number first_id_in_packet = do {
     is_start \<leftarrow> get_ss_metadata_S recovered;
     is_end \<leftarrow> get_ss_metadata_E recovered;
     bounds \<leftarrow> (if is_start \<and> is_end then do {
         has_number \<leftarrow> get_ss_metadata_N recovered;
         packet_number \<leftarrow> (if has_number then decode_u64 (whole_data recovered) 1 else Some packet_number);
         Some (Inr (ss_id recovered, ss_id recovered, packet_number))
       }
       else do {
         start \<leftarrow> find_start b (ring_get_first_source_symbol_id b) (ss_id recovered) packet_number;
         (case start of
            None \<Rightarrow> Some (Inl packet_number)
          | Some (start_id, packet_number) \<Rightarrow>
              if start_id = 0 then Some (Inl packet_number)
              else do {
                end' \<leftarrow> find_end b (ss_id recovered);
                Some (case end' of
                    None \<Rightarrow> Inl packet_number
                  | Some end_id \<Rightarrow> if end_id = 2 ^ 32 - 1 then Inl packet_number else Inr (start_id, end_id, packet_number))
              })
       });
     (case bounds of
        Inl packet_number \<Rightarrow> Some (False, buffer, payload_size, packet_number, first_id_in_packet)
      | Inr (start_id, end_id, packet_number) \<Rightarrow> do {
          (buffer, payload_size) \<leftarrow> copy_chunks b recovered start_id end_id buffer 0;
          Some (True, buffer, payload_size, packet_number, start_id)
        })
   }"

section \<open>Chunks\<close>

text \<open>The data of a symbol: its chunk without the packet number and without leading zero bytes.\<close>

definition has_packet_number :: "window_source_symbol \<Rightarrow> bool" where
  "has_packet_number ss \<longleftrightarrow> get_ss_metadata_N ss = Some True"

definition chunk_of :: "window_source_symbol \<Rightarrow> bytes" where
  "chunk_of ss = dropWhile (\<lambda>x. x = 0) (drop (if has_packet_number ss then 8 else 0) (take (chunk_size ss) (tl (whole_data ss))))"

definition symbol_ok :: "window_source_symbol \<Rightarrow> bool" where
  "symbol_ok ss \<longleftrightarrow> chunk_size ss < length (whole_data ss) \<and> chunk_size ss < 2 ^ 16 \<and> (has_packet_number ss \<longrightarrow> 8 \<le> chunk_size ss)"

lemma skip_padding_eq:
  assumes "chunk_size ss < length (whole_data ss)" "j \<le> chunk_size ss"
  shows "skip_padding ss j = Some (chunk_size ss - length (dropWhile (\<lambda>x. x = 0) (drop j (take (chunk_size ss) (tl (whole_data ss))))))"
  using assms(2)
proof (induction "chunk_size ss - j" arbitrary: j)
  case 0
  then show ?case by (subst skip_padding.simps) simp
next
  case (Suc n)
  let ?c = "take (chunk_size ss) (tl (whole_data ss))"
  have j: "j < chunk_size ss" "j < length ?c" "length ?c = chunk_size ss" using Suc.hyps(2) assms(1) by simp_all
  have d: "drop j ?c = ?c ! j # drop (Suc j) ?c" using Cons_nth_drop_Suc[OF j(2)] by simp
  have r: "rd (whole_data ss) (1 + j) = Some (?c ! j)" using j(1) assms(1) by (simp add: rd_def nth_tl)
  have "skip_padding ss (Suc j) = Some (chunk_size ss - length (dropWhile (\<lambda>x. x = 0) (drop (Suc j) ?c)))"
    using Suc.hyps(1)[of "Suc j"] Suc.hyps(2) by simp
  then show ?case using r j(1) assms(1) unfolding d by (subst skip_padding.simps) (simp add: min_absorb2)
qed

lemma dropWhile_drop:
  assumes "j \<le> length xs"
  shows "dropWhile P (drop j xs) = drop (length xs - length (dropWhile P (drop j xs))) xs"
proof -
  let ?t = "length (takeWhile P (drop j xs))"
  have e: "dropWhile P (drop j xs) = drop (?t + j) xs" by (simp add: dropWhile_eq_drop)
  moreover have "?t + j \<le> length xs" using length_takeWhile_le[of P "drop j xs"] assms by simp
  ultimately show ?thesis by simp
qed

lemma copy_chunk_eq:
  assumes "symbol_ok ss" "n + length (chunk_of ss) \<le> length buffer"
  shows "copy_chunk ss buffer n = Some (overlay buffer n (chunk_of ss), n + length (chunk_of ss))"
proof -
  let ?c = "take (chunk_size ss) (tl (whole_data ss))" let ?j = "if has_packet_number ss then 8 else 0"
  let ?o = "chunk_size ss - length (chunk_of ss)"
  have ok: "chunk_size ss < length (whole_data ss)" "chunk_size ss < 2 ^ 16" "?j \<le> chunk_size ss" using assms(1) by (auto simp: symbol_ok_def)
  have "whole_data ss \<noteq> []" using ok(1) by auto
  then have n: "get_ss_metadata_N ss = Some (has_packet_number ss)" by (auto simp: has_packet_number_def get_ss_metadata_N_def rd_def)
  have s: "skip_padding ss ?j = Some ?o" using skip_padding_eq[OF ok(1,3)] by (simp add: chunk_of_def)
  have l: "length (chunk_of ss) \<le> chunk_size ss" using length_dropWhile_le[of "\<lambda>x. x = 0" "drop ?j ?c"] ok(1) by (simp add: chunk_of_def)
  then have u: "u64_sub (chunk_size ss) ?o = length (chunk_of ss)" using ok(2) by (simp add: u64_sub_le)
  have "chunk_of ss = drop ?o ?c" using dropWhile_drop[of ?j ?c "\<lambda>x. x = 0"] ok(1,3) by (simp add: chunk_of_def min_absorb2)
  then have "take (length (chunk_of ss)) (drop (1 + ?o) (whole_data ss)) = chunk_of ss" using l ok(1) by (simp add: drop_take drop_Suc tl_drop)
  then have "memcpy_at buffer n (whole_data ss) (1 + ?o) (length (chunk_of ss)) = Some (overlay buffer n (chunk_of ss))"
    using assms(2) l ok(1) by (simp add: memcpy_at_def)
  then show ?thesis using n s u by (simp add: copy_chunk_def)
qed

section \<open>Packets of several symbols\<close>

text \<open>
  The symbols \<open>s\<close> to \<open>e\<close> of the buffer are those of one packet.
\<close>

definition packet_in_ring :: "ring_buffer \<Rightarrow> (nat \<Rightarrow> window_source_symbol) \<Rightarrow> nat \<Rightarrow> nat \<Rightarrow> bool" where
  "packet_in_ring b sy s e \<longleftrightarrow> ring_ok b \<and> 0 < rb_current_size b \<and> 1 \<le> s \<and> s \<le> e \<and> e < 2 ^ 32 - 1 \<and>
     (\<forall>i. s \<le> i \<and> i \<le> e \<longrightarrow> ring_map b i = Some (sy i) \<and> whole_data (sy i) \<noteq> [] \<and> (has_packet_number (sy i) \<longleftrightarrow> i = s) \<and>
       get_ss_metadata_S (sy i) = Some (i = s) \<and> get_ss_metadata_E (sy i) = Some (i = e))"

definition packet_data :: "(nat \<Rightarrow> window_source_symbol) \<Rightarrow> nat \<Rightarrow> nat \<Rightarrow> bytes" where
  "packet_data sy s e = concat (map (\<lambda>i. chunk_of (sy i)) [s..<Suc e])"

lemma packet_data_simps:
  "i \<le> e \<Longrightarrow> packet_data sy i e = chunk_of (sy i) @ packet_data sy (Suc i) e" "packet_data sy (Suc e) e = []"
  by (simp_all add: packet_data_def upt_conv_Cons del: upt_Suc)

lemma packet_in_ringD:
  assumes "packet_in_ring b sy s e" "s \<le> i" "i \<le> e"
  shows "ring_contains b i = Some True" "ring_get b i = Some (Some (sy i))" "whole_data (sy i) \<noteq> []" "ss_id (sy i) = i" "i < 2 ^ 32 - 1"
    "get_ss_metadata_S (sy i) = Some (i = s)" "get_ss_metadata_E (sy i) = Some (i = e)" "get_ss_metadata_N (sy i) = Some (i = s)"
    "ring_get_first_source_symbol_id b \<le> i" "i \<le> ring_get_last_source_symbol_id b" "0 < i"
proof -
  have b: "ring_ok b" "0 < rb_current_size b" "ring_shape b" and i: "i < 2 ^ 32" "ring_map b i = Some (sy i)"
    using assms unfolding packet_in_ring_def ring_ok_def by auto
  show "ring_contains b i = Some True" "ring_get b i = Some (Some (sy i))" using ring_lookup[OF b(1,2) i(1)] i(2) by simp_all
  show ok: "whole_data (sy i) \<noteq> []" and "i < 2 ^ 32 - 1" "get_ss_metadata_S (sy i) = Some (i = s)" "get_ss_metadata_E (sy i) = Some (i = e)" "0 < i"
    using assms unfolding packet_in_ring_def by auto
  have w: "rb_first_id b \<le> i" "i < rb_first_id b + rb_current_size b" "ring_window b ! (i - rb_first_id b) = Some (sy i)"
    using i(2) by (auto simp: ring_map_def split: if_splits)
  show "ss_id (sy i) = i" using ring_shape_id[OF b(3) _ w(3)] w(1,2) ring_shapeD(6)[OF b(3)] by simp
  show "ring_get_first_source_symbol_id b \<le> i" "i \<le> ring_get_last_source_symbol_id b"
    using w(1,2) ring_last_eq[OF b(3,2)] by (simp_all add: ring_get_first_source_symbol_id_def)
  have "has_packet_number (sy i) \<longleftrightarrow> i = s" using assms unfolding packet_in_ring_def by auto
  with ok show "get_ss_metadata_N (sy i) = Some (i = s)" by (auto simp: has_packet_number_def get_ss_metadata_N_def rd_def)
qed

lemma find_start_eq:
  assumes "packet_in_ring b sy s e" "s \<le> i" "i \<le> e" "decode_u64 (whole_data (sy s)) 1 = Some pn"
  shows "find_start b (ring_get_first_source_symbol_id b) i pn' = Some (Some (s, pn))"
  using assms(2,3)
proof (induction "i - s" arbitrary: i)
  case 0
  then show ?case using packet_in_ringD[OF assms(1), of i] assms(4) by (subst find_start.simps) simp
next
  case (Suc n)
  note D = packet_in_ringD[OF assms(1) Suc.prems]
  have "u32_sub i 1 = i - 1" using D(5,11) by (simp add: wrap_simps)
  moreover have "i \<noteq> s" "find_start b (ring_get_first_source_symbol_id b) (i - 1) pn' = Some (Some (s, pn))"
    using Suc.hyps(1)[of "i - 1"] Suc.hyps(2) Suc.prems by simp_all
  ultimately show ?case using D(1,2,6,9) by (subst find_start.simps) simp
qed

lemma find_end_eq:
  assumes "packet_in_ring b sy s e" "s \<le> i" "i \<le> e"
  shows "find_end b i = Some (Some e)"
  using assms(2,3)
proof (induction "e - i" arbitrary: i)
  case 0
  then show ?case using packet_in_ringD[OF assms(1), of i] by (subst find_end.simps) simp
next
  case (Suc n)
  note D = packet_in_ringD[OF assms(1) Suc.prems]
  have "u32_add i 1 = Suc i" using D(5) by (simp add: u32_add_def)
  then show ?case using D Suc.hyps(1)[of "Suc i"] Suc.hyps(2) Suc.prems by (subst find_end.simps) simp
qed

lemma copy_chunks_eq:
  assumes "packet_in_ring b sy s e" "s \<le> r" "r \<le> e" "\<forall>i. s \<le> i \<and> i \<le> e \<longrightarrow> symbol_ok (sy i)" "s \<le> i" "i \<le> Suc e"
    "n + length (packet_data sy i e) \<le> length buffer"
  shows "copy_chunks b (sy r) i e buffer n =
    Some (overlay buffer n (packet_data sy i e), n + length (packet_data sy i e))"
  using assms(5-7)
proof (induction "Suc e - i" arbitrary: i n buffer)
  case 0
  then have "i = Suc e" by simp
  then show ?case by (subst copy_chunks.simps) (simp add: overlay_def packet_data_simps(2))
next
  case (Suc m)
  let ?c = "chunk_of (sy i)"
  have i: "i \<le> e" using Suc.hyps(2) by simp
  note data = packet_data_simps(1)[OF i, of sy]
  note D = packet_in_ringD[OF assms(1) Suc.prems(1) i]
  have "u32_add i 1 = Suc i" using D(5) by (simp add: u32_add_def)
  moreover have "ss_id (sy r) = r" by (rule packet_in_ringD(4)[OF assms(1-3)])
  moreover have "copy_chunk (sy i) buffer n = Some (overlay buffer n ?c, n + length ?c)"
    by (rule copy_chunk_eq) (use Suc.prems assms(4) i data in simp_all)
  ultimately have "copy_chunks b (sy r) i e buffer n = copy_chunks b (sy r) (Suc i) e (overlay buffer n ?c) (n + length ?c)"
    using D(2) i by (subst copy_chunks.simps) auto
  also have "\<dots> = Some (overlay (overlay buffer n ?c) (n + length ?c) (packet_data sy (Suc i) e),
      n + length ?c + length (packet_data sy (Suc i) e))"
    by (rule Suc.hyps(1)) (use Suc.hyps(2) Suc.prems i data in \<open>simp_all add: length_overlay\<close>)
  finally show ?case
    using overlay_overlay[of n ?c "packet_data sy (Suc i) e" buffer] Suc.prems(3) unfolding data by simp
qed

section \<open>Packets of one symbol\<close>

lemma packet_symbol_chunk:
  assumes "whole_data ss = packet_symbol sz pn d @ J" "chunk_size ss = sz - 1" "9 + length d \<le> sz" "sz < 2 ^ 16" "d \<noteq> [] \<Longrightarrow> hd d \<noteq> 0"
  shows "symbol_ok ss" "chunk_of ss = d"
proof -
  have w: "whole_data ss = 7 # be_digits 8 (unat pn) @ (replicate (sz - 9 - length d) 0 @ d) @ J" using assms(1) by (simp add: packet_symbol_def)
  have n: "has_packet_number ss" by (simp add: has_packet_number_def get_ss_metadata_N_def w rd_def)
  have "sz - 1 < 1 + (8 + (sz - 9))" "8 \<le> sz - 1" "sz - 1 < 2 ^ 16" using assms(3,4) by linarith+
  then show "symbol_ok ss" using assms(2,3) n by (simp add: symbol_ok_def w del: be_digits.simps)
  have "take (sz - 1) (tl (whole_data ss)) = be_digits 8 (unat pn) @ replicate (sz - 9 - length d) 0 @ d"
    unfolding w using assms(3) by (simp del: be_digits.simps)
  then have "chunk_of ss = dropWhile (\<lambda>x. x = 0) (replicate (sz - 9 - length d) 0 @ d)" using n assms(2) by (simp add: chunk_of_def del: be_digits.simps)
  also have "\<dots> = dropWhile (\<lambda>x. x = 0) d" by (simp add: dropWhile_append)
  also have "\<dots> = d" using assms(5) by (cases d) auto
  finally show "chunk_of ss = d" .
qed

lemma reassemble_one:
  assumes "whole_data ss = packet_symbol sz pn d @ J" "chunk_size ss = sz - 1" "9 + length d \<le> sz" "sz < 2 ^ 16"
    "d \<noteq> [] \<Longrightarrow> hd d \<noteq> 0" "length d \<le> length buffer" "ss_id ss < 2 ^ 32 - 1"
  shows "reassemble_packet_from_recovered_symbol b ss buffer n pn' i = Some (True, overlay buffer 0 d, length d, pn, ss_id ss)"
proof -
  have w: "whole_data ss = [7] @ be_digits 8 (unat pn) @ (replicate (sz - 9 - length d) 0 @ d @ J)" using assms(1) by (simp add: packet_symbol_def)
  have f: "get_ss_metadata_S ss = Some True" "get_ss_metadata_E ss = Some True" "get_ss_metadata_N ss = Some True"
    by (simp_all add: get_ss_metadata_S_def get_ss_metadata_E_def get_ss_metadata_N_def w rd_def)
  have "be_val 0 (be_digits 8 (unat pn)) = unat pn" using unsigned_less[of pn] by (intro be_val_digits_0) simp
  then have num: "decode_u64 (whole_data ss) 1 = Some pn"
    unfolding w decode_u64_def by (subst decode_un_at) simp_all
  have "u32_add (ss_id ss) 1 = Suc (ss_id ss)" using assms(7) by (simp add: u32_add_def)
  then have "copy_chunks b ss (ss_id ss) (ss_id ss) buffer 0 = Some (overlay buffer 0 d, length d)"
    using copy_chunk_eq[of ss 0 buffer] packet_symbol_chunk[OF assms(1-5)] assms(6) by (simp add: copy_chunks.simps)
  then show ?thesis using f num by (simp add: reassemble_packet_from_recovered_symbol_def)
qed

lemma stream_data_hd: "skips skip fs \<Longrightarrow> stream_data fs \<noteq> [] \<Longrightarrow> hd (stream_data fs) \<noteq> 0"
proof (induction fs)
  case (Cons f fs)
  have "f \<noteq> []" using Cons.prems(1) unfolding skips_def by (auto dest: spec[of _ 0])
  then show ?case using Cons skips_tl[OF Cons.prems(1)] by (auto simp: is_stream_type_def)
qed simp

section \<open>What comes back\<close>

text \<open>
  The layout of a symbol: a byte of flags, a header and data. The size of the chunk is that of both,
  as \<open>create_window_source_symbol\<close> sets it for a recovered symbol, or 0, as it is in the symbols of
  received packets, which \<open>create_larger_source_symbol\<close> makes.
\<close>

definition symbol_layout :: "window_source_symbol \<Rightarrow> bytes \<Rightarrow> bytes \<Rightarrow> bool" where
  "symbol_layout ss h x \<longleftrightarrow> (\<exists>f J. whole_data ss = f # h @ x @ J) \<and> chunk_size ss \<in> {0, length (h @ x)} \<and> length (h @ x) < 2 ^ 16"

definition packet_header :: "u64 \<Rightarrow> nat \<Rightarrow> bytes" where
  "packet_header pn pad = be_digits 8 (unat pn) @ replicate pad 0"

lemma packet_header_number:
  assumes "symbol_layout ss (packet_header pn pad) x"
  shows "decode_u64 (whole_data ss) 1 = Some pn"
proof -
  obtain f J where w: "whole_data ss = [f] @ be_digits 8 (unat pn) @ (replicate pad 0 @ x @ J)"
    using assms by (auto simp: symbol_layout_def packet_header_def)
  have "be_val 0 (be_digits 8 (unat pn)) = unat pn" using unsigned_less[of pn] by (intro be_val_digits_0) simp
  then show ?thesis unfolding w decode_u64_def by (subst decode_un_at) simp_all
qed

lemma layout_chunk:
  assumes "symbol_layout ss (if has_packet_number ss then packet_header pn pad else []) x"
    and "has_packet_number ss \<longrightarrow> chunk_size ss \<noteq> 0"
  shows "symbol_ok ss" "chunk_of ss = (if chunk_size ss = 0 then [] else dropWhile (\<lambda>x. x = 0) x)"
proof -
  let ?h = "if has_packet_number ss then packet_header pn pad else []"
  obtain f J where w: "whole_data ss = f # ?h @ x @ J" "chunk_size ss \<in> {0, length (?h @ x)}" "length (?h @ x) < 2 ^ 16"
    using assms(1) by (auto simp: symbol_layout_def)
  have h: "length ?h = (if has_packet_number ss then 8 + pad else 0)" by (simp add: packet_header_def)
  then show "symbol_ok ss" using w assms(2) unfolding symbol_ok_def by (auto split: if_splits)
  have "drop (if has_packet_number ss then 8 else 0) (take (length (?h @ x)) (tl (whole_data ss))) =
      (if has_packet_number ss then replicate pad 0 else []) @ x"
    unfolding w(1) by (simp add: packet_header_def del: be_digits.simps)
  moreover have "dropWhile (\<lambda>x. x = 0) (replicate pad 0 @ x) = dropWhile (\<lambda>x. x = 0) x" by (simp add: dropWhile_append)
  ultimately show "chunk_of ss = (if chunk_size ss = 0 then [] else dropWhile (\<lambda>x. x = 0) x)"
    using w(2) by (auto simp: chunk_of_def split: if_splits)
qed

lemma concat_map_eq:
  "\<forall>i \<in> set xs. length (f i) \<le> length (g i) \<Longrightarrow>
   length (concat (map f xs)) \<le> length (concat (map g xs)) \<and>
   (concat (map f xs) = concat (map g xs) \<longleftrightarrow> (\<forall>i \<in> set xs. f i = g i))"
proof (induction xs)
  case (Cons x xs)
  then have le: "length (f x) \<le> length (g x)" "length (concat (map f xs)) \<le> length (concat (map g xs))" by auto
  moreover have "length (f x) = length (g x)" if "f x @ concat (map f xs) = g x @ concat (map g xs)"
    using arg_cong[OF that, of length] le by simp
  ultimately show ?case using Cons by auto
qed simp

text \<open>A first symbol of size 0 makes the receiver copy from after the packet number to before the end.\<close>

lemma copy_chunk_fault:
  assumes "get_ss_metadata_N ss = Some True" "chunk_size ss = 0" "length buffer < 2 ^ 64 - 8"
  shows "copy_chunk ss buffer n = None"
proof -
  have "skip_padding ss 8 = Some 8" using assms(2) by (simp add: skip_padding.simps)
  moreover have "u64_sub 0 8 = 2 ^ 64 - 8" by (simp add: u64_sub_def)
  ultimately show ?thesis using assms by (simp add: copy_chunk_def memcpy_at_def)
qed

lemma reassemble_bounds:
  assumes "packet_in_ring b sy s e" "s \<le> r" "r \<le> e" "decode_u64 (whole_data (sy s)) 1 = Some pn"
  shows "reassemble_packet_from_recovered_symbol b (sy r) buffer n pn' i =
    map_option (\<lambda>(buffer, payload_size). (True, buffer, payload_size, pn, s)) (copy_chunks b (sy r) s e buffer 0)"
proof -
  note D = packet_in_ringD[OF assms(1-3)]
  have "s \<le> e" "0 < s" "e \<noteq> 2 ^ 32 - 1" using assms(1-3) by (auto simp: packet_in_ring_def)
  then show ?thesis
    using D(4,6-8) assms(2-4) find_start_eq[OF assms(1-4)] find_end_eq[OF assms(1-3)]
    unfolding reassemble_packet_from_recovered_symbol_def
    by (cases "s = e"; cases "copy_chunks b (sy r) s e buffer 0") auto
qed

section \<open>Properties\<close>

text \<open>
  C31. Reassembly of a packet of several symbols that are all in the ring buffer: the first one has
  the start flag, the packet number and zero padding before its data, the others have data only and
  the last one the end flag. From any recovered symbol of the packet the receiver finds the first
  and the last one and returns the packet number and the data of the symbols in order, but without
  the zero bytes at the beginning of each of them and without the data of those whose chunk size is
  not set. So the data come back complete exactly when every symbol with data has its chunk size
  set and its data do not begin with a zero byte. When the chunk size of the first
  symbol is not set, as for a symbol of a received packet, the copy runs past the end of the buffers.
\<close>

theorem reassemble_correct:
  assumes "packet_in_ring b sy s e" "s \<le> r" "r \<le> e"
    "\<forall>i. s \<le> i \<and> i \<le> e \<longrightarrow> symbol_layout (sy i) (if i = s then packet_header pn pad else []) (d i)"
    "data = concat (map d [s..<Suc e])" "length data \<le> length buffer" "length buffer < 2 ^ 64 - 8"
  shows "if chunk_size (sy s) = 0 then reassemble_packet_from_recovered_symbol b (sy r) buffer n pn' k = None
    else \<exists>buffer' m. reassemble_packet_from_recovered_symbol b (sy r) buffer n pn' k = Some (True, buffer', m, pn, s) \<and>
      m \<le> length data \<and> drop m buffer' = drop m buffer \<and>
      take m buffer' = concat (map (\<lambda>i. if chunk_size (sy i) = 0 then [] else dropWhile (\<lambda>x. x = 0) (d i)) [s..<Suc e]) \<and>
      (take m buffer' = data \<longleftrightarrow> (\<forall>i. s \<le> i \<and> i \<le> e \<longrightarrow> d i = [] \<or> chunk_size (sy i) \<noteq> 0 \<and> hd (d i) \<noteq> 0))"
proof -
  let ?f = "\<lambda>i. if chunk_size (sy i) = 0 then [] else dropWhile (\<lambda>x. x = 0) (d i)"
  have se: "s \<le> e" using assms(2,3) by simp
  have "symbol_layout (sy s) (packet_header pn pad) (d s)" using assms(4)[rule_format, of s] se by simp
  note re = reassemble_bounds[OF assms(1-3) packet_header_number[OF this]]
  note D = packet_in_ringD[OF assms(1) order.refl se]
  show ?thesis
  proof (cases "chunk_size (sy s) = 0")
    case True
    have "copy_chunk (sy s) buffer 0 = None" using copy_chunk_fault[OF _ True assms(7)] D(8) by simp
    moreover have "ss_id (sy r) = r" by (rule packet_in_ringD(4)[OF assms(1-3)])
    ultimately have "copy_chunks b (sy r) s e buffer 0 = None" using D(2) se by (subst copy_chunks.simps) auto
    then show ?thesis using True re by simp
  next
    case False
    have num: "has_packet_number (sy i) \<longleftrightarrow> i = s" if "s \<le> i" "i \<le> e" for i
      using packet_in_ringD(8)[OF assms(1) that] by (simp add: has_packet_number_def)
    have ch: "symbol_ok (sy i)" "chunk_of (sy i) = ?f i" if "s \<le> i" "i \<le> e" for i
      using layout_chunk[of "sy i" pn pad "d i"] num[OF that] assms(4) that False by auto
    have data: "packet_data sy s e = concat (map ?f [s..<Suc e])"
      unfolding packet_data_def by (rule arg_cong[where f = concat], rule map_cong) (use ch(2) in auto)
    have "\<forall>i \<in> set [s..<Suc e]. length (?f i) \<le> length (d i)" by (simp add: length_dropWhile_le)
    from concat_map_eq[OF this] have le: "length (packet_data sy s e) \<le> length data"
      and eq: "packet_data sy s e = data \<longleftrightarrow> (\<forall>i \<in> set [s..<Suc e]. ?f i = d i)"
      unfolding data assms(5) by blast+
    let ?b = "overlay buffer 0 (packet_data sy s e)" and ?m = "length (packet_data sy s e)"
    have cc: "copy_chunks b (sy r) s e buffer 0 = Some (?b, ?m)"
      using copy_chunks_eq[OF assms(1-3) _ order.refl _, of 0 buffer] ch(1) se le assms(6) by simp
    have tk: "take ?m ?b = packet_data sy s e" "drop ?m ?b = drop ?m buffer" by (simp_all add: overlay_def)
    have f: "?f i = d i \<longleftrightarrow> d i = [] \<or> chunk_size (sy i) \<noteq> 0 \<and> hd (d i) \<noteq> 0" for i
      by (cases "chunk_size (sy i) = 0") (simp_all add: dropWhile_eq_self_iff eq_commute[of "[]"])
    have eq': "packet_data sy s e = data \<longleftrightarrow> (\<forall>i. s \<le> i \<and> i \<le> e \<longrightarrow> d i = [] \<or> chunk_size (sy i) \<noteq> 0 \<and> hd (d i) \<noteq> 0)"
      unfolding eq f by (auto simp: less_Suc_eq_le simp del: upt_Suc)
    have "reassemble_packet_from_recovered_symbol b (sy r) buffer n pn' k = Some (True, ?b, ?m, pn, s)"
      using re cc by simp
    then show ?thesis unfolding if_not_P[OF False] using tk le eq' data
      by (intro exI[of _ ?b] exI[of _ ?m]) (simp only: simp_thms)
  qed
qed

definition example_chunk :: "nat \<Rightarrow> window_source_symbol" where
  "example_chunk i = (if i = 1 then \<lparr>chunk_size = 10, whole_data = [6, 0, 0, 0, 0, 0, 0, 0, 5, 9, 9], ss_id = 1\<rparr>
     else \<lparr>chunk_size = 3, whole_data = [1, 0, 7, 8], ss_id = 2\<rparr>)"

definition example_ring :: ring_buffer where
  "example_ring = \<lparr>rb_max_size = 2, rb_current_size = 2, rb_first_index = 0, rb_first_id = 1,
     rb_array = [Some (example_chunk 1), Some (example_chunk 2)]\<rparr>"

lemma example_packet_in_ring: "packet_in_ring example_ring example_chunk 1 2"
proof -
  have two: "j < 2 \<longleftrightarrow> j = 0 \<or> j = 1" "1 \<le> j \<and> j \<le> 2 \<longleftrightarrow> j = 1 \<or> j = 2" for j :: nat by auto
  have "ring_ok example_ring"
    by (auto simp: example_ring_def ring_ok_def ring_shape_def ring_window_def two(1) example_chunk_def)
  moreover have "ring_map example_ring 1 = Some (example_chunk 1)" "ring_map example_ring 2 = Some (example_chunk 2)"
    by (simp_all add: example_ring_def ring_map_def ring_window_def)
  moreover have "whole_data (example_chunk 1) \<noteq> []" "whole_data (example_chunk 2) \<noteq> []" "has_packet_number (example_chunk 1)" "\<not> has_packet_number (example_chunk 2)"
    by (simp_all add: has_packet_number_def get_ss_metadata_N_def rd_def example_chunk_def)
  moreover have "get_ss_metadata_S (example_chunk 1) = Some True" "get_ss_metadata_E (example_chunk 1) = Some False"
    "get_ss_metadata_S (example_chunk 2) = Some False" "get_ss_metadata_E (example_chunk 2) = Some True"
    by (simp_all add: get_ss_metadata_S_def get_ss_metadata_E_def rd_def example_chunk_def)
  ultimately show ?thesis unfolding packet_in_ring_def two(2) by (auto simp: example_ring_def)
qed

theorem reassemble_correct_witness:
  "\<exists>buffer' m. reassemble_packet_from_recovered_symbol example_ring (example_chunk 2) (replicate 6 0) 0 0 0 = Some (True, buffer', m, 5, 1) \<and>
     take m buffer' = [9, 9, 7, 8] \<and> take m buffer' \<noteq> [9, 9, 0, 7, 8]"
proof -
  let ?d = "\<lambda>i. if i = 1 then [9, 9] else [0, 7, 8] :: bytes"
  have n: "[1..<Suc 2] = [1, 2]" by (simp add: upt_rec numeral_2_eq_2)
  have "be_digits (Suc (Suc (Suc (Suc (Suc (Suc (Suc (Suc 0)))))))) 5 = [0, 0, 0, 0, 0, 0, 0, 5 :: u8]" by simp
  then have five: "be_digits 8 5 = [0, 0, 0, 0, 0, 0, 0, 5 :: u8]" by (simp only: numeral_eq_Suc pred_numeral_simps BitM.simps numeral_One)
  have w: "whole_data (example_chunk 1) = 6 # packet_header 5 0 @ [9, 9] @ []" "whole_data (example_chunk 2) = 1 # [] @ [0, 7, 8] @ []"
    "chunk_size (example_chunk 1) = 10" "chunk_size (example_chunk 2) = 3" "length (packet_header 5 0) = 8"
    using five by (simp_all add: packet_header_def example_chunk_def)
  have "symbol_layout (example_chunk 1) (packet_header 5 0) [9, 9]" "symbol_layout (example_chunk 2) [] [0, 7, 8]"
    unfolding symbol_layout_def using w by auto
  then have lay: "\<forall>i. 1 \<le> i \<and> i \<le> 2 \<longrightarrow> symbol_layout (example_chunk i) (if i = 1 then packet_header 5 0 else []) (?d i)"
    by (auto simp: le_Suc_eq numeral_2_eq_2)
  have "[9, 9, 0, 7, 8] = concat (map ?d [1..<Suc 2])" unfolding n by simp
  from reassemble_correct[OF example_packet_in_ring _ _ lay this, of 2 "replicate 6 0" 0 0 0] show ?thesis
    unfolding n by (simp add: w(3,4) del: One_nat_def) (elim exE conjE, intro exI conjI, assumption, assumption, simp)
qed

text \<open>
  C40. A packet whose stream frames fit one symbol survives segmentation and reassembly: the sender
  makes one symbol of it, and from every recovered symbol with the same bytes, whatever the ring
  buffer holds, the receiver gets the packet number and exactly the stream frames of the packet.
  The operation that skips a frame must find the frames of the packet one after the other.
\<close>

theorem packet_survives:
  assumes "skips skip fs" "concat fs \<noteq> []" "length (concat fs) + 8 \<le> length tmp" "9 + length (stream_data fs) \<le> symbol_size"
    "symbol_size < 2 ^ 16" "alloc 0 = (True, True)" "length (stream_data fs) \<le> length buffer"
  shows "\<exists>ss. packet_payload_to_source_symbols skip alloc True junk (concat fs) (length (concat fs)) symbol_size pn (Some tmp) = Some (Some [ss]) \<and>
    (\<forall>recovered. take symbol_size (whole_data recovered) = take symbol_size (whole_data ss) \<and> chunk_size recovered = symbol_size - 1 \<and>
        ss_id recovered < 2 ^ 32 - 1 \<longrightarrow>
      reassemble_packet_from_recovered_symbol b recovered buffer n pn' i =
        Some (True, overlay buffer 0 (stream_data fs), length (stream_data fs), pn, ss_id recovered))"
proof -
  let ?d = "stream_data fs"
  obtain J where s: "packet_payload_to_source_symbols skip alloc True junk (concat fs) (length (concat fs)) symbol_size pn (Some tmp) =
    Some (Some [\<lparr>chunk_size = 0, whole_data = packet_symbol symbol_size pn ?d @ J, ss_id = 0\<rparr>])"
    by (rule segment_one[where alloc = alloc, OF assms(1) refl assms(2-6)])
  have "reassemble_packet_from_recovered_symbol b r buffer n pn' i = Some (True, overlay buffer 0 ?d, length ?d, pn, ss_id r)"
    if r: "take symbol_size (whole_data r) = packet_symbol symbol_size pn ?d" "chunk_size r = symbol_size - 1" "ss_id r < 2 ^ 32 - 1" for r
  proof (rule reassemble_one[OF _ r(2) assms(4,5) _ assms(7) r(3)])
    show "whole_data r = packet_symbol symbol_size pn ?d @ drop symbol_size (whole_data r)" using r(1) by (metis append_take_drop_id)
  qed (rule stream_data_hd[OF assms(1)])
  then show ?thesis using s length_packet_symbol[OF assms(4), of pn] by auto
qed

theorem packet_survives_witness:
  "\<exists>ss. packet_payload_to_source_symbols (\<lambda>_ _. (0, 3)) (\<lambda>_. (True, True)) True 0 [8, 1, 2] 3 20 5 (Some (replicate 11 0)) = Some (Some [ss]) \<and>
     reassemble_packet_from_recovered_symbol
       \<lparr>rb_max_size = 1, rb_current_size = 0, rb_first_index = 0, rb_first_id = 0, rb_array = [None]\<rparr>
       (ss\<lparr>chunk_size := 19, ss_id := 7\<rparr>) (replicate 5 0) 0 0 0 = Some (True, [8, 1, 2, 0, 0], 3, 5, 7)"
proof -
  let ?fs = "[[8, 1, 2]] :: bytes list" let ?s = "(\<lambda>_ _. (0, 3)) :: bytes \<Rightarrow> nat \<Rightarrow> int \<times> nat"
  have d: "stream_data ?fs = [8, 1, 2]" by (simp add: is_stream_type_def)
  have h: "skips ?s ?fs" "concat ?fs \<noteq> []" "length (concat ?fs) + 8 \<le> length (replicate 11 (0 :: u8))" "9 + length (stream_data ?fs) \<le> 20"
    "(20 :: nat) < 2 ^ 16" "length (stream_data ?fs) \<le> length (replicate 5 (0 :: u8))" unfolding d by (simp_all add: skips_def)
  from packet_survives[OF h(1-5) _ h(6), of "\<lambda>_. (True, True)" 0 5 _ 0 0 0] obtain ss where
    ss: "packet_payload_to_source_symbols ?s (\<lambda>_. (True, True)) True 0 (concat ?fs) (length (concat ?fs)) 20 5 (Some (replicate 11 0)) = Some (Some [ss])"
    and re: "\<forall>r. take 20 (whole_data r) = take 20 (whole_data ss) \<and> chunk_size r = 20 - 1 \<and> ss_id r < 2 ^ 32 - 1 \<longrightarrow>
      reassemble_packet_from_recovered_symbol \<lparr>rb_max_size = 1, rb_current_size = 0, rb_first_index = 0, rb_first_id = 0, rb_array = [None]\<rparr>
        r (replicate 5 0) 0 0 0 = Some (True, overlay (replicate 5 0) 0 (stream_data ?fs), length (stream_data ?fs), 5, ss_id r)" by blast
  have "overlay (replicate 5 0) 0 [8, 1, 2] = [8, 1, 2, 0, 0 :: u8]" by (simp add: overlay_def numeral_eq_Suc)
  then show ?thesis using ss re[rule_format, of "ss\<lparr>chunk_size := 19, ss_id := 7\<rparr>"] unfolding d by (intro exI[of _ ss]) (simp add: numeral_3_eq_3)
qed

end
