(* ===== verification/Spec2Isabelle.thy ===== *)
theory Spec2Isabelle
  imports IntFormat RedBlackTreeMap SacksCorrect UbpfCorrect TinyMT LinSystemRemove FecEncode
    PluginMemory RecoveredFrame Reassembly
begin

text \<open>
  A verification development for PQUIC with the FlEC forward-erasure-correction plugins.

  \<^bold>\<open>The program.\<close> PQUIC is a QUIC implementation (\<^verbatim>\<open>picoquic/\<close>) whose behaviour can be changed by plugins.
  A plugin is eBPF bytecode: the loader validates it and inserts memory checks, the virtual machine
  (\<^verbatim>\<open>ubpf/vm/\<close>) runs it, and it allocates from a memory area of its own (\<^verbatim>\<open>picoquic/memory.c\<close>) and may use
  containers of the core (\<^verbatim>\<open>picoquic/red_black_tree.c\<close>). The FlEC plugin (\<^verbatim>\<open>plugins/simple_fec/\<close>) protects
  packets against loss: the sender combines the symbols of a window with pseudo-random coefficients
  over the field with 256 elements, queues the resulting repair symbols and sends them in repair
  frames; the receiver turns every repair symbol into a linear equation, solves the equations online
  by Gaussian elimination, and reports recovered packets and its window back to the sender.

  \<^bold>\<open>Conventions.\<close> C functions are functions on values; a function that changes memory returns the
  changed value. Following a null pointer or accessing memory outside of an object is the value
  \<open>None\<close> of an option type, so a theorem that a function returns \<open>Some\<close> also says that it does not
  fault. Machine integers are words where bits matter, and naturals with the wrap-around written
  out (\<open>u32_add\<close>, \<open>u32_sub\<close>, \<open>u64_sub\<close>) where the proofs are arithmetic. The outcome of an allocation is
  an argument, so every theorem covers failed allocations unless it says otherwise. A loop that is
  the body of a C function is a function of its own, named after what it does.

  \<^bold>\<open>The core and the virtual machine.\<close>
  \<^item> \<open>Prelude\<close>: words, bytes, big-endian digits, buffer writes, wrap-around arithmetic.
  \<^item> \<open>IntFormat\<close>: \<^verbatim>\<open>picoquic/intformat.c\<close>, \<^verbatim>\<open>picoquic/fnv1a.c\<close> and the parsing macros of
    \<^verbatim>\<open>picoquic/picoquic_internal.h\<close>. Variable-length integers survive encoding and decoding, encoder,
    length and skip functions agree, and a protected message passes its check.
  \<^item> \<open>OrderedMap\<close>: the contract of an ordered symbol table, the locale \<open>ordered_map\<close>.
  \<^item> \<open>RedBlackTree\<close>: the operations of \<^verbatim>\<open>picoquic/red_black_tree.c\<close> on a tree of nodes, with their checks of
    plugin memory. \<open>RedBlackTreeShape\<close>, \<open>RedBlackTreeInsert\<close> and \<open>RedBlackTreeDelete\<close> show that the
    left-leaning invariant is kept; \<open>RedBlackTreeMap\<close> interprets \<open>ordered_map\<close> on the tree and has the
    properties of the operations, and of the deletion of the maximum, which removes nothing.
  \<^item> \<open>Sacks\<close>, \<open>SacksCorrect\<close>: \<^verbatim>\<open>picoquic/sacks.c\<close>. The lists of received packet numbers implement sets; the
    locale \<open>pn_log\<close> is the contract that replay protection rests on. A packet is accepted twice only when
    recording it failed for lack of memory.
  \<^item> \<open>Ebpf\<close>: the instruction set (\<^verbatim>\<open>ubpf/vm/ebpf.h\<close>) and \<open>ubpf_exec\<close> of \<^verbatim>\<open>ubpf/vm/ubpf_vm.c\<close>, one step of the
    interpreter as \<open>exec_step\<close>. \<open>UbpfLoad\<close>: \<open>validate\<close> and the rewriting with memory checks.
    \<open>UbpfSafety\<close>, \<open>UbpfRewrite\<close>, \<open>UbpfIsolation\<close>, \<open>UbpfCorrect\<close>: a jump of a validated program stays inside
    its code, the rewritten program simulates the original one, and an invariant of its runs shows
    that no access starts outside of memory and stack; the check includes the end of these areas and
    does not look at the size of the access.
  \<^item> \<open>PluginMemory\<close>: the pool of fixed blocks of \<^verbatim>\<open>picoquic/memory.c\<close>, on the flat memory of the virtual
    machine. Runs of allocations, frees and writes are an inductive step relation; in every reachable
    state the held blocks are apart and the free list is intact.

  \<^bold>\<open>The erasure code\<close>, in \<^verbatim>\<open>plugins/simple_fec/\<close>.
  \<^item> \<open>GF256\<close>, \<open>GF256Correct\<close>: \<^verbatim>\<open>picoquic/gf256/\<close> and the tables of the plugin. The tables are those of a field,
    and the variants of symbol addition agree. The external library \<open>moepgf\<close> is a parameter; the
    locale \<open>gf_region\<close> states its documented behaviour and is interpreted on the native loops.
  \<^item> \<open>TinyMT\<close>: \<^verbatim>\<open>prng/tinymt32.c\<close> and \<open>get_coefs\<close>. Coefficients are never zero.
  \<^item> \<open>Equation\<close>, \<open>EquationCorrect\<close>: \<^verbatim>\<open>equation.h\<close>. Scaling and adding equations act as they should on
    coefficients and constant terms, with the coefficient buffer grown as needed. An addition needs
    equations of the same payload length, and a first range that does not start after the pivot of
    the second equation.
  \<^item> \<open>LinSystem\<close>: \<^verbatim>\<open>system.h\<close>. \<open>LinSystemCorrect\<close>, \<open>LinSystemAdd\<close>, \<open>LinSystemRemove\<close> show that elimination ends,
    keeps the invariant of the system and its solutions, and that old rows are removed exactly.
    \<open>Decoding\<close> draws the conclusions: what is decoded is what was sent, everything that is determined
    is decoded, and every new equation helps.
  \<^item> \<open>FecWire\<close>: the integers of \<^verbatim>\<open>utils.h\<close> and the identifier, repair and receive-window frames of
    \<^verbatim>\<open>window_framework/types.h\<close>, with round trips. \<open>RecoveredFrame\<close>: the recovered frame of the same file,
    its round trip and the frames for which it fails: those with consecutive identifiers and more than
    two runs of packet numbers.
  \<^item> \<open>ArrayList\<close>: \<^verbatim>\<open>arraylist.h\<close>. \<open>RepairQueue\<close>: the queue of repair symbols in \<^verbatim>\<open>framework_sender.h\<close>, a ring
    that refines a bounded queue (locale \<open>bounded_queue\<close>).
  \<^item> \<open>FecEncode\<close>: \<open>get_one_coded_symbol\<close> and the equation the receiver makes of a repair symbol. Its
    property composes coding, queueing, framing and parsing.
  \<^item> \<open>SymbolTracker\<close>: the tracker of received symbols in \<^verbatim>\<open>search_structures.h\<close>, which refines a set.
  \<^item> \<open>RingBuffer\<close>: the ring of received symbols in \<^verbatim>\<open>window_receive_buffers.h\<close>, which refines a window that
    slides over the identifiers, and the two cases in which it does not.
  \<^item> \<open>FecSymbols\<close>: the packing of packets into source symbols in \<^verbatim>\<open>fec.h\<close>; \<open>Reassembly\<close>: the way back in
    \<^verbatim>\<open>framework_receiver.h\<close>. Reassembly joins the symbols of a packet, without the zero bytes they begin with
    and without symbols whose chunk size is not set; a packet of one symbol survives both. The operation of the engine that skips a frame is a parameter.

  \<^bold>\<open>Bounds and fuel.\<close> \<open>exec_loop\<close> takes the number of instructions the interpreter may execute, since a
  plugin need not end; theorems about it ask for a run that ends and give one that ends. The loops
  over identifiers in \<open>LinSystem\<close> and \<open>Reassembly\<close> are partial functions, since they do not end at the last identifier;
  under the hypotheses of the properties they are shown to return. All other loops are total
  functions. Identifiers and packet numbers keep the bounds of their C types; the hypotheses on
  identifiers keep a window away from the wrap-around, where the code is not correct.

  \<^bold>\<open>Not modelled.\<close>
  \<^item> The protocol engine of \<^verbatim>\<open>picoquic/\<close>: frames, packets, connection contexts, sending, TLS, sockets,
    logging, tickets, congestion control. It works on one connection structure of several hundred
    fields through function pointers that plugins replace, and on cryptographic libraries that are
    not part of the repository.
  \<^item> The registration of plugins and the calls into them (\<^verbatim>\<open>plugin.c\<close>, \<^verbatim>\<open>protoop.c\<close>, \<^verbatim>\<open>ubpf.c\<close>, \<^verbatim>\<open>getset.c\<close>): hash
    tables of strings and field access to the connection.
  \<^item> The compiler to machine code and the ELF loader of \<^verbatim>\<open>ubpf/vm/\<close>: they produce x86 code and read files.
  \<^item> The dynamic memory manager of \<^verbatim>\<open>memory.c\<close>: it calls the submodule \<open>michelfralloc\<close>.
  \<^item> Of the FlEC plugin: the hooks into the engine, the redundancy controllers, whose decisions use
    measured rates and times, the stream schedulers, the offline decoder, the Tetrys variant, the
    priority queue and the receive buffers made of it or of the tree, and the rest of the receiver,
    which reads the state of the connection.
  \<^item> The other plugins, the demonstration programs, the tests and the benchmarks.
  \<^item> Floating-point results of the generator, and printing everywhere.
\<close>

end
